(* ===== verification/Prelude.thy ===== *)
theory Prelude
  imports Main "HOL-Library.Word"
begin

text \<open>
  Shared vocabulary of the development: the Go integer types as machine words, the run-time
  panics of Go as a datatype, the panicking slice and map primitives every component uses
  (\<open>x[lo:hi]\<close>, \<open>x[i]\<close>, \<open>make\<close>, \<open>copy\<close>) and the big-endian accessors of
  \<^verbatim>\<open>encoding/binary\<close>.  A Go call that may panic returns a value of \<open>'a go\<close>; a Go
  \<^verbatim>\<open>error\<close> result is a value of \<open>io_err option\<close>.
\<close>

unbundle bit_operations_syntax

section \<open>Automation collections\<close>

named_theorems go_eval "evaluation rules of the panicking primitives"
named_theorems wire_eval "evaluation rules of the packet codecs"

section \<open>Go types and panics\<close>

type_synonym byte = "8 word"
type_synonym u16 = "16 word"
type_synonym u32 = "32 word"
type_synonym u64 = "64 word"

text \<open>A Go \<^verbatim>\<open>int\<close> is 64 bits wide on the supported platforms; where the sign matters it is
  read with \<open>sint\<close>.\<close>

type_synonym goint = "64 word"

datatype go_fault =
    IndexOutOfRange
  | SliceBounds
  | NilDereference
  | NilMapWrite
  | MakeSliceLen
  | DivideByZero
  | ExplicitPanic string

type_synonym 'a go = "go_fault + 'a"

datatype io_err = EOF | UnexpectedEOF | ShortWrite | InvalidWrite | IOError string

definition go_bind :: "'a go \<Rightarrow> ('a \<Rightarrow> 'b go) \<Rightarrow> 'b go" where
  "go_bind m f = (case m of Inl e \<Rightarrow> Inl e | Inr x \<Rightarrow> f x)"

lemma go_bind_Inr [simp, go_eval]: "go_bind (Inr x) f = f x"
  by (simp add: go_bind_def)

lemma go_bind_Inl [simp, go_eval]: "go_bind (Inl e) f = Inl e"
  by (simp add: go_bind_def)

lemma go_bind_assoc: "go_bind (go_bind m f) g = go_bind m (\<lambda>x. go_bind (f x) g)"
  by (cases m) simp_all

lemma go_bind_eq_Inr: "go_bind m f = Inr y \<longleftrightarrow> (\<exists>x. m = Inr x \<and> f x = Inr y)"
  by (cases m) simp_all

lemma go_bind_okI: "\<exists>x. m = Inr x \<Longrightarrow> (\<And>x. \<exists>q. f x = Inr q) \<Longrightarrow> \<exists>q. go_bind m f = Inr q"
  by (auto simp: go_bind_eq_Inr)

lemma go_bind_InrE:
  assumes "go_bind m f = Inr y"
  obtains x where "m = Inr x" and "f x = Inr y"
  using assms by (auto simp: go_bind_eq_Inr)

section \<open>Slices\<close>

text \<open>
  Slices are lists of their \<^verbatim>\<open>len\<close> elements.  Every slice the modelled code re-slices comes
  from \<^verbatim>\<open>make([]T, n)\<close> or is itself cut from one without growing, so the bound checked is the
  length.
\<close>

definition go_slice :: "'a list \<Rightarrow> nat \<Rightarrow> nat \<Rightarrow> 'a list go" where
  "go_slice xs lo hi =
     (if lo \<le> hi \<and> hi \<le> length xs then Inr (take (hi - lo) (drop lo xs)) else Inl SliceBounds)"

definition go_index :: "'a list \<Rightarrow> nat \<Rightarrow> 'a go" where
  "go_index xs i = (if i < length xs then Inr (xs ! i) else Inl IndexOutOfRange)"

text \<open>
  \<^verbatim>\<open>make([]byte, n)\<close>: the run-time panics when \<open>n\<close> exceeds its largest allocation, which is
  \<open>2^48\<close> bytes on linux/amd64 (\<^verbatim>\<open>heapAddrBits\<close>), and otherwise returns zeros.
\<close>

definition maxAlloc :: nat where
  "maxAlloc = 2 ^ 48"

definition go_make :: "u64 \<Rightarrow> byte list go" where
  "go_make n = (if unat n \<le> maxAlloc then Inr (replicate (unat n) 0) else Inl MakeSliceLen)"

text \<open>\<^verbatim>\<open>copy(dst, src)\<close>: the new contents of \<open>dst\<close>.\<close>

definition go_copy :: "'a list \<Rightarrow> 'a list \<Rightarrow> 'a list" where
  "go_copy dst src = (let n = min (length dst) (length src) in take n src @ drop n dst)"

text \<open>Storing \<open>bs\<close> through the sub-slice \<open>dst[off : off + length bs]\<close>.\<close>

definition go_store :: "nat \<Rightarrow> 'a list \<Rightarrow> 'a list \<Rightarrow> 'a list go" where
  "go_store off bs dst =
     (if off + length bs \<le> length dst
      then Inr (take off dst @ bs @ drop (off + length bs) dst) else Inl SliceBounds)"

lemma length_go_copy [simp]: "length (go_copy dst src) = length dst"
  by (simp add: go_copy_def Let_def)

lemma go_copy_full: "length src \<le> length dst \<Longrightarrow> go_copy dst src = src @ drop (length src) dst"
  by (simp add: go_copy_def min_absorb2)

lemma go_slice_mid [go_eval]:
  "lo = length pre \<Longrightarrow> hi = lo + length bs \<Longrightarrow> go_slice (pre @ bs @ post) lo hi = Inr bs"
  by (simp add: go_slice_def)

lemma go_slice_short [go_eval]: "length xs < hi \<Longrightarrow> go_slice xs lo hi = Inl SliceBounds"
  by (simp add: go_slice_def)

lemma go_slice_length: "go_slice xs lo hi = Inr bs \<Longrightarrow> length bs = hi - lo"
  by (auto simp: go_slice_def split: if_splits)

lemma go_slice_ok: "lo \<le> hi \<Longrightarrow> hi \<le> length xs \<Longrightarrow> go_slice xs lo hi = Inr (take (hi - lo) (drop lo xs))"
  by (simp add: go_slice_def)

lemma go_store_length: "go_store off bs dst = Inr dst' \<Longrightarrow> length dst' = length dst"
  by (auto simp: go_store_def split: if_splits)

lemma go_store_short [go_eval]: "length dst < off + length bs \<Longrightarrow> go_store off bs dst = Inl SliceBounds"
  by (simp add: go_store_def)

text \<open>Consecutive stores fill a buffer from the left.\<close>

lemma go_store_next [go_eval]:
  assumes "off = length pre" and "length bs \<le> length rest"
  shows "go_store off bs (pre @ rest) = Inr ((pre @ bs) @ drop (length bs) rest)"
  using assms by (simp add: go_store_def)

text \<open>Storing back what a slice already holds changes nothing.\<close>

lemma go_store_same:
  assumes "go_slice xs lo hi = Inr bs"
  shows "go_store lo bs xs = Inr xs"
proof -
  from assms have "lo \<le> hi" "hi \<le> length xs" and bs: "bs = take (hi - lo) (drop lo xs)"
    by (auto simp: go_slice_def split: if_splits)
  then have "length bs = hi - lo" by simp
  moreover have "take lo xs @ take (hi - lo) (drop lo xs) @ drop hi xs = xs"
    using \<open>lo \<le> hi\<close>
    by (metis append_take_drop_id append.assoc drop_drop le_add_diff_inverse2)
  ultimately show ?thesis
    using \<open>lo \<le> hi\<close> \<open>hi \<le> length xs\<close> bs by (simp add: go_store_def)
qed

section \<open>Big-endian integers (\<^verbatim>\<open>encoding/binary\<close>)\<close>

definition PutUint16 :: "u16 \<Rightarrow> byte list" where
  "PutUint16 v = [ucast (drop_bit 8 v), ucast v]"

definition PutUint32 :: "u32 \<Rightarrow> byte list" where
  "PutUint32 v = [ucast (drop_bit 24 v), ucast (drop_bit 16 v), ucast (drop_bit 8 v), ucast v]"

definition PutUint64 :: "u64 \<Rightarrow> byte list" where
  "PutUint64 v =
     [ucast (drop_bit 56 v), ucast (drop_bit 48 v), ucast (drop_bit 40 v), ucast (drop_bit 32 v),
      ucast (drop_bit 24 v), ucast (drop_bit 16 v), ucast (drop_bit 8 v), ucast v]"

fun Uint16 :: "byte list \<Rightarrow> u16 go" where
  "Uint16 (b0 # b1 # _) = Inr (ucast b1 OR push_bit 8 (ucast b0))"
| "Uint16 _ = Inl IndexOutOfRange"

fun Uint32 :: "byte list \<Rightarrow> u32 go" where
  "Uint32 (b0 # b1 # b2 # b3 # _) =
     Inr (ucast b3 OR push_bit 8 (ucast b2) OR push_bit 16 (ucast b1) OR push_bit 24 (ucast b0))"
| "Uint32 _ = Inl IndexOutOfRange"

fun Uint64 :: "byte list \<Rightarrow> u64 go" where
  "Uint64 (b0 # b1 # b2 # b3 # b4 # b5 # b6 # b7 # _) =
     Inr (ucast b7 OR push_bit 8 (ucast b6) OR push_bit 16 (ucast b5) OR push_bit 24 (ucast b4)
       OR push_bit 32 (ucast b3) OR push_bit 40 (ucast b2) OR push_bit 48 (ucast b1)
       OR push_bit 56 (ucast b0))"
| "Uint64 _ = Inl IndexOutOfRange"

lemma length_PutUint [simp]:
  "length (PutUint16 v) = 2" "length (PutUint32 w) = 4" "length (PutUint64 x) = 8"
  by (simp_all add: PutUint16_def PutUint32_def PutUint64_def)

lemma byte_range_cases:
  fixes n :: nat
  assumes "n < 64"
  obtains "n < 8" | "8 \<le> n" "n < 16" | "16 \<le> n" "n < 24" | "24 \<le> n" "n < 32"
    | "32 \<le> n" "n < 40" | "40 \<le> n" "n < 48" | "48 \<le> n" "n < 56" | "56 \<le> n" "n < 64"
  using assms by fastforce

lemma Uint16_Put [simp, wire_eval]: "Uint16 (PutUint16 v) = Inr v"
proof -
  have "ucast (ucast v :: byte) OR push_bit 8 (ucast (ucast (drop_bit 8 v) :: byte)) = v"
    by (rule bit_word_eqI) (auto simp: bit_simps)
  then show ?thesis by (simp add: PutUint16_def)
qed

lemma Uint32_Put [simp, wire_eval]: "Uint32 (PutUint32 v) = Inr v"
proof -
  have "ucast (ucast v :: byte) OR push_bit 8 (ucast (ucast (drop_bit 8 v) :: byte))
      OR push_bit 16 (ucast (ucast (drop_bit 16 v) :: byte))
      OR push_bit 24 (ucast (ucast (drop_bit 24 v) :: byte)) = v" (is "?w = v")
  proof (rule bit_word_eqI)
    fix n assume "n < LENGTH(32)"
    then have "n < 64" and "n < 32" by simp_all
    then show "bit ?w n = bit v n"
      by (cases n rule: byte_range_cases) (simp_all add: bit_simps less_diff_conv2)
  qed
  then show ?thesis by (simp add: PutUint32_def)
qed

lemma Uint64_Put [simp, wire_eval]: "Uint64 (PutUint64 v) = Inr v"
proof -
  have "ucast (ucast v :: byte) OR push_bit 8 (ucast (ucast (drop_bit 8 v) :: byte))
      OR push_bit 16 (ucast (ucast (drop_bit 16 v) :: byte))
      OR push_bit 24 (ucast (ucast (drop_bit 24 v) :: byte))
      OR push_bit 32 (ucast (ucast (drop_bit 32 v) :: byte))
      OR push_bit 40 (ucast (ucast (drop_bit 40 v) :: byte))
      OR push_bit 48 (ucast (ucast (drop_bit 48 v) :: byte))
      OR push_bit 56 (ucast (ucast (drop_bit 56 v) :: byte)) = v" (is "?w = v")
  proof (rule bit_word_eqI)
    fix n assume "n < LENGTH(64)"
    then have "n < 64" by simp
    then show "bit ?w n = bit v n"
      by (cases n rule: byte_range_cases) (simp_all add: bit_simps less_diff_conv2)
  qed
  then show ?thesis by (simp add: PutUint64_def)
qed

lemma byte_bit_beyond [simp]: "8 \<le> n \<Longrightarrow> \<not> bit b n" for b :: byte
  by (auto dest: bit_imp_le_length)

lemma Put_Uint16: "length bs = 2 \<Longrightarrow> Uint16 bs = Inr v \<Longrightarrow> PutUint16 v = bs"
  by (cases bs rule: Uint16.cases)
    (auto simp: PutUint16_def bit_simps intro!: bit_word_eqI)

lemma Put_Uint32: "length bs = 4 \<Longrightarrow> Uint32 bs = Inr v \<Longrightarrow> PutUint32 v = bs"
  by (cases bs rule: Uint32.cases)
    (auto simp: PutUint32_def bit_simps intro!: bit_word_eqI)

lemma Put_Uint64: "length bs = 8 \<Longrightarrow> Uint64 bs = Inr v \<Longrightarrow> PutUint64 v = bs"
  by (cases bs rule: Uint64.cases)
    (auto simp: PutUint64_def bit_simps intro!: bit_word_eqI)

lemma Uint16_total: "2 \<le> length bs \<Longrightarrow> \<exists>v. Uint16 bs = Inr v"
  by (cases bs rule: Uint16.cases) auto

lemma Uint32_total: "4 \<le> length bs \<Longrightarrow> \<exists>v. Uint32 bs = Inr v"
  by (cases bs rule: Uint32.cases) auto

lemma Uint64_total: "8 \<le> length bs \<Longrightarrow> \<exists>v. Uint64 bs = Inr v"
  by (cases bs rule: Uint64.cases) auto

section \<open>Small numbers as words\<close>

lemma of_nat_word_eq:
  "m < 2 ^ LENGTH('a) \<Longrightarrow> n < 2 ^ LENGTH('a) \<Longrightarrow> (of_nat m :: 'a::len word) = of_nat n \<longleftrightarrow> m = n"
  by (simp add: word_of_nat_eq_iff take_bit_nat_eq_self)

lemma unat_of_nat_small: "n < 2 ^ LENGTH('a) \<Longrightarrow> unat (of_nat n :: 'a::len word) = n"
  by (simp add: unsigned_of_nat take_bit_nat_eq_self)

lemma sint_of_nat_small:
  assumes "n < 2 ^ (LENGTH('a) - 1)"
  shows "sint (of_nat n :: 'a::len word) = int n"
proof -
  have "int n < 2 ^ (LENGTH('a) - 1)" using assms by (metis of_nat_less_iff of_nat_numeral of_nat_power)
  moreover have "- (2 ^ (LENGTH('a) - 1)) \<le> int n" by (rule order.trans [of _ 0]) simp_all
  ultimately have "signed_take_bit (LENGTH('a) - 1) (int n) = int n"
    by (intro signed_take_bit_int_eq_self)
  then show ?thesis by (simp add: signed_of_nat)
qed

end
