(* ===== verification/PacketCodec.thy ===== *)
theory PacketCodec
  imports Prelude
begin

text \<open>
  The wire formats of \<^verbatim>\<open>pkg/qpproto\<close>: the 26-byte handshake packet, the 52-byte data plane
  header and the 16-byte new-stream packet.  Each packet carries its own buffer \<^verbatim>\<open>Data\<close>;
  \<^verbatim>\<open>Encode\<close> stores the fields into it, \<^verbatim>\<open>Decode\<close> reads them from it, and both panic when
  the buffer is too short.  The interface the transports rely on is the locale \<open>wire_codec\<close>,
  interpreted on the three formats.
\<close>

unbundle bit_operations_syntax

section \<open>Field accessors\<close>

definition get16 :: "byte list \<Rightarrow> nat \<Rightarrow> u16 go" where
  "get16 d off = go_bind (go_slice d off (off + 2)) Uint16"

definition get32 :: "byte list \<Rightarrow> nat \<Rightarrow> u32 go" where
  "get32 d off = go_bind (go_slice d off (off + 4)) Uint32"

definition get64 :: "byte list \<Rightarrow> nat \<Rightarrow> u64 go" where
  "get64 d off = go_bind (go_slice d off (off + 8)) Uint64"

lemma get_ok:
  "off + 2 \<le> length d \<Longrightarrow> \<exists>v. get16 d off = Inr v"
  "off + 4 \<le> length d \<Longrightarrow> \<exists>w. get32 d off = Inr w"
  "off + 8 \<le> length d \<Longrightarrow> \<exists>x. get64 d off = Inr x"
  using Uint16_total Uint32_total Uint64_total
  by (simp_all add: get16_def get32_def get64_def go_slice_ok)

lemma get_short [go_eval]:
  "length d < off + 2 \<Longrightarrow> get16 d off = Inl SliceBounds"
  "length d < off + 4 \<Longrightarrow> get32 d off = Inl SliceBounds"
  "length d < off + 8 \<Longrightarrow> get64 d off = Inl SliceBounds"
  by (simp_all add: get16_def get32_def get64_def go_eval)

lemmas get_defs = get16_def get32_def get64_def go_slice_def

text \<open>The only way a field access fails is a buffer that is too short.\<close>

lemma get_faults:
  "get16 d off = Inl e \<Longrightarrow> e = SliceBounds"
  "get32 d off = Inl e \<Longrightarrow> e = SliceBounds"
  "get64 d off = Inl e \<Longrightarrow> e = SliceBounds"
  using get_ok get_short by (metis Inl_inject Inl_Inr_False linorder_not_le)+

text \<open>Reading a field at the place it was stored.\<close>

lemma get_stored [wire_eval]:
  "off = length pre \<Longrightarrow> get16 (pre @ PutUint16 v @ post) off = Inr v"
  "off = length pre \<Longrightarrow> get32 (pre @ PutUint32 w @ post) off = Inr w"
  "off = length pre \<Longrightarrow> get64 (pre @ PutUint64 x @ post) off = Inr x"
  by (simp_all add: get16_def get32_def get64_def go_eval)

text \<open>Storing a field back where it was read leaves the buffer as it is.\<close>

lemma store_read_back:
  "get16 d off = Inr v \<Longrightarrow> go_store off (PutUint16 v) d = Inr d"
  "get32 d off = Inr w \<Longrightarrow> go_store off (PutUint32 w) d = Inr d"
  "get64 d off = Inr x \<Longrightarrow> go_store off (PutUint64 x) d = Inr d"
proof -
  have "go_store off (PutUint16 v) d = Inr d" if "get16 d off = Inr v"
    using that Put_Uint16 by (fastforce simp: get16_def go_bind_eq_Inr dest: go_slice_length intro: go_store_same)
  moreover have "go_store off (PutUint32 w) d = Inr d" if "get32 d off = Inr w"
    using that Put_Uint32 by (fastforce simp: get32_def go_bind_eq_Inr dest: go_slice_length intro: go_store_same)
  moreover have "go_store off (PutUint64 x) d = Inr d" if "get64 d off = Inr x"
    using that Put_Uint64 by (fastforce simp: get64_def go_bind_eq_Inr dest: go_slice_length intro: go_store_same)
  ultimately show
    "get16 d off = Inr v \<Longrightarrow> go_store off (PutUint16 v) d = Inr d"
    "get32 d off = Inr w \<Longrightarrow> go_store off (PutUint32 w) d = Inr d"
    "get64 d off = Inr x \<Longrightarrow> go_store off (PutUint64 x) d = Inr d"
    by blast+
qed

section \<open>The codec interface\<close>

text \<open>
  What a transport may assume of a packet format: a buffer of the header's length always encodes
  and always decodes; decoding the bytes of an encoded packet, into whatever packet object the
  receiver allocated, gives back the encoded packet; and re-encoding a decoded packet leaves its
  bytes unchanged.
\<close>

locale wire_codec =
  fixes enc :: "'p \<Rightarrow> 'p go"
    and dec :: "'p \<Rightarrow> 'p go"
    and data :: "'p \<Rightarrow> byte list"
    and with_data :: "'p \<Rightarrow> byte list \<Rightarrow> 'p"
    and hlen :: nat
    and fresh :: 'p
  assumes fresh_len: "length (data fresh) = hlen"
    and data_with: "data (with_data r d) = d"
    and enc_ok: "length (data p) = hlen \<Longrightarrow> \<exists>q. enc p = Inr q"
    and enc_short: "length (data p) < hlen \<Longrightarrow> enc p = Inl SliceBounds"
    and enc_len: "enc p = Inr q \<Longrightarrow> length (data q) = length (data p)"
    and dec_ok: "length (data p) = hlen \<Longrightarrow> \<exists>q. dec p = Inr q"
    and dec_short: "length (data p) < hlen \<Longrightarrow> dec p = Inl SliceBounds"
    and dec_data: "dec p = Inr q \<Longrightarrow> data q = data p"
    and dec_enc: "length (data p) = hlen \<Longrightarrow> enc p = Inr q \<Longrightarrow> dec (with_data r (data q)) = Inr q"
    and enc_dec: "length (data p) = hlen \<Longrightarrow> dec p = Inr q \<Longrightarrow> enc q = Inr q"
begin

lemma wire_injective:
  assumes "length (data p) = hlen" "enc p = Inr q"
    and "length (data p') = hlen" "enc p' = Inr q'"
    and "data q = data q'"
  shows "q = q'"
proof -
  from assms(1,2) have "dec (with_data p (data q)) = Inr q" by (rule dec_enc)
  moreover from assms(3,4) have "dec (with_data p (data q')) = Inr q'" by (rule dec_enc)
  ultimately show ?thesis by (metis assms(5) sum.inject(2))
qed

lemma wire_surjective:
  assumes "length d = hlen"
  shows "\<exists>q. dec (with_data r d) = Inr q \<and> data q = d \<and> enc q = Inr q"
proof -
  from assms have len: "length (data (with_data r d)) = hlen" by (simp add: data_with)
  then obtain q where q: "dec (with_data r d) = Inr q" using dec_ok by blast
  moreover from q have "data q = d" by (auto dest: dec_data simp: data_with)
  moreover from len q have "enc q = Inr q" by (rule enc_dec)
  ultimately show ?thesis by blast
qed

lemma enc_idem: "length (data p) = hlen \<Longrightarrow> enc p = Inr q \<Longrightarrow> enc q = Inr q"
  using dec_enc [of p q] enc_dec [of "with_data p (data q)" q] enc_len [of p q]
  by (simp add: data_with)

end

section \<open>Handshake packet (\<^verbatim>\<open>controlplane_packets.go\<close>)\<close>

record QPartsHandshakePacket =
  hs_Flags :: u32
  hs_ConnId :: u64
  hs_Version :: u64
  hs_StartPortRange :: u16
  hs_EndPortRange :: u16
  hs_NumStreams :: u16
  hs_Data :: "byte list"

definition NewQPartsHandshakePacket :: QPartsHandshakePacket where
  "NewQPartsHandshakePacket =
     \<lparr>hs_Flags = 0, hs_ConnId = 0, hs_Version = 0, hs_StartPortRange = 0, hs_EndPortRange = 0,
      hs_NumStreams = 0, hs_Data = replicate 26 0\<rparr>"

definition hs_GetHeaderLen :: nat where
  "hs_GetHeaderLen = 26"

definition hs_Encode :: "QPartsHandshakePacket \<Rightarrow> QPartsHandshakePacket go" where
  "hs_Encode p =
     go_bind (go_store 0 (PutUint32 (hs_Flags p)) (hs_Data p)) (\<lambda>d.
     go_bind (go_store 4 (PutUint64 (hs_ConnId p)) d) (\<lambda>d.
     go_bind (go_store 12 (PutUint64 (hs_Version p)) d) (\<lambda>d.
     go_bind (go_store 20 (PutUint16 (hs_StartPortRange p)) d) (\<lambda>d.
     go_bind (go_store 22 (PutUint16 (hs_EndPortRange p)) d) (\<lambda>d.
     go_bind (go_store 24 (PutUint16 (hs_NumStreams p)) d) (\<lambda>d.
       Inr (p\<lparr>hs_Data := d\<rparr>)))))))"

definition hs_Decode :: "QPartsHandshakePacket \<Rightarrow> QPartsHandshakePacket go" where
  "hs_Decode p =
     go_bind (get32 (hs_Data p) 0) (\<lambda>flags.
     go_bind (get64 (hs_Data p) 4) (\<lambda>connId.
     go_bind (get64 (hs_Data p) 12) (\<lambda>version.
     go_bind (get16 (hs_Data p) 20) (\<lambda>start.
     go_bind (get16 (hs_Data p) 22) (\<lambda>endp.
     go_bind (get16 (hs_Data p) 24) (\<lambda>num.
       Inr (p\<lparr>hs_Flags := flags, hs_ConnId := connId, hs_Version := version,
              hs_StartPortRange := start, hs_EndPortRange := endp, hs_NumStreams := num\<rparr>)))))))"

definition hs_wire :: "QPartsHandshakePacket \<Rightarrow> byte list" where
  "hs_wire p = PutUint32 (hs_Flags p) @ PutUint64 (hs_ConnId p) @ PutUint64 (hs_Version p)
     @ PutUint16 (hs_StartPortRange p) @ PutUint16 (hs_EndPortRange p) @ PutUint16 (hs_NumStreams p)"

lemma hs_Encode_wire [wire_eval]:
  assumes "length (hs_Data p) = 26"
  shows "hs_Encode p = Inr (p\<lparr>hs_Data := hs_wire p\<rparr>)"
  using assms by (simp add: hs_Encode_def hs_wire_def go_store_def)

lemma hs_Decode_wire [wire_eval]:
  assumes "hs_Data r = hs_wire p"
  shows "hs_Decode r = Inr (p\<lparr>hs_Data := hs_wire p\<rparr>)"
  using assms by (simp add: hs_Decode_def hs_wire_def get_defs)

lemma hs_wire_length [simp]: "length (hs_wire p) = 26"
  by (simp add: hs_wire_def)

lemma hs_Encode_short: "length (hs_Data p) < 26 \<Longrightarrow> hs_Encode p = Inl SliceBounds"
  by (auto simp: hs_Encode_def go_store_def go_bind_def)

lemma hs_Decode_short: "length (hs_Data p) < 26 \<Longrightarrow> hs_Decode p = Inl SliceBounds"
  by (simp add: hs_Decode_def go_bind_def get_short split: sum.splits)
    (use get_faults in blast)

lemma hs_Decode_ok:
  assumes "length (hs_Data p) = 26"
  shows "\<exists>q. hs_Decode p = Inr q"
  unfolding hs_Decode_def
  by (rule go_bind_okI, rule get_ok, simp add: assms)+ simp

lemma hs_Encode_length: "hs_Encode p = Inr q \<Longrightarrow> length (hs_Data q) = length (hs_Data p)"
  by (auto simp: hs_Encode_def go_bind_eq_Inr dest!: go_store_length)

lemma hs_Decode_data: "hs_Decode p = Inr q \<Longrightarrow> hs_Data q = hs_Data p"
  by (auto simp: hs_Decode_def go_bind_eq_Inr)

lemma hs_Encode_Decode: "hs_Decode p = Inr q \<Longrightarrow> hs_Encode q = Inr q"
  by (auto simp: hs_Decode_def hs_Encode_def go_bind_eq_Inr store_read_back)

interpretation hs: wire_codec hs_Encode hs_Decode hs_Data "\<lambda>r d. r\<lparr>hs_Data := d\<rparr>" 26
  NewQPartsHandshakePacket
proof unfold_locales
  fix p q r
  assume "length (hs_Data p) = 26" "hs_Encode p = Inr q"
  then show "hs_Decode (r\<lparr>hs_Data := hs_Data q\<rparr>) = Inr q"
    by (auto simp: hs_Encode_wire intro!: hs_Decode_wire)
qed (auto simp: NewQPartsHandshakePacket_def hs_Encode_wire hs_Encode_short hs_Decode_ok
    hs_Decode_short intro: hs_Encode_Decode hs_Decode_data hs_Encode_length)

section \<open>Data plane header (\<^verbatim>\<open>dataplane_packets.go\<close>)\<close>

record QPartsDataplanePacket =
  dp_Flags :: u32
  dp_StreamId :: u64
  dp_SequenceId :: u64
  dp_SequenceSize :: u64
  dp_PartId :: u64
  dp_PartSize :: u64
  dp_NumParts :: u64
  dp_Data :: "byte list"

definition NewQPartsDataplanePacket :: QPartsDataplanePacket where
  "NewQPartsDataplanePacket =
     \<lparr>dp_Flags = 0, dp_StreamId = 0, dp_SequenceId = 0, dp_SequenceSize = 0, dp_PartId = 0,
      dp_PartSize = 0, dp_NumParts = 0, dp_Data = replicate 52 0\<rparr>"

definition dp_GetHeaderLen :: nat where
  "dp_GetHeaderLen = 52"

definition dp_Encode :: "QPartsDataplanePacket \<Rightarrow> QPartsDataplanePacket go" where
  "dp_Encode p =
     go_bind (go_store 0 (PutUint32 (dp_Flags p)) (dp_Data p)) (\<lambda>d.
     go_bind (go_store 4 (PutUint64 (dp_StreamId p)) d) (\<lambda>d.
     go_bind (go_store 12 (PutUint64 (dp_SequenceId p)) d) (\<lambda>d.
     go_bind (go_store 20 (PutUint64 (dp_SequenceSize p)) d) (\<lambda>d.
     go_bind (go_store 28 (PutUint64 (dp_PartId p)) d) (\<lambda>d.
     go_bind (go_store 36 (PutUint64 (dp_PartSize p)) d) (\<lambda>d.
     go_bind (go_store 44 (PutUint64 (dp_NumParts p)) d) (\<lambda>d.
       Inr (p\<lparr>dp_Data := d\<rparr>))))))))"

definition dp_Decode :: "QPartsDataplanePacket \<Rightarrow> QPartsDataplanePacket go" where
  "dp_Decode p =
     go_bind (get32 (dp_Data p) 0) (\<lambda>flags.
     go_bind (get64 (dp_Data p) 4) (\<lambda>streamId.
     go_bind (get64 (dp_Data p) 12) (\<lambda>sequenceId.
     go_bind (get64 (dp_Data p) 20) (\<lambda>sequenceSize.
     go_bind (get64 (dp_Data p) 28) (\<lambda>partId.
     go_bind (get64 (dp_Data p) 36) (\<lambda>partSize.
     go_bind (get64 (dp_Data p) 44) (\<lambda>numParts.
       Inr (p\<lparr>dp_Flags := flags, dp_StreamId := streamId, dp_SequenceId := sequenceId,
              dp_SequenceSize := sequenceSize, dp_PartId := partId, dp_PartSize := partSize,
              dp_NumParts := numParts\<rparr>))))))))"

definition dp_wire :: "QPartsDataplanePacket \<Rightarrow> byte list" where
  "dp_wire p = PutUint32 (dp_Flags p) @ PutUint64 (dp_StreamId p) @ PutUint64 (dp_SequenceId p)
     @ PutUint64 (dp_SequenceSize p) @ PutUint64 (dp_PartId p) @ PutUint64 (dp_PartSize p)
     @ PutUint64 (dp_NumParts p)"

lemma dp_wire_length [simp]: "length (dp_wire p) = 52"
  by (simp add: dp_wire_def)

lemma dp_Encode_wire [wire_eval]:
  "length (dp_Data p) = 52 \<Longrightarrow> dp_Encode p = Inr (p\<lparr>dp_Data := dp_wire p\<rparr>)"
  by (simp add: dp_Encode_def dp_wire_def go_store_def)

lemma dp_Decode_wire [wire_eval]:
  "dp_Data r = dp_wire p \<Longrightarrow> dp_Decode r = Inr (p\<lparr>dp_Data := dp_wire p\<rparr>)"
  by (simp add: dp_Decode_def dp_wire_def get_defs)

lemma dp_Encode_short: "length (dp_Data p) < 52 \<Longrightarrow> dp_Encode p = Inl SliceBounds"
  by (auto simp: dp_Encode_def go_store_def go_bind_def)

lemma dp_Decode_short: "length (dp_Data p) < 52 \<Longrightarrow> dp_Decode p = Inl SliceBounds"
  by (simp add: dp_Decode_def go_bind_def get_short split: sum.splits)
    (use get_faults in blast)

lemma dp_Decode_ok:
  assumes "length (dp_Data p) = 52"
  shows "\<exists>q. dp_Decode p = Inr q"
  unfolding dp_Decode_def
  by (rule go_bind_okI, rule get_ok, simp add: assms)+ simp

lemma dp_Encode_length: "dp_Encode p = Inr q \<Longrightarrow> length (dp_Data q) = length (dp_Data p)"
  by (auto simp: dp_Encode_def go_bind_eq_Inr dest!: go_store_length)

lemma dp_Decode_data: "dp_Decode p = Inr q \<Longrightarrow> dp_Data q = dp_Data p"
  by (auto simp: dp_Decode_def go_bind_eq_Inr)

lemma dp_Encode_Decode: "dp_Decode p = Inr q \<Longrightarrow> dp_Encode q = Inr q"
  by (auto simp: dp_Decode_def dp_Encode_def go_bind_eq_Inr store_read_back)

interpretation dp: wire_codec dp_Encode dp_Decode dp_Data "\<lambda>r d. r\<lparr>dp_Data := d\<rparr>" 52
  NewQPartsDataplanePacket
proof unfold_locales
  fix p q r
  assume "length (dp_Data p) = 52" "dp_Encode p = Inr q"
  then show "dp_Decode (r\<lparr>dp_Data := dp_Data q\<rparr>) = Inr q"
    by (auto simp: dp_Encode_wire intro!: dp_Decode_wire)
qed (auto simp: NewQPartsDataplanePacket_def dp_Encode_wire dp_Encode_short dp_Decode_ok
    dp_Decode_short intro: dp_Encode_Decode dp_Decode_data dp_Encode_length)

section \<open>New-stream packet (\<^verbatim>\<open>dataplane_packets.go\<close>)\<close>

record QPartsNewStreamPacket =
  ns_Flags :: u32
  ns_StreamId :: u64
  ns_StreamProperty :: u32
  ns_Data :: "byte list"

definition NewQPartsNewStreamPacket :: QPartsNewStreamPacket where
  "NewQPartsNewStreamPacket =
     \<lparr>ns_Flags = 0, ns_StreamId = 0, ns_StreamProperty = 0, ns_Data = replicate 16 0\<rparr>"

definition ns_GetHeaderLen :: nat where
  "ns_GetHeaderLen = 16"

definition ns_Encode :: "QPartsNewStreamPacket \<Rightarrow> QPartsNewStreamPacket go" where
  "ns_Encode p =
     go_bind (go_store 0 (PutUint32 (ns_Flags p)) (ns_Data p)) (\<lambda>d.
     go_bind (go_store 4 (PutUint64 (ns_StreamId p)) d) (\<lambda>d.
     go_bind (go_store 12 (PutUint32 (ns_StreamProperty p)) d) (\<lambda>d.
       Inr (p\<lparr>ns_Data := d\<rparr>))))"

definition ns_Decode :: "QPartsNewStreamPacket \<Rightarrow> QPartsNewStreamPacket go" where
  "ns_Decode p =
     go_bind (get32 (ns_Data p) 0) (\<lambda>flags.
     go_bind (get64 (ns_Data p) 4) (\<lambda>streamId.
     go_bind (get32 (ns_Data p) 12) (\<lambda>property.
       Inr (p\<lparr>ns_Flags := flags, ns_StreamId := streamId, ns_StreamProperty := property\<rparr>))))"

definition ns_wire :: "QPartsNewStreamPacket \<Rightarrow> byte list" where
  "ns_wire p = PutUint32 (ns_Flags p) @ PutUint64 (ns_StreamId p) @ PutUint32 (ns_StreamProperty p)"

lemma ns_wire_length [simp]: "length (ns_wire p) = 16"
  by (simp add: ns_wire_def)

lemma ns_Encode_wire [wire_eval]:
  "length (ns_Data p) = 16 \<Longrightarrow> ns_Encode p = Inr (p\<lparr>ns_Data := ns_wire p\<rparr>)"
  by (simp add: ns_Encode_def ns_wire_def go_store_def)

lemma ns_Decode_wire [wire_eval]:
  "ns_Data r = ns_wire p \<Longrightarrow> ns_Decode r = Inr (p\<lparr>ns_Data := ns_wire p\<rparr>)"
  by (simp add: ns_Decode_def ns_wire_def get_defs)

lemma ns_Encode_short: "length (ns_Data p) < 16 \<Longrightarrow> ns_Encode p = Inl SliceBounds"
  by (auto simp: ns_Encode_def go_store_def go_bind_def)

lemma ns_Decode_short: "length (ns_Data p) < 16 \<Longrightarrow> ns_Decode p = Inl SliceBounds"
  by (simp add: ns_Decode_def go_bind_def get_short split: sum.splits)
    (use get_faults in blast)

lemma ns_Decode_ok:
  assumes "length (ns_Data p) = 16"
  shows "\<exists>q. ns_Decode p = Inr q"
  unfolding ns_Decode_def
  by (rule go_bind_okI, rule get_ok, simp add: assms)+ simp

lemma ns_Encode_length: "ns_Encode p = Inr q \<Longrightarrow> length (ns_Data q) = length (ns_Data p)"
  by (auto simp: ns_Encode_def go_bind_eq_Inr dest!: go_store_length)

lemma ns_Decode_data: "ns_Decode p = Inr q \<Longrightarrow> ns_Data q = ns_Data p"
  by (auto simp: ns_Decode_def go_bind_eq_Inr)

lemma ns_Encode_Decode: "ns_Decode p = Inr q \<Longrightarrow> ns_Encode q = Inr q"
  by (auto simp: ns_Decode_def ns_Encode_def go_bind_eq_Inr store_read_back)

interpretation ns: wire_codec ns_Encode ns_Decode ns_Data "\<lambda>r d. r\<lparr>ns_Data := d\<rparr>" 16
  NewQPartsNewStreamPacket
proof unfold_locales
  fix p q r
  assume "length (ns_Data p) = 16" "ns_Encode p = Inr q"
  then show "ns_Decode (r\<lparr>ns_Data := ns_Data q\<rparr>) = Inr q"
    by (auto simp: ns_Encode_wire intro!: ns_Decode_wire)
qed (auto simp: NewQPartsNewStreamPacket_def ns_Encode_wire ns_Encode_short ns_Decode_ok
    ns_Decode_short intro: ns_Encode_Decode ns_Decode_data ns_Encode_length)

section \<open>Properties\<close>

text \<open>C13: A data packet header survives the wire: encoding a packet with a 52-byte buffer succeeds and
  writes flags, stream, sequence, sequence size, part, part size and number of parts in big-endian
  order; decoding these bytes into any packet object gives back every field.\<close>

theorem dataplane_packet_roundtrip:
  assumes "length (dp_Data p) = 52"
  shows "\<exists>q. dp_Encode p = Inr q
     \<and> dp_Data q = PutUint32 (dp_Flags p) @ PutUint64 (dp_StreamId p) @ PutUint64 (dp_SequenceId p)
         @ PutUint64 (dp_SequenceSize p) @ PutUint64 (dp_PartId p) @ PutUint64 (dp_PartSize p)
         @ PutUint64 (dp_NumParts p)
     \<and> (\<forall>r. dp_Decode (r\<lparr>dp_Data := dp_Data q\<rparr>) = Inr (p\<lparr>dp_Data := dp_Data q\<rparr>))"
  using assms dp_Decode_wire by (simp add: dp_Encode_wire dp_wire_def)

theorem dataplane_packet_roundtrip_witness:
  "\<exists>q. dp_Encode (NewQPartsDataplanePacket\<lparr>dp_PartId := 258\<rparr>) = Inr q
     \<and> take 8 (drop 28 (dp_Data q)) = [0, 0, 0, 0, 0, 0, 1, 2]"
proof -
  let ?p = "NewQPartsDataplanePacket\<lparr>dp_PartId := 258\<rparr>"
  have "length (dp_Data ?p) = 52" by (simp add: NewQPartsDataplanePacket_def)
  moreover have "PutUint64 258 = [0, 0, 0, 0, 0, 0, 1, 2]" by code_simp
  ultimately show ?thesis using dataplane_packet_roundtrip [of ?p] by auto
qed

text \<open>The data packet header is a bijection between packets and 52-byte strings: every 52-byte
  string decodes to a packet that encodes to the same string, two packets with the same bytes agree
  in every field, and on a shorter buffer both directions panic.\<close>

theorem dataplane_packet_bijective:
  "(\<forall>r d. length d = 52 \<longrightarrow>
      (\<exists>q. dp_Decode (r\<lparr>dp_Data := d\<rparr>) = Inr q \<and> dp_Data q = d \<and> dp_Encode q = Inr q))
   \<and> (\<forall>p p' q q'. length (dp_Data p) = 52 \<and> length (dp_Data p') = 52 \<and> dp_Encode p = Inr q
        \<and> dp_Encode p' = Inr q' \<and> dp_Data q = dp_Data q' \<longrightarrow> q = q')
   \<and> (\<forall>p. length (dp_Data p) < 52 \<longrightarrow> dp_Decode p = Inl SliceBounds \<and> dp_Encode p = Inl SliceBounds)"
proof (intro conjI)
  show "\<forall>r d. length d = 52 \<longrightarrow>
      (\<exists>q. dp_Decode (r\<lparr>dp_Data := d\<rparr>) = Inr q \<and> dp_Data q = d \<and> dp_Encode q = Inr q)"
    using dp.wire_surjective by simp
  show "\<forall>p p' q q'. length (dp_Data p) = 52 \<and> length (dp_Data p') = 52 \<and> dp_Encode p = Inr q
        \<and> dp_Encode p' = Inr q' \<and> dp_Data q = dp_Data q' \<longrightarrow> q = q'"
    using dp.wire_injective by metis
qed (simp add: dp_Encode_short dp_Decode_short)

theorem dataplane_packet_bijective_witness:
  "(\<exists>q. dp_Decode (NewQPartsDataplanePacket\<lparr>dp_Data := replicate 52 9\<rparr>) = Inr q
       \<and> dp_Data q = replicate 52 9 \<and> dp_Encode q = Inr q)
     \<and> dp_Decode (NewQPartsDataplanePacket\<lparr>dp_Data := [1, 2]\<rparr>) = Inl SliceBounds"
proof
  show "\<exists>q. dp_Decode (NewQPartsDataplanePacket\<lparr>dp_Data := replicate 52 9\<rparr>) = Inr q
       \<and> dp_Data q = replicate 52 9 \<and> dp_Encode q = Inr q"
    using conjunct1 [OF dataplane_packet_bijective] length_replicate [of 52 9] by simp
  have "length (dp_Data (NewQPartsDataplanePacket\<lparr>dp_Data := [1, 2]\<rparr>)) < 52" by simp
  with conjunct2 [OF conjunct2 [OF dataplane_packet_bijective]]
  show "dp_Decode (NewQPartsDataplanePacket\<lparr>dp_Data := [1, 2]\<rparr>) = Inl SliceBounds" by blast
qed

text \<open>The handshake survives the wire: a packet with a 26-byte buffer encodes to connection id,
  version, port range and number of streams in big-endian order after the flags, and decoding these
  bytes into any packet object gives back every field; a shorter buffer panics.\<close>

theorem handshake_packet_roundtrip:
  assumes "length (hs_Data p) = 26"
  shows "\<exists>q. hs_Encode p = Inr q
     \<and> hs_Data q = PutUint32 (hs_Flags p) @ PutUint64 (hs_ConnId p) @ PutUint64 (hs_Version p)
         @ PutUint16 (hs_StartPortRange p) @ PutUint16 (hs_EndPortRange p) @ PutUint16 (hs_NumStreams p)
     \<and> (\<forall>r. hs_Decode (r\<lparr>hs_Data := hs_Data q\<rparr>) = Inr (p\<lparr>hs_Data := hs_Data q\<rparr>))
     \<and> (\<forall>r d. length d < 26 \<longrightarrow> hs_Decode (r\<lparr>hs_Data := d\<rparr>) = Inl SliceBounds)"
  using assms hs_Decode_wire hs_Decode_short by (simp add: hs_Encode_wire hs_wire_def)

theorem handshake_packet_roundtrip_witness:
  "\<exists>q. hs_Encode (NewQPartsHandshakePacket\<lparr>hs_NumStreams := 3\<rparr>) = Inr q
     \<and> hs_Decode (NewQPartsHandshakePacket\<lparr>hs_Data := hs_Data q\<rparr>)
         = Inr (NewQPartsHandshakePacket\<lparr>hs_NumStreams := 3, hs_Data := hs_Data q\<rparr>)"
proof -
  have "length (hs_Data (NewQPartsHandshakePacket\<lparr>hs_NumStreams := 3\<rparr>)) = 26"
    by (simp add: NewQPartsHandshakePacket_def)
  from handshake_packet_roundtrip [OF this] show ?thesis by auto
qed

text \<open>The new-stream packet survives the wire: a packet with a 16-byte buffer encodes flags,
  stream id and stream property in big-endian order, and decoding these bytes into any packet object
  gives back every field; a shorter buffer panics.\<close>

theorem newstream_packet_roundtrip:
  assumes "length (ns_Data p) = 16"
  shows "\<exists>q. ns_Encode p = Inr q
     \<and> ns_Data q = PutUint32 (ns_Flags p) @ PutUint64 (ns_StreamId p) @ PutUint32 (ns_StreamProperty p)
     \<and> (\<forall>r. ns_Decode (r\<lparr>ns_Data := ns_Data q\<rparr>) = Inr (p\<lparr>ns_Data := ns_Data q\<rparr>))
     \<and> (\<forall>r d. length d < 16 \<longrightarrow> ns_Decode (r\<lparr>ns_Data := d\<rparr>) = Inl SliceBounds)"
  using assms ns_Decode_wire ns_Decode_short by (simp add: ns_Encode_wire ns_wire_def)

theorem newstream_packet_roundtrip_witness:
  "\<exists>q. ns_Encode (NewQPartsNewStreamPacket\<lparr>ns_StreamId := 5\<rparr>) = Inr q
     \<and> ns_Decode (NewQPartsNewStreamPacket\<lparr>ns_Data := ns_Data q\<rparr>)
         = Inr (NewQPartsNewStreamPacket\<lparr>ns_StreamId := 5, ns_Data := ns_Data q\<rparr>)"
proof -
  have "length (ns_Data (NewQPartsNewStreamPacket\<lparr>ns_StreamId := 5\<rparr>)) = 16"
    by (simp add: NewQPartsNewStreamPacket_def)
  from newstream_packet_roundtrip [OF this] show ?thesis by auto
qed

end
