(* ===== verification/Buffers.thy ===== *)
theory Buffers
  imports Prelude
begin

text \<open>
  The two blocking buffers of \<^verbatim>\<open>pkg/qpnet\<close>: \<^verbatim>\<open>Queue[T]\<close> (\<^verbatim>\<open>queue.go\<close>), the FIFO between
  \<^verbatim>\<open>WriteForStream\<close> and a write loop, and \<^verbatim>\<open>PacketBuffer\<close> (\<^verbatim>\<open>packet_buf.go\<close>), the receive
  buffer of a stream.  A call that would wait on the condition variable has the result \<open>None\<close>;
  the wait itself, with \<^verbatim>\<open>Signal\<close> and the re-check of the loop, is the step relation
  \<open>queue_step\<close>.  The contracts are the locales \<open>blocking_fifo\<close> and \<open>byte_buffer\<close>.
\<close>

section \<open>Contracts\<close>

datatype 'a fifo_op = AddOp 'a | GetOp

fun added :: "'a fifo_op list \<Rightarrow> 'a list" where
  "added [] = []"
| "added (AddOp x # ops) = x # added ops"
| "added (GetOp # ops) = added ops"

text \<open>A run of operations; a \<^verbatim>\<open>Get\<close> that would wait yields nothing.\<close>

fun run_fifo :: "('q \<Rightarrow> 'a \<Rightarrow> 'q) \<Rightarrow> ('q \<Rightarrow> ('a \<times> 'q) option) \<Rightarrow> 'q \<Rightarrow> 'a fifo_op list \<Rightarrow> 'a list \<times> 'q" where
  "run_fifo add get q [] = ([], q)"
| "run_fifo add get q (AddOp x # ops) = run_fifo add get (add q x) ops"
| "run_fifo add get q (GetOp # ops) =
     (case get q of
        None \<Rightarrow> run_fifo add get q ops
      | Some (x, q') \<Rightarrow> (let (xs, q'') = run_fifo add get q' ops in (x # xs, q'')))"

locale blocking_fifo =
  fixes new :: 'q
    and add :: "'q \<Rightarrow> 'a \<Rightarrow> 'q"
    and get :: "'q \<Rightarrow> ('a \<times> 'q) option"
    and contents :: "'q \<Rightarrow> 'a list"
  assumes contents_new: "contents new = []"
    and contents_add: "contents (add q x) = contents q @ [x]"
    and get_waits: "get q = None \<longleftrightarrow> contents q = []"
    and get_first: "get q = Some (x, q') \<Longrightarrow> contents q = x # contents q'"
begin

lemma run_contents:
  "run_fifo add get q ops = (xs, q') \<Longrightarrow> xs @ contents q' = contents q @ added ops"
proof (induction ops arbitrary: q xs)
  case (Cons op ops)
  show ?case
  proof (cases op)
    case GetOp
    with Cons show ?thesis
      by (cases "get q") (auto split: prod.splits dest: get_first)
  qed (use Cons in \<open>auto simp: contents_add\<close>)
qed simp

lemma run_fifo_order: "run_fifo add get new ops = (xs, q') \<Longrightarrow> xs @ contents q' = added ops"
  using run_contents [of new ops xs q'] by (simp add: contents_new)

lemma get_total: "contents q \<noteq> [] \<Longrightarrow> \<exists>q'. get q = Some (hd (contents q), q') \<and> contents q' = tl (contents q)"
  using get_waits [of q] by (cases "get q") (auto dest: get_first)

end

text \<open>The contract of a byte buffer: reads return what was appended, in order, without gaps.\<close>

datatype buf_op = AppendOp "byte list" | ReadOp nat

fun appended :: "buf_op list \<Rightarrow> byte list" where
  "appended [] = []"
| "appended (AppendOp d # ops) = d @ appended ops"
| "appended (ReadOp n # ops) = appended ops"

fun run_buffer ::
  "('b \<Rightarrow> byte list \<Rightarrow> 'b) \<Rightarrow> ('b \<Rightarrow> nat \<Rightarrow> (byte list \<times> 'b) option) \<Rightarrow> 'b \<Rightarrow> buf_op list \<Rightarrow> byte list \<times> 'b" where
  "run_buffer app rd b [] = ([], b)"
| "run_buffer app rd b (AppendOp d # ops) = run_buffer app rd (app b d) ops"
| "run_buffer app rd b (ReadOp n # ops) =
     (case rd b n of
        None \<Rightarrow> run_buffer app rd b ops
      | Some (d, b') \<Rightarrow> (let (ds, b'') = run_buffer app rd b' ops in (d @ ds, b'')))"

locale byte_buffer =
  fixes new :: 'b
    and app :: "'b \<Rightarrow> byte list \<Rightarrow> 'b"
    and rd :: "'b \<Rightarrow> nat \<Rightarrow> (byte list \<times> 'b) option"
    and bytes :: "'b \<Rightarrow> byte list"
  assumes bytes_new: "bytes new = []"
    and bytes_app: "bytes (app b d) = bytes b @ d"
    and rd_waits: "rd b n = None \<longleftrightarrow> bytes b = []"
    and rd_prefix: "rd b n = Some (d, b') \<Longrightarrow> d = take n (bytes b) \<and> bytes b' = drop n (bytes b)"
begin

lemma run_bytes: "run_buffer app rd b ops = (ds, b') \<Longrightarrow> ds @ bytes b' = bytes b @ appended ops"
proof (induction ops arbitrary: b ds)
  case (Cons op ops)
  show ?case
  proof (cases op)
    case (ReadOp n)
    with Cons show ?thesis
      by (cases "rd b n") (auto split: prod.splits dest: rd_prefix)
  qed (use Cons in \<open>auto simp: bytes_app\<close>)
qed simp

lemma rd_exact: "bytes b \<noteq> [] \<Longrightarrow> \<exists>b'. rd b n = Some (take n (bytes b), b') \<and> bytes b' = drop n (bytes b)"
  using rd_waits [of b n] by (cases "rd b n") (auto dest: rd_prefix)

end

text \<open>Read one byte at a time and a byte buffer is a FIFO of bytes.\<close>

sublocale byte_buffer \<subseteq> bytewise: blocking_fifo new "\<lambda>b x. app b [x]"
  "\<lambda>b. map_option (\<lambda>(d, b'). (hd d, b')) (rd b 1)" bytes
proof unfold_locales
  fix b x b'
  assume "map_option (\<lambda>(d, b'). (hd d, b')) (rd b 1) = Some (x, b')"
  then obtain d where d: "rd b 1 = Some (d, b')" "x = hd d" by (auto split: prod.splits)
  then have "bytes b \<noteq> []" "d = take 1 (bytes b)" "bytes b' = drop 1 (bytes b)"
    using rd_prefix [OF d(1)] rd_waits [of b 1] by auto
  then show "bytes b = x # bytes b'"
    using d(2) by (cases "bytes b") auto
qed (auto simp: bytes_new bytes_app rd_waits)

section \<open>\<^verbatim>\<open>Queue[T]\<close> (\<^verbatim>\<open>pkg/qpnet/queue.go\<close>)\<close>

record 'a Queue =
  entries :: "'a list"

definition NewQueue :: "'a Queue" where
  "NewQueue = \<lparr>entries = []\<rparr>"

definition Queue_Add :: "'a Queue \<Rightarrow> 'a \<Rightarrow> 'a Queue" where
  "Queue_Add q item = q\<lparr>entries := entries q @ [item]\<rparr>"

definition Queue_Get :: "'a Queue \<Rightarrow> ('a \<times> 'a Queue) option" where
  "Queue_Get q =
     (case entries q of
        [] \<Rightarrow> None
      | item # rest \<Rightarrow> Some (item, q\<lparr>entries := rest\<rparr>))"

interpretation queue: blocking_fifo NewQueue Queue_Add Queue_Get entries
  by unfold_locales (auto simp: NewQueue_def Queue_Add_def Queue_Get_def split: list.splits)

subsection \<open>Waiting and waking\<close>

text \<open>
  Any number of goroutines call \<^verbatim>\<open>Get\<close>.  \<open>qs_running\<close> counts those that hold or will next
  take the mutex in the loop of \<^verbatim>\<open>Get\<close>, \<open>qs_waiting\<close> those suspended in \<^verbatim>\<open>cond.Wait\<close>.
  \<^verbatim>\<open>Add\<close> appends and signals one waiter, which then re-checks the queue.  \<open>qs_added\<close> and
  \<open>qs_got\<close> record the history.
\<close>

record 'a qsys =
  qs_queue :: "'a Queue"
  qs_waiting :: nat
  qs_running :: nat
  qs_added :: "'a list"
  qs_got :: "'a list"

definition qsys_init :: "'a qsys" where
  "qsys_init = \<lparr>qs_queue = NewQueue, qs_waiting = 0, qs_running = 0, qs_added = [], qs_got = []\<rparr>"

inductive queue_step :: "'a qsys \<Rightarrow> 'a qsys \<Rightarrow> bool" where
  call_get: "queue_step s (s\<lparr>qs_running := qs_running s + 1\<rparr>)"
| add_signal: "queue_step s
     (s\<lparr>qs_queue := Queue_Add (qs_queue s) x, qs_added := qs_added s @ [x],
        qs_waiting := qs_waiting s - 1, qs_running := qs_running s + min 1 (qs_waiting s)\<rparr>)"
| wait: "qs_running s = Suc r \<Longrightarrow> Queue_Get (qs_queue s) = None \<Longrightarrow>
     queue_step s (s\<lparr>qs_running := r, qs_waiting := qs_waiting s + 1\<rparr>)"
| take_first: "qs_running s = Suc r \<Longrightarrow> Queue_Get (qs_queue s) = Some (x, q') \<Longrightarrow>
     queue_step s (s\<lparr>qs_running := r, qs_queue := q', qs_got := qs_got s @ [x]\<rparr>)"

inductive queue_reachable :: "'a qsys \<Rightarrow> bool" where
  init: "queue_reachable qsys_init"
| step: "queue_reachable s \<Longrightarrow> queue_step s t \<Longrightarrow> queue_reachable t"

definition queue_inv :: "'a qsys \<Rightarrow> bool" where
  "queue_inv s \<longleftrightarrow> qs_got s @ entries (qs_queue s) = qs_added s
     \<and> (qs_waiting s = 0 \<or> length (entries (qs_queue s)) \<le> qs_running s)"

lemma queue_step_inv: "queue_step s t \<Longrightarrow> queue_inv s \<Longrightarrow> queue_inv t"
proof (induction rule: queue_step.induct)
  case (take_first s r x q')
  then show ?case using queue.get_first [OF take_first(2)] by (auto simp: queue_inv_def)
next
  case (wait s r)
  then show ?case by (simp add: queue_inv_def queue.get_waits)
next
  case (add_signal s x)
  then show ?case by (auto simp: queue_inv_def queue.contents_add)
qed (auto simp: queue_inv_def)

lemma queue_reachable_inv: "queue_reachable s \<Longrightarrow> queue_inv s"
proof (induction rule: queue_reachable.induct)
  case init
  show ?case by (simp add: queue_inv_def qsys_init_def NewQueue_def)
next
  case (step s t)
  then show ?case by (blast intro: queue_step_inv)
qed

section \<open>\<^verbatim>\<open>PacketBuffer\<close> (\<^verbatim>\<open>pkg/qpnet/packet_buf.go\<close>)\<close>

record PacketBuffer =
  pb_buffer :: "byte list"

definition NewPacketBuffer :: PacketBuffer where
  "NewPacketBuffer = \<lparr>pb_buffer = []\<rparr>"

definition pb_Append :: "PacketBuffer \<Rightarrow> byte list \<Rightarrow> PacketBuffer" where
  "pb_Append pb d = pb\<lparr>pb_buffer := pb_buffer pb @ d\<rparr>"

definition pb_Read :: "PacketBuffer \<Rightarrow> nat \<Rightarrow> (byte list \<times> PacketBuffer) option" where
  "pb_Read pb n =
     (if length (pb_buffer pb) = 0 then None
      else let n = (if n > length (pb_buffer pb) then length (pb_buffer pb) else n)
           in Some (take n (pb_buffer pb), pb\<lparr>pb_buffer := drop n (pb_buffer pb)\<rparr>))"

definition pb_Size :: "PacketBuffer \<Rightarrow> nat" where
  "pb_Size pb = length (pb_buffer pb)"

interpretation packet_buffer: byte_buffer NewPacketBuffer pb_Append pb_Read pb_buffer
  by unfold_locales (auto simp: NewPacketBuffer_def pb_Append_def pb_Read_def Let_def
      split: if_splits)

section \<open>Properties\<close>

text \<open>C8: The queue neither loses, duplicates nor reorders an assignment, whatever the interleaving of
  \<^verbatim>\<open>Add\<close> and of any number of concurrent \<^verbatim>\<open>Get\<close> calls, and no wake-up is lost: while a call is
  suspended, every queued item has a running call that will take it.\<close>

theorem queue_no_lost_wakeup:
  assumes "queue_reachable s"
  shows "qs_got s @ entries (qs_queue s) = qs_added s
     \<and> (0 < qs_waiting s \<longrightarrow> length (entries (qs_queue s)) \<le> qs_running s)"
  using queue_reachable_inv [OF assms] by (auto simp: queue_inv_def)

theorem queue_no_lost_wakeup_witness:
  "\<exists>s :: nat qsys. queue_reachable s \<and> qs_waiting s = 1 \<and> qs_running s = 1 \<and> entries (qs_queue s) = [7]
     \<and> qs_got s @ [7] = qs_added s"
proof -
  let ?s = "\<lambda>q w r. \<lparr>qs_queue = q, qs_waiting = w, qs_running = r, qs_added = entries q, qs_got = []\<rparr> :: nat qsys"
  have c1: "queue_step (?s NewQueue 0 0) (?s NewQueue 0 1)" and c2: "queue_step (?s NewQueue 0 1) (?s NewQueue 0 2)"
    using call_get [of "?s NewQueue 0 0"] call_get [of "?s NewQueue 0 1"] by (simp_all add: numeral_2_eq_2)
  have w1: "queue_step (?s NewQueue 0 2) (?s NewQueue 1 1)" and w2: "queue_step (?s NewQueue 1 1) (?s NewQueue 2 0)"
    using wait [of "?s NewQueue 0 2" 1] wait [of "?s NewQueue 1 1" 0]
    by (simp_all add: Queue_Get_def NewQueue_def numeral_2_eq_2)
  have a: "queue_step (?s NewQueue 2 0) (?s \<lparr>entries = [7]\<rparr> 1 1)"
    using add_signal [of "?s NewQueue 2 0" 7] by (simp add: Queue_Add_def NewQueue_def)
  have "queue_reachable (?s NewQueue 0 0)" using init by (simp add: qsys_init_def NewQueue_def)
  then have "queue_reachable (?s \<lparr>entries = [7]\<rparr> 1 1)"
    by (rule step [OF step [OF step [OF step [OF step [OF _ c1] c2] w1] w2] a])
  from this queue_no_lost_wakeup [OF this] show ?thesis by (intro exI [of _ "?s \<lparr>entries = [7]\<rparr> 1 1"]) simp
qed

text \<open>The receive buffer is a byte stream: over any sequence of \<^verbatim>\<open>Append\<close> and \<^verbatim>\<open>Read\<close> calls the
  bytes read, followed by the bytes still buffered, are exactly the bytes appended, in order; a read
  of \<open>n\<close> bytes waits only when nothing is buffered and otherwise returns as many as there are, up to
  \<open>n\<close>.\<close>

theorem packet_buffer_stream:
  "(case run_buffer pb_Append pb_Read NewPacketBuffer ops of (ds, b) \<Rightarrow> ds @ pb_buffer b = appended ops)
   \<and> (pb_Read b n = None \<longleftrightarrow> pb_buffer b = [])
   \<and> (pb_buffer b \<noteq> [] \<longrightarrow> (\<exists>b'. pb_Read b n = Some (take n (pb_buffer b), b') \<and> pb_buffer b' = drop n (pb_buffer b)))"
  using packet_buffer.run_bytes [of NewPacketBuffer ops] packet_buffer.rd_waits [of b n]
    packet_buffer.rd_exact [of b n] by (auto simp: NewPacketBuffer_def split: prod.split)

theorem packet_buffer_stream_witness:
  "pb_Read \<lparr>pb_buffer = [1, 2, 3]\<rparr> 2 = Some ([1, 2], \<lparr>pb_buffer = [3]\<rparr>)"
  using packet_buffer_stream [of "[]" "\<lparr>pb_buffer = [1, 2, 3]\<rparr>" 2] by (auto simp: numeral_2_eq_2)

end
