(* ===== verification/QuicConn.thy ===== *)
theory QuicConn
  imports Prelude
begin

text \<open>
  \<^verbatim>\<open>pkg/qpnet/single_stream_quic_conn.go\<close> and \<^verbatim>\<open>pkg/qpnet/silence.go\<close>.  The QUIC stream is
  third-party: its \<^verbatim>\<open>Read\<close> and \<^verbatim>\<open>Write\<close> are the arguments \<open>rd\<close> and \<open>wr\<close>, functions of the
  stream's state (\<open>None\<close>: the call never returns).  \<^verbatim>\<open>ReadAll\<close> and \<^verbatim>\<open>WriteAll\<close> are the loops
  of \<^verbatim>\<open>io.ReadFull\<close> and \<^verbatim>\<open>io.CopyN\<close> over them.
\<close>

type_synonym 's qread = "'s \<Rightarrow> nat \<Rightarrow> (byte list \<times> io_err option \<times> 's) option"
type_synonym 's qwrite = "'s \<Rightarrow> byte list \<Rightarrow> (nat \<times> io_err option \<times> 's) option"

section \<open>\<^verbatim>\<open>ReadAll\<close>\<close>

text \<open>The loop of \<^verbatim>\<open>io.ReadAtLeast(r, buf, len(buf))\<close>: \<open>got\<close> is \<^verbatim>\<open>buf[:n]\<close>.\<close>

partial_function (option) read_at_least ::
  "'s qread \<Rightarrow> 's \<Rightarrow> nat \<Rightarrow> byte list \<Rightarrow> (byte list \<times> io_err option \<times> 's) option" where
  "read_at_least rd s want got =
     (if length got < want then
        (case rd s (want - length got) of
           None \<Rightarrow> None
         | Some (bs, err, s') \<Rightarrow>
             (case err of
                None \<Rightarrow> read_at_least rd s' want (got @ bs)
              | Some e \<Rightarrow> Some (got @ bs, Some e, s')))
      else Some (got, None, s))"

definition ReadAll :: "'s qread \<Rightarrow> 's \<Rightarrow> nat \<Rightarrow> (byte list \<times> io_err option \<times> 's) option" where
  "ReadAll rd s n =
     (case read_at_least rd s n [] of
        None \<Rightarrow> None
      | Some (got, err, s') \<Rightarrow>
          Some (got,
            (if n \<le> length got then None
             else if got \<noteq> [] \<and> err = Some EOF then Some UnexpectedEOF else err), s'))"

text \<open>
  The documented behaviour of a stream whose peer has sent the bytes \<open>pend s\<close>: as long as some are
  pending, a read into a non-empty buffer returns a non-empty prefix of them.
\<close>

definition stream_delivers :: "'s qread \<Rightarrow> ('s \<Rightarrow> byte list) \<Rightarrow> bool" where
  "stream_delivers rd pend \<longleftrightarrow>
     (\<forall>s n. 0 < n \<and> pend s \<noteq> [] \<longrightarrow>
        (\<exists>k s'. 0 < k \<and> k \<le> n \<and> k \<le> length (pend s)
           \<and> rd s n = Some (take k (pend s), None, s') \<and> pend s' = drop k (pend s)))"

lemma stream_deliversE:
  assumes "stream_delivers rd pend" "0 < n" "pend s \<noteq> []"
  obtains k s' where "0 < k" "k \<le> n" "k \<le> length (pend s)"
    "rd s n = Some (take k (pend s), None, s')" "pend s' = drop k (pend s)"
  using assms unfolding stream_delivers_def by blast

lemma read_at_least_delivers:
  assumes "stream_delivers rd pend" "length got \<le> n" "n - length got \<le> length (pend s)"
  shows "\<exists>s'. read_at_least rd s n got = Some (got @ take (n - length got) (pend s), None, s')
     \<and> pend s' = drop (n - length got) (pend s)"
  using assms(2,3)
proof (induction "n - length got" arbitrary: got s rule: less_induct)
  case less
  show ?case
  proof (cases "length got < n")
    case True
    with less.prems have "0 < n - length got" "pend s \<noteq> []" by auto
    with assms(1) obtain k s' where k: "0 < k" "k \<le> n - length got" "k \<le> length (pend s)"
      and r: "rd s (n - length got) = Some (take k (pend s), None, s')"
      and p: "pend s' = drop k (pend s)"
      by (rule stream_deliversE)
    let ?got = "got @ take k (pend s)"
    have len: "length ?got = length got + k" using k by simp
    have "\<exists>s''. read_at_least rd s' n ?got = Some (?got @ take (n - length ?got) (pend s'), None, s'')
       \<and> pend s'' = drop (n - length ?got) (pend s')"
      using k True less.prems p by (intro less.hyps) auto
    moreover have "take k (pend s) @ take (n - length ?got) (pend s') = take (n - length got) (pend s)"
      using k p len by (simp add: take_add [symmetric])
    moreover have "drop (n - length ?got) (pend s') = drop (n - length got) (pend s)"
      using k p len by simp
    ultimately show ?thesis
      using True r by (subst read_at_least.simps) simp
  next
    case False
    with less.prems show ?thesis by (subst read_at_least.simps) simp
  qed
qed

text \<open>Enough pending bytes: \<^verbatim>\<open>ReadAll\<close> returns, fills its buffer exactly, and consumes no more.\<close>

lemma ReadAll_delivers:
  assumes "stream_delivers rd pend" "n \<le> length (pend s)"
  shows "\<exists>s'. ReadAll rd s n = Some (take n (pend s), None, s') \<and> pend s' = drop n (pend s)"
  using read_at_least_delivers [OF assms(1), of "[]" n s] assms(2)
  by (auto simp: ReadAll_def)

section \<open>\<^verbatim>\<open>WriteAll\<close>\<close>

text \<open>The copy loop of \<^verbatim>\<open>io.Copy\<close> over \<^verbatim>\<open>LimitReader(bytes.NewReader(p), len(p))\<close>, in chunks of
  32 KiB.\<close>

abbreviation copy_chunk :: nat where
  "copy_chunk \<equiv> 32768"

fun copy_loop :: "'s qwrite \<Rightarrow> 's \<Rightarrow> byte list \<Rightarrow> nat \<Rightarrow> (nat \<times> io_err option \<times> 's) option" where
  "copy_loop wr s rest written =
     (if rest = [] then Some (written, None, s)
      else let chunk = take copy_chunk rest in
        (case wr s chunk of
           None \<Rightarrow> None
         | Some (nw, ew, s') \<Rightarrow>
             (let ew' = (if length chunk < nw \<and> ew = None then Some InvalidWrite else ew);
                  nw' = (if length chunk < nw then 0 else nw)
              in case ew' of
                   Some e \<Rightarrow> Some (written + nw', Some e, s')
                 | None \<Rightarrow>
                     if nw' \<noteq> length chunk then Some (written + nw', Some ShortWrite, s')
                     else copy_loop wr s' (drop copy_chunk rest) (written + nw'))))"

declare copy_loop.simps [simp del]

definition WriteAll :: "'s qwrite \<Rightarrow> 's \<Rightarrow> byte list \<Rightarrow> (nat \<times> io_err option \<times> 's) option" where
  "WriteAll wr s p =
     (case copy_loop wr s p 0 of
        None \<Rightarrow> None
      | Some (written, err, s') \<Rightarrow>
          Some (written,
            (if written = length p then None
             else if written < length p \<and> err = None then Some EOF else err), s'))"

text \<open>
  The documented behaviour of \<^verbatim>\<open>Write\<close> (\<^verbatim>\<open>io.Writer\<close>): it reports how many bytes it took, which are
  a prefix of its argument, and reports an error when it took fewer than all.
\<close>

definition writer_contract :: "'s qwrite \<Rightarrow> ('s \<Rightarrow> byte list) \<Rightarrow> bool" where
  "writer_contract wr sent \<longleftrightarrow>
     (\<forall>s p n err s'. wr s p = Some (n, err, s') \<longrightarrow>
        n \<le> length p \<and> sent s' = sent s @ take n p \<and> (n < length p \<longrightarrow> err \<noteq> None))"

text \<open>A healthy stream accepts everything it is given.\<close>

definition stream_accepts :: "'s qwrite \<Rightarrow> ('s \<Rightarrow> byte list) \<Rightarrow> bool" where
  "stream_accepts wr sent \<longleftrightarrow>
     (\<forall>s p. \<exists>s'. wr s p = Some (length p, None, s') \<and> sent s' = sent s @ p)"

lemma accepts_contract: "stream_accepts wr sent \<Longrightarrow> writer_contract wr sent"
  unfolding stream_accepts_def writer_contract_def by (metis option.inject prod.inject
      order_refl take_all less_irrefl)

lemma copy_loop_accepts:
  assumes "stream_accepts wr sent"
  shows "\<exists>s'. copy_loop wr s p w = Some (w + length p, None, s') \<and> sent s' = sent s @ p"
  using assms
proof (induction wr s p w rule: copy_loop.induct)
  case (1 wr s p w)
  show ?case
  proof (cases "p = []")
    case True
    then show ?thesis by (simp add: copy_loop.simps)
  next
    case False
    let ?c = "take copy_chunk p" and ?r = "drop copy_chunk p"
    from "1.prems" obtain s1 where s1: "wr s ?c = Some (length ?c, None, s1)" "sent s1 = sent s @ ?c"
      unfolding stream_accepts_def by blast
    with "1.IH" [OF False refl s1(1) refl refl refl refl] "1.prems"
    obtain s2 where s2: "copy_loop wr s1 ?r (w + length ?c) = Some (w + length ?c + length ?r, None, s2)"
      "sent s2 = sent s1 @ ?r" by auto
    have "length ?c + length ?r = length p" by (simp only: length_append [symmetric] append_take_drop_id)
    with False s1 s2 show ?thesis
      by (subst copy_loop.simps) (simp add: Let_def add.assoc)
  qed
qed

lemma WriteAll_accepts:
  assumes "stream_accepts wr sent"
  shows "\<exists>s'. WriteAll wr s p = Some (length p, None, s') \<and> sent s' = sent s @ p"
  using copy_loop_accepts [OF assms, of s p 0] by (auto simp: WriteAll_def)

text \<open>With errors: what arrived is a prefix of the argument, of the reported length.\<close>

lemma copy_loop_prefix:
  assumes "writer_contract wr sent" "copy_loop wr s p w = Some (n, err, s')"
  shows "\<exists>k. k \<le> length p \<and> n = w + k \<and> sent s' = sent s @ take k p \<and> (k < length p \<longrightarrow> err \<noteq> None)"
  using assms
proof (induction wr s p w rule: copy_loop.induct)
  case (1 wr s p w)
  show ?case
  proof (cases "p = []")
    case True
    with "1.prems" show ?thesis by (simp add: copy_loop.simps)
  next
    case False
    let ?c = "take copy_chunk p" and ?r = "drop copy_chunk p"
    from False "1.prems"(2) obtain nw ew s1 where r: "wr s ?c = Some (nw, ew, s1)"
      by (subst (asm) copy_loop.simps) (auto simp: Let_def split: option.splits)
    with "1.prems"(1) have nw: "nw \<le> length ?c" "sent s1 = sent s @ take nw ?c"
      "nw < length ?c \<longrightarrow> ew \<noteq> None"
      unfolding writer_contract_def by blast+
    show ?thesis
    proof (cases ew)
      case (Some e)
      with False r nw "1.prems"(2) have "n = w + nw" "s' = s1" "err = Some e"
        by (auto simp: copy_loop.simps [of wr s p w] Let_def split: if_splits)
      with nw show ?thesis by (intro exI [of _ nw]) auto
    next
      case None
      with nw have full: "nw = length ?c" by auto
      with False r nw None "1.prems"(2) have "copy_loop wr s1 ?r (w + nw) = Some (n, err, s')"
        by (auto simp: copy_loop.simps [of wr s p w] Let_def split: if_splits)
      with "1.IH" [OF False refl r refl refl refl refl] None full "1.prems"(1)
      obtain k where k: "k \<le> length ?r" "n = w + nw + k" "sent s' = sent s1 @ take k ?r"
        "k < length ?r \<longrightarrow> err \<noteq> None" by auto
      have len: "length ?c + length ?r = length p"
        by (simp only: length_append [symmetric] append_take_drop_id)
      have "take nw ?c @ take k ?r = take (nw + k) p"
        using full by (cases "length p \<le> copy_chunk") (auto simp: take_add min_def)
      with k nw len full show ?thesis by (intro exI [of _ "nw + k"]) auto
    qed
  qed
qed

lemma WriteAll_prefix:
  assumes "writer_contract wr sent" "WriteAll wr s p = Some (n, err, s')"
  shows "n \<le> length p \<and> sent s' = sent s @ take n p \<and> (err = None \<longleftrightarrow> n = length p)"
proof -
  from assms(2) obtain e where c: "copy_loop wr s p 0 = Some (n, e, s')"
    and err: "err = (if n = length p then None else if n < length p \<and> e = None then Some EOF else e)"
    by (auto simp: WriteAll_def split: option.splits)
  from copy_loop_prefix [OF assms(1) c] err show ?thesis by auto
qed

text \<open>What no single read or write changes, the loops do not change either.\<close>

lemma read_at_least_keeps:
  assumes "read_at_least rd s n got = Some y"
  shows "(\<forall>s n bs e s'. rd s n = Some (bs, e, s') \<longrightarrow> f s' = f s) \<longrightarrow> f (snd (snd y)) = f s"
proof (rule read_at_least.raw_induct [of "\<lambda>rd s n got y. (\<forall>s n bs e s'. rd s n = Some (bs, e, s')
    \<longrightarrow> f s' = f s) \<longrightarrow> f (snd (snd y)) = f s", OF _ assms], goal_cases)
  case (1 F rd s want got y)
  show ?case
  proof (intro impI, cases "rd s (want - length got)")
    case None
    with 1(2) show "f (snd (snd y)) = f s" by (auto split: if_splits)
  next
    case (Some x)
    assume keeps: "\<forall>s n bs e s'. rd s n = Some (bs, e, s') \<longrightarrow> f s' = f s"
    obtain bs e s' where x: "x = (bs, e, s')" by (cases x)
    then have s': "f s' = f s" using keeps Some by blast
    show "f (snd (snd y)) = f s"
    proof (cases "length got < want \<and> e = None")
      case True
      with 1(2) Some x have "F rd s' want (got @ bs) = Some y" by simp
      from 1(1) [OF this] keeps s' show ?thesis by auto
    qed (use 1(2) Some x s' in \<open>auto split: if_splits option.splits\<close>)
  qed
qed

lemma ReadAll_keeps:
  assumes "\<And>s n bs e s'. rd s n = Some (bs, e, s') \<Longrightarrow> f s' = f s" "ReadAll rd s n = Some (g, e, s')"
  shows "f s' = f s"
proof -
  from assms(2) obtain g e where "read_at_least rd s n [] = Some (g, e, s')"
    by (auto simp: ReadAll_def split: option.splits)
  from read_at_least_keeps [OF this, of f] assms(1) show ?thesis by auto
qed

lemma copy_loop_keeps:
  assumes "\<And>s p n e s'. wr s p = Some (n, e, s') \<Longrightarrow> f s' = f s"
  shows "copy_loop wr s p w = Some (n, e, s') \<Longrightarrow> f s' = f s"
  using assms
proof (induction wr s p w rule: copy_loop.induct)
  case (1 wr s p w)
  show ?case
  proof (cases "p = []")
    case True
    with "1.prems"(1) show ?thesis by (simp add: copy_loop.simps)
  next
    case False
    let ?c = "take copy_chunk p"
    from "1.prems"(1) False obtain nw ew s1 where r: "wr s ?c = Some (nw, ew, s1)"
      by (subst (asm) copy_loop.simps) (auto simp: Let_def split: option.splits)
    note keep = "1.prems"(2) [OF r]
    show ?thesis
    proof (cases "s' = s1")
      case False
      with \<open>p \<noteq> []\<close> r "1.prems"(1) have "ew = None" "nw = length ?c"
        "copy_loop wr s1 (drop copy_chunk p) (w + nw) = Some (n, e, s')"
        by (auto simp: copy_loop.simps [of wr s p w] Let_def split: if_splits option.splits)
      with "1.IH" [OF \<open>p \<noteq> []\<close> refl r refl refl refl refl] "1.prems"(2) have "f s' = f s1" by auto
      with keep show ?thesis by simp
    qed (simp add: keep)
  qed
qed

lemma WriteAll_keeps:
  assumes "\<And>s p n e s'. wr s p = Some (n, e, s') \<Longrightarrow> f s' = f s" "WriteAll wr s p = Some (n, e, s')"
  shows "f s' = f s"
proof -
  from assms(2) obtain n e where "copy_loop wr s p 0 = Some (n, e, s')"
    by (auto simp: WriteAll_def split: option.splits)
  from copy_loop_keeps [of wr f, OF assms(1) this] show ?thesis .
qed

text \<open>An empty buffer writes nothing, reports no error and zero bytes.\<close>

lemma WriteAll_empty [simp]: "WriteAll wr s [] = Some (0, None, s)"
  by (simp add: WriteAll_def copy_loop.simps)

lemma ReadAll_empty [simp]: "ReadAll rd s 0 = Some ([], None, s)"
  by (simp add: ReadAll_def read_at_least.simps)

section \<open>Silencing the default logger (\<^verbatim>\<open>silence.go\<close>)\<close>

text \<open>The writers of the default logger; \<open>None\<close> is a nil \<^verbatim>\<open>io.Writer\<close>.\<close>

datatype log_writer = Discard | Writer nat

record silencer =
  logSilencerCount :: "32 word"
  logSilencerOriginal :: "log_writer option"
  log_output :: "log_writer option"

definition silenceLog :: "silencer \<Rightarrow> silencer" where
  "silenceLog s =
     (let s' = s\<lparr>logSilencerCount := logSilencerCount s + 1\<rparr> in
      if logSilencerCount s' = 1
      then s'\<lparr>logSilencerOriginal := log_output s', log_output := Some Discard\<rparr>
      else s')"

text \<open>The second component is the panic, if any; the counter is decremented in any case.\<close>

definition unsilenceLog :: "silencer \<Rightarrow> silencer \<times> go_fault option" where
  "unsilenceLog s =
     (let s' = s\<lparr>logSilencerCount := logSilencerCount s - 1\<rparr> in
      if logSilencerCount s' = 0
      then (s'\<lparr>log_output := logSilencerOriginal s', logSilencerOriginal := None\<rparr>, None)
      else if sint (logSilencerCount s') < 0
      then (s', Some (ExplicitPanic ''unsilenceLog called more often than silenceLog''))
      else (s', None))"

text \<open>Calls from any goroutines, in the order in which they take the mutex; a panic stops the
  program.\<close>

datatype silence_op = Silence | Unsilence

fun run_silence :: "silence_op list \<Rightarrow> silencer \<Rightarrow> silencer \<times> go_fault option" where
  "run_silence [] s = (s, None)"
| "run_silence (Silence # ops) s = run_silence ops (silenceLog s)"
| "run_silence (Unsilence # ops) s =
     (case unsilenceLog s of
        (s', None) \<Rightarrow> run_silence ops s'
      | (s', Some e) \<Rightarrow> (s', Some e))"

text \<open>Open silences after the calls; \<open>None\<close> when some \<^verbatim>\<open>unsilenceLog\<close> had no partner before it.\<close>

fun open_silences :: "silence_op list \<Rightarrow> nat \<Rightarrow> nat option" where
  "open_silences [] n = Some n"
| "open_silences (Silence # ops) n = open_silences ops (Suc n)"
| "open_silences (Unsilence # ops) n = (if n = 0 then None else open_silences ops (n - 1))"

text \<open>The state with \<open>n\<close> open silences over a logger that writes to \<open>w\<close>.\<close>

definition silenced :: "log_writer option \<Rightarrow> nat \<Rightarrow> silencer" where
  "silenced w n = \<lparr>logSilencerCount = of_nat n,
     logSilencerOriginal = (if n = 0 then None else w),
     log_output = (if n = 0 then w else Some Discard)\<rparr>"

lemma silenceLog_silenced:
  "n + 1 < 2 ^ 31 \<Longrightarrow> silenceLog (silenced w n) = silenced w (n + 1)"
  using of_nat_word_eq [of "Suc n" 1, where 'a = 32]
  by (simp add: silenceLog_def silenced_def Let_def)

lemma unsilenceLog_silenced:
  assumes "n + 1 < 2 ^ 31"
  shows "unsilenceLog (silenced w (n + 1)) = (silenced w n, None)"
proof -
  have "(of_nat n :: 32 word) = 0 \<longleftrightarrow> n = 0" using assms of_nat_word_eq [of n 0, where 'a = 32] by simp
  moreover have "sint (of_nat n :: 32 word) = int n" using assms by (intro sint_of_nat_small) simp
  ultimately show ?thesis by (simp add: unsilenceLog_def silenced_def Let_def)
qed

lemma run_silence_open:
  assumes "open_silences ops n = Some m" "n + length ops < 2 ^ 31"
  shows "run_silence ops (silenced w n) = (silenced w m, None)"
  using assms
proof (induction ops arbitrary: n)
  case (Cons op ops)
  then show ?case
    using silenceLog_silenced [of n w] unsilenceLog_silenced [of "n - 1" w]
    by (cases op) (auto split: if_splits)
qed simp

text \<open>One \<^verbatim>\<open>unsilenceLog\<close> too many panics.\<close>

lemma run_silence_unbalanced:
  assumes "open_silences ops n = None" "n + length ops < 2 ^ 31"
  shows "\<exists>s. run_silence ops (silenced w n)
     = (s, Some (ExplicitPanic ''unsilenceLog called more often than silenceLog''))"
  using assms
proof (induction ops arbitrary: n)
  case (Cons op ops)
  show ?case
  proof (cases "op = Unsilence \<and> n = 0")
    case True
    then show ?thesis by (simp add: unsilenceLog_def silenced_def Let_def)
  next
    case False
    with Cons show ?thesis
      using silenceLog_silenced [of n w] unsilenceLog_silenced [of "n - 1" w]
      by (cases op) (auto split: if_splits)
  qed
qed simp

section \<open>Opening a connection\<close>

text \<open>
  The fields of \<^verbatim>\<open>SingleStreamQUICConn\<close> the code reads back; \<open>'a\<close> is \<^verbatim>\<open>snet.UDPAddr\<close>, \<open>'p\<close> a
  path, \<open>'s\<close> a QUIC stream.  The tracer's path and destination are fields of \<^verbatim>\<open>QTracer\<close>.
\<close>

record ('a, 'p, 's) SingleStreamQUICConn =
  ssqc_local :: "'a option"
  ssqc_stream :: "'s option"
  ssqc_listener :: bool
  ssqc_Path :: "'p option"
  tracer_Path :: "'p option"
  tracer_Destination :: "'a option"

definition NewSingleStreamQUICConn :: "('a, 'p, 's) SingleStreamQUICConn" where
  "NewSingleStreamQUICConn =
     \<lparr>ssqc_local = None, ssqc_stream = None, ssqc_listener = False, ssqc_Path = None,
      tracer_Path = None, tracer_Destination = None\<rparr>"

definition ssqc_SetPath ::
  "('a, 'p, 's) SingleStreamQUICConn \<Rightarrow> 'p option \<Rightarrow> ('a, 'p, 's) SingleStreamQUICConn" where
  "ssqc_SetPath c path = c\<lparr>ssqc_Path := path\<rparr>"

text \<open>The methods that only forward to the QUIC stream, whose own operation is the argument; without a
  stream they dereference nil.  \<^verbatim>\<open>RemoteAddr\<close> also converts the type of the address, which panics for
  another one than a SCION address.\<close>

definition on_ssqc_stream ::
  "('s \<Rightarrow> 'r \<times> 's) \<Rightarrow> ('a, 'p, 's) SingleStreamQUICConn \<Rightarrow> ('r \<times> ('a, 'p, 's) SingleStreamQUICConn) go" where
  "on_ssqc_stream f c =
     (case ssqc_stream c of
        None \<Rightarrow> Inl NilDereference
      | Some s \<Rightarrow> (let (r, s') = f s in Inr (r, c\<lparr>ssqc_stream := Some s'\<rparr>)))"

definition ssqc_Close ::
  "('s \<Rightarrow> io_err option \<times> 's) \<Rightarrow> ('a, 'p, 's) SingleStreamQUICConn
     \<Rightarrow> (io_err option \<times> ('a, 'p, 's) SingleStreamQUICConn) go" where
  "ssqc_Close close c = on_ssqc_stream close c"

definition ssqc_Context ::
  "('s \<Rightarrow> 'ctx) \<Rightarrow> ('a, 'p, 's) SingleStreamQUICConn \<Rightarrow> ('ctx \<times> ('a, 'p, 's) SingleStreamQUICConn) go" where
  "ssqc_Context ctx c = on_ssqc_stream (\<lambda>s. (ctx s, s)) c"

definition ssqc_SetReadDeadline ::
  "(int \<Rightarrow> 's \<Rightarrow> io_err option \<times> 's) \<Rightarrow> int \<Rightarrow> ('a, 'p, 's) SingleStreamQUICConn
     \<Rightarrow> (io_err option \<times> ('a, 'p, 's) SingleStreamQUICConn) go" where
  "ssqc_SetReadDeadline setdl t c = on_ssqc_stream (setdl t) c"

definition ssqc_SetWriteDeadline ::
  "(int \<Rightarrow> 's \<Rightarrow> io_err option \<times> 's) \<Rightarrow> int \<Rightarrow> ('a, 'p, 's) SingleStreamQUICConn
     \<Rightarrow> (io_err option \<times> ('a, 'p, 's) SingleStreamQUICConn) go" where
  "ssqc_SetWriteDeadline setdl t c = on_ssqc_stream (setdl t) c"

definition ssqc_Read ::
  "'s qread \<Rightarrow> nat \<Rightarrow> ('a, 'p, 's) SingleStreamQUICConn
     \<Rightarrow> (byte list \<times> io_err option \<times> ('a, 'p, 's) SingleStreamQUICConn) option go" where
  "ssqc_Read rd n c =
     (case ssqc_stream c of
        None \<Rightarrow> Inl NilDereference
      | Some s \<Rightarrow> Inr (map_option (\<lambda>(d, err, s'). (d, err, c\<lparr>ssqc_stream := Some s'\<rparr>)) (rd s n)))"

definition ssqc_Write ::
  "'s qwrite \<Rightarrow> byte list \<Rightarrow> ('a, 'p, 's) SingleStreamQUICConn
     \<Rightarrow> (nat \<times> io_err option \<times> ('a, 'p, 's) SingleStreamQUICConn) option go" where
  "ssqc_Write wr p c =
     (case ssqc_stream c of
        None \<Rightarrow> Inl NilDereference
      | Some s \<Rightarrow> Inr (map_option (\<lambda>(n, err, s'). (n, err, c\<lparr>ssqc_stream := Some s'\<rparr>)) (wr s p)))"

text \<open>\<^verbatim>\<open>connectedPacketConn\<close> gives a connected socket the methods of an unconnected one: the destination is
  ignored, and every packet comes from the peer.\<close>

definition cpc_WriteTo :: "'c qwrite \<Rightarrow> byte list \<Rightarrow> 'a \<Rightarrow> 'c \<Rightarrow> (nat \<times> io_err option \<times> 'c) option" where
  "cpc_WriteTo Write b dest c = Write c b"

definition cpc_ReadFrom ::
  "'c qread \<Rightarrow> ('c \<Rightarrow> 'a) \<Rightarrow> nat \<Rightarrow> 'c \<Rightarrow> (byte list \<times> 'a \<times> io_err option \<times> 'c) option" where
  "cpc_ReadFrom Read RemoteAddr n c =
     (case Read c n of None \<Rightarrow> None | Some (b, err, c') \<Rightarrow> Some (b, RemoteAddr c', err, c'))"

definition ssqc_RemoteAddr :: "'a option \<Rightarrow> ('a, 'p, 's) SingleStreamQUICConn \<Rightarrow> 'a go" where
  "ssqc_RemoteAddr peer c =
     (case (ssqc_stream c, peer) of
        (None, _) \<Rightarrow> Inl NilDereference
      | (Some _, None) \<Rightarrow> Inl (ExplicitPanic ''interface conversion'')
      | (Some _, Some a) \<Rightarrow> Inr a)"

text \<open>What the third-party calls of one attempt return.\<close>

record 's open_results =
  r_optconn :: "io_err option"
  r_tls :: "io_err option"
  r_quic :: "io_err option"
  r_accept :: "io_err option"
  r_stream :: "io_err + 's"

text \<open>\<open>Inl\<close> is a panic; \<open>Inr\<close> the connection and the \<^verbatim>\<open>error\<close> result.\<close>

definition ListenAndAccept ::
  "'s open_results \<Rightarrow> silencer \<Rightarrow> ('a, 'p, 's) SingleStreamQUICConn \<Rightarrow> 'a
     \<Rightarrow> silencer \<times> (('a, 'p, 's) SingleStreamQUICConn \<times> io_err option) go" where
  "ListenAndAccept r sl c local =
     (let c1 = c\<lparr>ssqc_local := Some local\<rparr> in
      case r_optconn r of Some e \<Rightarrow> (sl, Inr (c1, Some e)) | None \<Rightarrow>
      (case r_tls r of Some e \<Rightarrow> (sl, Inr (c1, Some e)) | None \<Rightarrow>
      (let sl1 = silenceLog sl in
       case r_quic r of Some e \<Rightarrow> (sl1, Inr (c1, Some e)) | None \<Rightarrow>
       (case unsilenceLog sl1 of
          (sl2, Some f) \<Rightarrow> (sl2, Inl f)
        | (sl2, None) \<Rightarrow>
            (case r_accept r of Some e \<Rightarrow> (sl2, Inr (c1, Some e)) | None \<Rightarrow>
            (case r_stream r of
               Inl e \<Rightarrow> (sl2, Inr (c1, Some e))
             | Inr s \<Rightarrow> (sl2, Inr (c1\<lparr>ssqc_stream := Some s, ssqc_listener := True\<rparr>, None))))))))"

definition DialAndOpenWithPath ::
  "'s open_results \<Rightarrow> silencer \<Rightarrow> ('a, 'p, 's) SingleStreamQUICConn \<Rightarrow> 'a \<Rightarrow> 'a \<Rightarrow> 'p option
     \<Rightarrow> silencer \<times> (('a, 'p, 's) SingleStreamQUICConn \<times> io_err option) go" where
  "DialAndOpenWithPath r sl c local remote path =
     (let c1 = c\<lparr>ssqc_local := Some local\<rparr> in
      case r_optconn r of Some e \<Rightarrow> (sl, Inr (c1, Some e)) | None \<Rightarrow>
      (let c2 = (if path \<noteq> None then c1\<lparr>tracer_Path := path\<rparr> else c1);
           c3 = c2\<lparr>tracer_Destination := Some remote\<rparr>;
           sl1 = silenceLog sl in
       case r_quic r of Some e \<Rightarrow> (sl1, Inr (c3, Some e)) | None \<Rightarrow>
       (case unsilenceLog sl1 of
          (sl2, Some f) \<Rightarrow> (sl2, Inl f)
        | (sl2, None) \<Rightarrow>
            (case r_stream r of
               Inl e \<Rightarrow> (sl2, Inr (c3, Some e))
             | Inr s \<Rightarrow> (sl2, Inr (c3\<lparr>ssqc_stream := Some s\<rparr>, None))))))"

definition DialAndOpen ::
  "'s open_results \<Rightarrow> silencer \<Rightarrow> ('a, 'p, 's) SingleStreamQUICConn \<Rightarrow> 'a \<Rightarrow> 'a
     \<Rightarrow> silencer \<times> (('a, 'p, 's) SingleStreamQUICConn \<times> io_err option) go" where
  "DialAndOpen r sl c local remote = DialAndOpenWithPath r sl c local remote None"

text \<open>
  Both leave the logger as they found it unless \<^verbatim>\<open>quic.Listen\<close> or \<^verbatim>\<open>quic.Dial\<close> itself fails:
  that early return skips \<^verbatim>\<open>unsilenceLog\<close>.
\<close>

definition dial_silences :: "'s open_results \<Rightarrow> nat" where
  "dial_silences r = (if r_optconn r = None \<and> r_quic r \<noteq> None then 1 else 0)"

definition listen_silences :: "'s open_results \<Rightarrow> nat" where
  "listen_silences r = (if r_optconn r = None \<and> r_tls r = None \<and> r_quic r \<noteq> None then 1 else 0)"

lemma dial_logger:
  assumes "n + 1 < 2 ^ 31"
  shows "fst (DialAndOpenWithPath r (silenced w n) c local remote path) = silenced w (n + dial_silences r)"
    and "\<exists>c' err. snd (DialAndOpenWithPath r (silenced w n) c local remote path) = Inr (c', err)"
  using silenceLog_silenced [OF assms, of w] unsilenceLog_silenced [OF assms, of w]
  by (auto simp: DialAndOpenWithPath_def dial_silences_def Let_def split: option.splits sum.splits)

lemma listen_logger:
  assumes "n + 1 < 2 ^ 31"
  shows "fst (ListenAndAccept r (silenced w n) c local) = silenced w (n + listen_silences r)"
    and "\<exists>c' err. snd (ListenAndAccept r (silenced w n) c local) = Inr (c', err)"
  using silenceLog_silenced [OF assms, of w] unsilenceLog_silenced [OF assms, of w]
  by (auto simp: ListenAndAccept_def listen_silences_def Let_def split: option.splits sum.splits)

section \<open>Properties\<close>

text \<open>C26: \<^verbatim>\<open>ReadAll\<close> on a stream with enough pending bytes returns although the stream may hand them
  out in pieces of any size; it fills the buffer exactly, reports no error, and leaves the rest of
  the pending bytes in the stream.\<close>

theorem read_all_fills_buffer:
  assumes "stream_delivers rd pend" "n \<le> length (pend s)"
  shows "\<exists>s'. ReadAll rd s n = Some (take n (pend s), None, s') \<and> pend s' = drop n (pend s)"
  using ReadAll_delivers [OF assms] .

text \<open>A stream that hands out one byte at a time.\<close>

definition one_byte_read :: "byte list qread" where
  "one_byte_read s n = (if n = 0 \<or> s = [] then None else Some ([hd s], None, tl s))"

theorem read_all_fills_buffer_witness:
  "\<exists>s'. ReadAll one_byte_read [1, 2, 3, 4] 3 = Some ([1, 2, 3], None, s') \<and> s' = [4]"
proof -
  have "stream_delivers one_byte_read id"
    unfolding stream_delivers_def
  proof (intro allI impI)
    fix s :: "byte list" and n :: nat
    assume "0 < n \<and> id s \<noteq> []"
    then show "\<exists>k s'. 0 < k \<and> k \<le> n \<and> k \<le> length (id s)
        \<and> one_byte_read s n = Some (take k (id s), None, s') \<and> id s' = drop k (id s)"
      by (intro exI [of _ 1] exI [of _ "tl s"]) (cases s, auto simp: one_byte_read_def)
  qed
  from read_all_fills_buffer [OF this, of 3 "[1, 2, 3, 4]"] show ?thesis by simp
qed

text \<open>C25: \<^verbatim>\<open>WriteAll\<close> never lies about its count: whatever the stream does within the contract of
  \<^verbatim>\<open>io.Writer\<close>, what reached the stream is exactly the prefix of the argument of the reported length,
  and there is no error if and only if the whole argument was written.\<close>

theorem write_all_count:
  assumes "writer_contract wr sent" "WriteAll wr s p = Some (n, err, s')"
  shows "n \<le> length p \<and> sent s' = sent s @ take n p \<and> (err = None \<longleftrightarrow> n = length p)"
  using WriteAll_prefix [OF assms] .

text \<open>A stream that breaks after four bytes.\<close>

definition breaking_write :: "byte list qwrite" where
  "breaking_write s p = (let k = min (length p) (4 - length s) in
     Some (k, if k < length p then Some (IOError ''closed'') else None, s @ take k p))"

theorem write_all_count_witness:
  "\<exists>n err s'. WriteAll breaking_write [] [1, 2, 3, 4, 5, 6] = Some (n, err, s') \<and> s' = take n [1, 2, 3, 4, 5, 6]
     \<and> err \<noteq> None"
proof -
  have c: "writer_contract breaking_write id"
    by (auto simp: writer_contract_def breaking_write_def Let_def)
  have w: "WriteAll breaking_write [] [1, 2, 3, 4, 5, 6] = Some (4, Some (IOError ''closed''), [1, 2, 3, 4])"
    by (simp add: WriteAll_def copy_loop.simps [of breaking_write "[]"] breaking_write_def Let_def)
  from write_all_count [OF c w] show ?thesis using w by simp
qed

text \<open>C19: The default logger is muted while at least one dial or listen is in progress and gets back
  the writer it had when the last one ends, for any interleaving of balanced
  \<^verbatim>\<open>silenceLog\<close>/\<^verbatim>\<open>unsilenceLog\<close> calls from any goroutines; the first \<^verbatim>\<open>unsilenceLog\<close> without a
  partner panics.\<close>

theorem silence_balanced:
  assumes "length ops < 2 ^ 31"
  shows "case open_silences ops 0 of
     Some m \<Rightarrow> run_silence ops (silenced w 0) = (silenced w m, None)
       \<and> log_output (silenced w m) = (if m = 0 then w else Some Discard)
   | None \<Rightarrow> \<exists>s. run_silence ops (silenced w 0)
       = (s, Some (ExplicitPanic ''unsilenceLog called more often than silenceLog''))"
  using run_silence_open [of ops 0 _ w] run_silence_unbalanced [of ops 0 w] assms
  by (auto simp: silenced_def split: option.split)

theorem silence_balanced_witness:
  "run_silence [Silence, Silence, Unsilence, Unsilence] (silenced (Some (Writer 1)) 0)
     = (silenced (Some (Writer 1)) 0, None)
   \<and> (\<exists>s. run_silence [Silence, Unsilence, Unsilence] (silenced None 0)
       = (s, Some (ExplicitPanic ''unsilenceLog called more often than silenceLog'')))"
  using silence_balanced [of "[Silence, Silence, Unsilence, Unsilence]" "Some (Writer 1)"]
    silence_balanced [of "[Silence, Unsilence, Unsilence]" None] by simp



end
