(* ===== verification/Scheduler.thy ===== *)
theory Scheduler
  imports Prelude
begin

text \<open>
  The data assignments of \<^verbatim>\<open>scheduler.go\<close>, the sequence queue of \<^verbatim>\<open>ext_queue.go\<close> and the
  write side of the ECMP scheduler of \<^verbatim>\<open>scheduler_ecmp.go\<close>: \<^verbatim>\<open>splitBytes\<close> and
  \<^verbatim>\<open>ScheduleWrite\<close>.  The map of data plane streams is given by the order in which a \<^verbatim>\<open>range\<close>
  loop visits its keys; Go may choose a different order for every loop, so the two loops of
  \<^verbatim>\<open>ScheduleWrite\<close> take one order each.
\<close>

section \<open>Assignments\<close>

text \<open>A pointer to a data plane stream is its key in the map of streams; \<open>None\<close> is nil.\<close>

record 'addr DataAssignment =
  da_DataplaneStream :: "u64 option"
  da_Data :: "byte list"
  da_PartId :: u64
  da_SequenceId :: u64
  da_SequenceSize :: u64
  da_NumParts :: u64
  da_StreamId :: u64
  da_Priority :: goint
  da_Remote :: "'addr option"

record 'addr SchedulingDecision =
  Assignments :: "'addr DataAssignment list"

definition zero_DataAssignment :: "'addr DataAssignment" where
  "zero_DataAssignment =
     \<lparr>da_DataplaneStream = None, da_Data = [], da_PartId = 0, da_SequenceId = 0,
      da_SequenceSize = 0, da_NumParts = 0, da_StreamId = 0, da_Priority = 0, da_Remote = None\<rparr>"

section \<open>\<^verbatim>\<open>splitBytes\<close>\<close>

function split_loop :: "'b list \<Rightarrow> nat \<Rightarrow> nat \<Rightarrow> nat \<Rightarrow> nat \<Rightarrow> nat \<Rightarrow> 'b list list go" where
  "split_loop data n partSize remainder i start =
     (if i < n then
        let size = (if i < remainder then partSize + 1 else partSize);
            end = start + size
        in go_bind (go_slice data start end) (\<lambda>part.
           go_bind (split_loop data n partSize remainder (i + 1) end) (\<lambda>parts. Inr (part # parts)))
      else Inr [])"
  by pat_completeness auto
termination
  by (relation "measure (\<lambda>(_, n, _, _, i, _). n - i)") auto

declare split_loop.simps [simp del]

definition splitBytes :: "'b list \<Rightarrow> int \<Rightarrow> 'b list list go" where
  "splitBytes data n =
     (if n \<le> 0 then Inr []
      else let n = (if int (length data) < n then length data else nat n) in
        if n = 0 then Inl DivideByZero
        else split_loop data n (length data div n) (length data mod n) 0 0)"

text \<open>The loop cuts off the pieces one after the other.\<close>

lemma split_loop_spec:
  assumes "i \<le> n" "start + (n - i) * q + (r - min i r) = length data" "r \<le> n"
  shows "\<exists>parts. split_loop data n q r i start = Inr parts \<and> length parts = n - i
     \<and> concat parts = drop start data \<and> (\<forall>p \<in> set parts. length p = q \<or> length p = q + 1 \<and> i < r)"
  using assms(1,2)
proof (induction "n - i" arbitrary: i start)
  case 0
  then show ?case using assms(3) by (subst split_loop.simps) (simp add: min_absorb2)
next
  case (Suc m)
  let ?size = "if i < r then q + 1 else q"
  have i: "i < n" "n - i = Suc (n - (i + 1))" using Suc.hyps(2) by auto
  have rest: "start + ?size + (n - (i + 1)) * q + (r - min (i + 1) r) = length data"
  proof (cases "i < r")
    case True
    then have "min i r = i" "min (i + 1) r = i + 1" by auto
    with Suc.prems(2) i(2) True show ?thesis by simp
  next
    case False
    then have "min i r = r" "min (i + 1) r = r" by auto
    with Suc.prems(2) i(2) False show ?thesis by simp
  qed
  obtain parts where parts: "split_loop data n q r (i + 1) (start + ?size) = Inr parts"
    "length parts = n - (i + 1)" "concat parts = drop (start + ?size) data"
    "\<forall>p \<in> set parts. length p = q \<or> length p = q + 1 \<and> i + 1 < r"
    using Suc.hyps(1) [of "i + 1" "start + ?size"] Suc.hyps(2) i rest by auto
  let ?p = "take ?size (drop start data)"
  have "go_slice data start (start + ?size) = Inr ?p"
    using rest by (simp add: go_slice_def)
  moreover have "length ?p = ?size" using rest by simp
  moreover have "?p @ drop (start + ?size) data = drop start data"
    by (metis append_take_drop_id add.commute drop_drop)
  ultimately show ?case
    using parts i by (subst split_loop.simps) (auto simp: Let_def)
qed

lemma splitBytes_spec:
  assumes "data \<noteq> []" "0 < n" and k_def: "k = min (nat n) (length data)"
  shows "\<exists>parts. splitBytes data n = Inr parts \<and> length parts = k \<and> concat parts = data
     \<and> (\<forall>p \<in> set parts. length data div k \<le> length p \<and> length p \<le> length data div k + 1)"
proof -
  have k: "0 < k" "k = (if int (length data) < n then length data else nat n)"
    using assms by (auto simp: min_def)
  have "k * (length data div k) + length data mod k = length data" by simp
  then obtain parts where
    "split_loop data k (length data div k) (length data mod k) 0 0 = Inr parts"
    "length parts = k" "concat parts = data"
    "\<forall>p \<in> set parts. length p = length data div k \<or> length p = length data div k + 1 \<and> 0 < length data mod k"
    using split_loop_spec [of 0 k 0 "length data div k" "length data mod k" data] k(1) by auto
  moreover have "splitBytes data n = split_loop data k (length data div k) (length data mod k) 0 0"
    using k assms(2) by (auto simp: splitBytes_def Let_def)
  ultimately show ?thesis by (intro exI [of _ parts]) auto
qed

section \<open>\<^verbatim>\<open>ScheduleWrite\<close> of the ECMP scheduler\<close>

text \<open>The inner loop over \<open>j\<close>: five slices of the stream's share.\<close>

fun ecmp_inner :: "u64 \<Rightarrow> byte list list \<Rightarrow> nat \<Rightarrow> nat list \<Rightarrow> 'addr DataAssignment list go" where
  "ecmp_inner p distribution index [] = Inr []"
| "ecmp_inner p distribution index (j # js) =
     go_bind (go_index distribution index) (\<lambda>share.
       let partSize = length share div 5;
           mx = min ((j + 1) * partSize) (length share);
           mx = (if j = 4 then length share else mx)
       in go_bind (go_slice share (j * partSize) mx) (\<lambda>d.
          go_bind (ecmp_inner p distribution index js) (\<lambda>rest.
            Inr (zero_DataAssignment\<lparr>da_DataplaneStream := Some p, da_Data := d\<rparr> # rest))))"

fun ecmp_outer :: "u64 list \<Rightarrow> byte list list \<Rightarrow> nat \<Rightarrow> 'addr DataAssignment list go" where
  "ecmp_outer [] distribution index = Inr []"
| "ecmp_outer (p # ps) distribution index =
     go_bind (ecmp_inner p distribution index [0..<5]) (\<lambda>as.
     go_bind (ecmp_outer ps distribution (index + 1)) (\<lambda>rest. Inr (as @ rest)))"

definition ScheduleWrite :: "byte list \<Rightarrow> u64 list \<Rightarrow> u64 list \<Rightarrow> 'addr SchedulingDecision go" where
  "ScheduleWrite data order1 order2 =
     (let s = (case order1 of [] \<Rightarrow> None | p # _ \<Rightarrow> Some p) in
      if length data \<le> 1000 then
        Inr \<lparr>Assignments = [zero_DataAssignment\<lparr>da_DataplaneStream := s, da_Data := data\<rparr>]\<rparr>
      else
        go_bind (splitBytes data (int (length order2))) (\<lambda>distribution.
        go_bind (ecmp_outer order2 distribution 0) (\<lambda>assignments.
          Inr \<lparr>Assignments = assignments\<rparr>)))"

text \<open>Cutting one share in five: a reference definition.\<close>

definition five_cuts :: "byte list \<Rightarrow> byte list list" where
  "five_cuts c = (let q = length c div 5 in
     [take q c, take q (drop q c), take q (drop (2 * q) c), take q (drop (3 * q) c), drop (4 * q) c])"

definition assign_to :: "u64 \<Rightarrow> byte list \<Rightarrow> 'addr DataAssignment" where
  "assign_to p d = zero_DataAssignment\<lparr>da_DataplaneStream := Some p, da_Data := d\<rparr>"

lemma concat_five_cuts: "concat (five_cuts c) = c"
proof -
  have "take q c @ take q (drop q c) @ take q (drop (2 * q) c) @ take q (drop (3 * q) c) @ drop (4 * q) c = c"
    for q
  proof -
    have "take q (drop (3 * q) c) @ drop (4 * q) c = drop (3 * q) c"
      using append_take_drop_id [of q "drop (3 * q) c"] by simp
    moreover have "take q (drop (2 * q) c) @ drop (3 * q) c = drop (2 * q) c"
      using append_take_drop_id [of q "drop (2 * q) c"] by simp
    moreover have "take q (drop q c) @ drop (2 * q) c = drop q c"
      using append_take_drop_id [of q "drop q c"] by (simp add: mult_2)
    ultimately show ?thesis by simp
  qed
  then show ?thesis by (simp add: five_cuts_def Let_def)
qed

lemma length_five_cuts:
  assumes "d \<in> set (five_cuts c)"
  shows "length c div 5 \<le> length d" "length d \<le> length c div 5 + 4"
proof -
  have "5 * (length c div 5) \<le> length c" "length c \<le> 5 * (length c div 5) + 4" by auto
  with assms show "length c div 5 \<le> length d" "length d \<le> length c div 5 + 4"
    by (auto simp: five_cuts_def Let_def)
qed

lemma ecmp_inner_cuts:
  assumes "index < length distribution"
  shows "ecmp_inner p distribution index [0..<5] = Inr (map (assign_to p) (five_cuts (distribution ! index)))"
proof -
  let ?c = "distribution ! index" and ?q = "length (distribution ! index) div 5"
  have "5 * ?q \<le> length ?c" by simp
  then have le: "?q \<le> length ?c" "2 * ?q \<le> length ?c" "3 * ?q \<le> length ?c" "4 * ?q \<le> length ?c"
    by linarith+
  have slices: "go_slice ?c 0 ?q = Inr (take ?q ?c)"
    "go_slice ?c ?q (?q + ?q) = Inr (take ?q (drop ?q ?c))"
    "go_slice ?c (2 * ?q) (3 * ?q) = Inr (take ?q (drop (2 * ?q) ?c))"
    "go_slice ?c (3 * ?q) (4 * ?q) = Inr (take ?q (drop (3 * ?q) ?c))"
    "go_slice ?c (4 * ?q) (length ?c) = Inr (drop (4 * ?q) ?c)"
    using le by (simp_all add: go_slice_def)
  have js: "[0..<5] = [0, 1, 2, 3, 4 :: nat]" by (simp add: upt_rec)
  show ?thesis
    unfolding js using assms le slices
    by (simp add: go_index_def Let_def min_absorb1 five_cuts_def assign_to_def)
qed

lemma ecmp_outer_cuts:
  assumes "index + length ps \<le> length distribution"
  shows "ecmp_outer ps distribution index =
     Inr (concat (map2 (\<lambda>p c. map (assign_to p) (five_cuts c)) ps (drop index distribution)))"
  using assms
proof (induction ps arbitrary: index)
  case (Cons p ps)
  then have "index < length distribution" by simp
  then have "drop index distribution = distribution ! index # drop (Suc index) distribution"
    by (simp add: Cons_nth_drop_Suc)
  with Cons show ?case by (simp add: ecmp_inner_cuts)
qed simp

lemma ecmp_outer_short:
  assumes "index \<le> length distribution" "length distribution < index + length ps"
  shows "ecmp_outer ps distribution index = Inl IndexOutOfRange"
  using assms
proof (induction ps arbitrary: index)
  case (Cons p ps)
  show ?case
  proof (cases "index = length distribution")
    case True
    then show ?thesis by (simp add: upt_rec go_index_def)
  next
    case False
    with Cons show ?thesis by (simp add: ecmp_inner_cuts)
  qed
qed simp

text \<open>What a long write is scheduled to: every stream's share, cut in five.\<close>

lemma ScheduleWrite_long:
  assumes "1000 < length data" "order2 \<noteq> []" "length order2 \<le> length data"
  obtains shares where
    "ScheduleWrite data order1 order2 = Inr \<lparr>Assignments =
       concat (map2 (\<lambda>p c. map (assign_to p) (five_cuts c)) order2 shares)\<rparr>"
    "length shares = length order2" "concat shares = data"
    "\<And>c. c \<in> set shares \<Longrightarrow> length data div length order2 \<le> length c
       \<and> length c \<le> length data div length order2 + 1"
proof -
  have "data \<noteq> []" "0 < int (length order2)" using assms by auto
  then obtain shares where "splitBytes data (int (length order2)) = Inr shares"
    "length shares = length order2" "concat shares = data"
    "\<forall>c \<in> set shares. length data div length order2 \<le> length c
       \<and> length c \<le> length data div length order2 + 1"
    using splitBytes_spec [of data "int (length order2)" "length order2"] assms(3) by auto
  then show thesis
    using assms(1) by (intro that [of shares]) (auto simp: ScheduleWrite_def ecmp_outer_cuts)
qed

lemma concat_map2_assign_data:
  assumes "length ps = length cs"
  shows "concat (map da_Data (concat (map2 (\<lambda>p c. map (assign_to p) (five_cuts c)) ps cs))) = concat cs"
  using assms
proof (induction ps cs rule: list_induct2)
  case (Cons p ps c cs)
  have "concat (map (da_Data \<circ> assign_to p) (five_cuts c)) = c"
    by (simp add: comp_def assign_to_def concat_five_cuts)
  with Cons show ?case by simp
qed simp

lemma set_map2_assign:
  assumes "a \<in> set (concat (map2 (\<lambda>p c. map (assign_to p) (five_cuts c)) ps cs))"
  shows "\<exists>p \<in> set ps. \<exists>c \<in> set cs. da_DataplaneStream a = Some p \<and> da_Data a \<in> set (five_cuts c)"
  using assms by (fastforce simp: assign_to_def dest: set_zip_leftD set_zip_rightD)

lemma length_map2_assign:
  assumes "length ps = length cs"
  shows "length (concat (map2 (\<lambda>p c. map (assign_to p) (five_cuts c)) ps cs)) = 5 * length ps"
  using assms by (induction ps cs rule: list_induct2) (simp_all add: five_cuts_def Let_def)

lemma ecmp_inner_length: "ecmp_inner p dist index js = Inr as \<Longrightarrow> length as = length js"
  by (induction js arbitrary: as) (auto simp: go_bind_eq_Inr Let_def)

lemma ecmp_outer_length: "ecmp_outer ps dist index = Inr as \<Longrightarrow> length as = 5 * length ps"
  by (induction ps arbitrary: index as) (auto simp: go_bind_eq_Inr simp del: upt_Suc dest!: ecmp_inner_length)

lemma ScheduleWrite_count:
  assumes "ScheduleWrite data order1 order2 = Inr \<lparr>Assignments = das\<rparr>" "length order2 = n" "0 < n"
  shows "length das \<le> 5 * n"
  using assms by (auto simp: ScheduleWrite_def Let_def go_bind_eq_Inr Suc_le_eq
      split: if_splits dest: ecmp_outer_length)

lemma streams_five_cuts:
  "map (da_DataplaneStream \<circ> assign_to p) (five_cuts c) = replicate 5 (Some p)"
proof -
  have "replicate 5 (Some p) = [Some p, Some p, Some p, Some p, Some p]" by (simp add: numeral_eq_Suc)
  then show ?thesis by (simp add: five_cuts_def Let_def assign_to_def)
qed

section \<open>\<^verbatim>\<open>DataQueue\<close> (\<^verbatim>\<open>ext_queue.go\<close>)\<close>

record DataSequence =
  dq_Data :: "byte list"
  dq_SequenceNo :: u64
  dq_Preference :: u32
  dq_TransferPoint :: goint

record DataQueue =
  dq_entries :: "DataSequence list"

definition NewDataQueue :: DataQueue where
  "NewDataQueue = \<lparr>dq_entries = []\<rparr>"

definition DataQueue_Add :: "DataQueue \<Rightarrow> DataSequence \<Rightarrow> DataQueue" where
  "DataQueue_Add q item = q\<lparr>dq_entries := dq_entries q @ [item]\<rparr>"

definition QPARTS_DP_STREAM_LOW_LATENCY :: u32 where
  "QPARTS_DP_STREAM_LOW_LATENCY = 1"

definition QPARTS_DP_STREAM_HIGH_THROUGHPUT :: u32 where
  "QPARTS_DP_STREAM_HIGH_THROUGHPUT = 2"

text \<open>The search loop: index and item of the first low-latency sequence.\<close>

fun find_low_latency :: "DataSequence list \<Rightarrow> nat \<Rightarrow> (nat \<times> DataSequence) option" where
  "find_low_latency [] i = None"
| "find_low_latency (item # items) i =
     (if dq_Preference item = QPARTS_DP_STREAM_LOW_LATENCY then Some (i, item)
      else find_low_latency items (i + 1))"

text \<open>\<open>None\<close>: the queue is empty and the call waits.  The argument is the stream's type.\<close>

definition NextPart :: "DataQueue \<Rightarrow> u32 \<Rightarrow> ('addr DataAssignment \<times> DataQueue) option" where
  "NextPart q streamType =
     (if dq_entries q = [] then None
      else
        (case (if streamType = QPARTS_DP_STREAM_LOW_LATENCY
               then find_low_latency (dq_entries q) 0 else None) of
           Some (i, item) \<Rightarrow>
             Some (zero_DataAssignment\<lparr>da_Data := dq_Data item, da_SequenceId := dq_SequenceNo item\<rparr>,
                   q\<lparr>dq_entries := take i (dq_entries q) @ drop (i + 1) (dq_entries q)\<rparr>)
         | None \<Rightarrow> Some (zero_DataAssignment, q\<lparr>dq_entries := drop 1 (dq_entries q)\<rparr>)))"

lemma find_low_latency_spec:
  assumes "find_low_latency xs i = Some (j, item)"
  shows "\<exists>pre post. xs = pre @ item # post \<and> j = i + length pre
     \<and> dq_Preference item = QPARTS_DP_STREAM_LOW_LATENCY
     \<and> (\<forall>x \<in> set pre. dq_Preference x \<noteq> QPARTS_DP_STREAM_LOW_LATENCY)"
  using assms
proof (induction xs arbitrary: i)
  case (Cons x xs)
  show ?case
  proof (cases "dq_Preference x = QPARTS_DP_STREAM_LOW_LATENCY")
    case True
    with Cons.prems show ?thesis by (intro exI [of _ "[]"] exI [of _ xs]) auto
  next
    case False
    with Cons obtain pre post where "xs = pre @ item # post" "j = i + 1 + length pre"
      "dq_Preference item = QPARTS_DP_STREAM_LOW_LATENCY"
      "\<forall>x \<in> set pre. dq_Preference x \<noteq> QPARTS_DP_STREAM_LOW_LATENCY"
      by fastforce
    with False show ?thesis by (intro exI [of _ "x # pre"] exI [of _ post]) auto
  qed
qed simp

lemma find_low_latency_None:
  "find_low_latency xs i = None \<longleftrightarrow> (\<forall>x \<in> set xs. dq_Preference x \<noteq> QPARTS_DP_STREAM_LOW_LATENCY)"
  by (induction xs arbitrary: i) auto

section \<open>Properties\<close>

text \<open>\<^verbatim>\<open>splitBytes\<close> with a positive number of parts and data cuts the data into
  \<open>min n (length data)\<close> consecutive pieces, none of them empty, whose lengths differ by at most one
  and which together are the data.\<close>

theorem splitBytes_balanced:
  assumes "data \<noteq> []" "0 < n"
  shows "\<exists>parts. splitBytes data n = Inr parts \<and> concat parts = data
     \<and> length parts = min (nat n) (length data)
     \<and> (\<forall>p \<in> set parts. p \<noteq> [] \<and> length data div length parts \<le> length p
          \<and> length p \<le> length data div length parts + 1)"
proof -
  let ?k = "min (nat n) (length data)"
  obtain parts where p: "splitBytes data n = Inr parts" "length parts = ?k" "concat parts = data"
    "\<forall>p \<in> set parts. length data div ?k \<le> length p \<and> length p \<le> length data div ?k + 1"
    using splitBytes_spec [OF assms refl] by blast
  have "0 < ?k" "?k \<le> length data" using assms by auto
  then have "0 < length data div ?k" by (simp add: div_greater_zero_iff)
  then have "p \<noteq> []" if "p \<in> set parts" for p using p(4) that by fastforce
  with p show ?thesis by (intro exI [of _ parts]) auto
qed

theorem splitBytes_balanced_witness:
  "\<exists>parts. splitBytes [1, 2, 3, 4, 5 :: byte] 2 = Inr parts \<and> concat parts = [1, 2, 3, 4, 5] \<and> length parts = 2"
  using splitBytes_balanced [of "[1, 2, 3, 4, 5 :: byte]" 2] by (auto simp: numeral_2_eq_2)

text \<open>C7: A write of more than 1000 bytes over \<open>n\<close> streams, at least one and at most as many as there
  are bytes, is scheduled as \<open>5 * n\<close> assignments, whatever the order in which the map of streams is
  visited: their data put together is the data written, each goes to one of the streams, each stream
  gets five of them in a row, and they are non-empty if there are at least \<open>5 * n\<close> bytes.\<close>

theorem ScheduleWrite_partitions:
  assumes "1000 < length data" "order2 \<noteq> []" "length order2 \<le> length data"
  shows "\<exists>das. ScheduleWrite data order1 order2 = Inr (\<lparr>Assignments = das\<rparr> :: 'addr SchedulingDecision)
     \<and> concat (map da_Data das) = data
     \<and> map da_DataplaneStream das = concat (map (\<lambda>p. replicate 5 (Some p)) order2)
     \<and> (5 * length order2 \<le> length data \<longrightarrow> (\<forall>da \<in> set das. da_Data da \<noteq> []))"
proof -
  obtain shares where s: "ScheduleWrite data order1 order2 = Inr (\<lparr>Assignments =
       concat (map2 (\<lambda>p c. map (assign_to p) (five_cuts c)) order2 shares)\<rparr> :: 'addr SchedulingDecision)"
    "length shares = length order2" "concat shares = data"
    "\<And>c. c \<in> set shares \<Longrightarrow> length data div length order2 \<le> length c
       \<and> length c \<le> length data div length order2 + 1"
    using ScheduleWrite_long [OF assms] by blast
  define das :: "'addr DataAssignment list" where
    "das = concat (map2 (\<lambda>p c. map (assign_to p) (five_cuts c)) order2 shares)"
  have "map da_DataplaneStream das = concat (map (\<lambda>p. replicate 5 (Some p)) order2)"
    unfolding das_def using s(2)
    by (induction shares order2 rule: list_induct2) (simp_all add: streams_five_cuts)
  moreover have "da_Data da \<noteq> []" if big: "5 * length order2 \<le> length data" and mem: "da \<in> set das" for da
  proof -
    obtain c where c: "c \<in> set shares" "da_Data da \<in> set (five_cuts c)"
      using set_map2_assign mem unfolding das_def by blast
    have "5 \<le> length data div length order2"
      using big assms(2) by (simp add: less_eq_div_iff_mult_less_eq)
    then have "5 \<le> length c" using s(4) [OF c(1)] by linarith
    then show ?thesis using length_five_cuts(1) [OF c(2)] by (fastforce simp: div_greater_zero_iff)
  qed
  moreover have "concat (map da_Data das) = data"
    using concat_map2_assign_data [of order2 shares] s(2,3) by (simp add: das_def)
  ultimately show ?thesis using s(1) by (simp add: das_def)
qed

theorem ScheduleWrite_partitions_witness:
  "\<exists>das. ScheduleWrite (replicate 1003 1) [4] [4, 9] = Inr (\<lparr>Assignments = das\<rparr> :: nat SchedulingDecision)
     \<and> concat (map da_Data das) = replicate 1003 1 \<and> length das = 10"
proof -
  have "1000 < length (replicate 1003 (1 :: byte))" "length [4, 9 :: u64] \<le> length (replicate 1003 (1 :: byte))"
    by simp_all
  with ScheduleWrite_partitions [where 'addr = nat, of "replicate 1003 1" "[4, 9]" "[4]"]
  obtain das :: "nat DataAssignment list" where
    d: "ScheduleWrite (replicate 1003 1) [4] [4, 9] = Inr \<lparr>Assignments = das\<rparr>"
      "concat (map da_Data das) = replicate 1003 1"
      "map da_DataplaneStream das = concat (map (\<lambda>p. replicate 5 (Some p)) [4, 9])"
    by blast
  from arg_cong [OF d(3), of length] have "length das = 10" by simp
  with d show ?thesis by blast
qed

text \<open>C29: The error paths of \<^verbatim>\<open>ScheduleWrite\<close> and \<^verbatim>\<open>splitBytes\<close>: with more streams than bytes a long
  write reads past the shares and panics; without streams a short write is assigned to a nil stream
  and a long one gets no assignment at all; splitting nothing into a positive number of parts divides
  by zero.\<close>

theorem ScheduleWrite_edge_cases:
  "(1000 < length data \<and> length data < length order2 \<longrightarrow>
      ScheduleWrite data order1 order2 = (Inl IndexOutOfRange :: 'addr SchedulingDecision go))
   \<and> (length data \<le> 1000 \<longrightarrow> ScheduleWrite data [] order2
        = Inr \<lparr>Assignments = [zero_DataAssignment\<lparr>da_Data := data\<rparr> :: 'addr DataAssignment]\<rparr>)
   \<and> (1000 < length data \<longrightarrow> ScheduleWrite data order1 [] = Inr (\<lparr>Assignments = []\<rparr> :: 'addr SchedulingDecision))
   \<and> (0 < n \<longrightarrow> splitBytes ([] :: byte list) n = Inl DivideByZero)"
proof -
  have "ScheduleWrite data order1 order2 = (Inl IndexOutOfRange :: 'addr SchedulingDecision go)"
    if a: "1000 < length data" "length data < length order2"
  proof -
    have "data \<noteq> []" "0 < int (length order2)" using a by auto
    from splitBytes_spec [OF this refl] obtain parts where
      "splitBytes data (int (length order2)) = Inr parts" "length parts = length data" using a by auto
    moreover from this have "ecmp_outer order2 parts 0 = (Inl IndexOutOfRange :: 'addr DataAssignment list go)"
      using a by (intro ecmp_outer_short) auto
    ultimately show ?thesis using a by (simp add: ScheduleWrite_def)
  qed
  then show ?thesis
    by (auto simp: ScheduleWrite_def splitBytes_def zero_DataAssignment_def)
qed

theorem ScheduleWrite_edge_cases_witness:
  "ScheduleWrite [1, 2] [] [] = Inr \<lparr>Assignments = [zero_DataAssignment\<lparr>da_Data := [1, 2]\<rparr> :: nat DataAssignment]\<rparr>
   \<and> ScheduleWrite (replicate 1001 0) [] (map of_nat [0..<1002]) = (Inl IndexOutOfRange :: nat SchedulingDecision go)"
  using conjunct1 [OF conjunct2 [OF ScheduleWrite_edge_cases [where 'addr = nat, of "[1, 2]" "[]" "[]" 1]]]
    conjunct1 [OF ScheduleWrite_edge_cases [where 'addr = nat,
      of "replicate 1001 0" "map of_nat [0..<1002]" "[]" 1]]
  by (simp del: upt_Suc)

text \<open>\<^verbatim>\<open>NextPart\<close> on a low-latency stream takes the first low-latency sequence out of the queue and
  hands out its data and number, leaving the others in order; when it finds none, and on every other
  kind of stream, it removes the first sequence without handing it out.\<close>

theorem NextPart_takes_or_drops:
  assumes "dq_entries q = x # xs"
  shows "\<exists>(da :: 'addr DataAssignment) q'. NextPart q typ = Some (da, q')
     \<and> (if typ = QPARTS_DP_STREAM_LOW_LATENCY
            \<and> (\<exists>y \<in> set (x # xs). dq_Preference y = QPARTS_DP_STREAM_LOW_LATENCY)
        then \<exists>pre y post. x # xs = pre @ y # post \<and> dq_entries q' = pre @ post
          \<and> dq_Preference y = QPARTS_DP_STREAM_LOW_LATENCY
          \<and> (\<forall>z \<in> set pre. dq_Preference z \<noteq> QPARTS_DP_STREAM_LOW_LATENCY)
          \<and> da_Data da = dq_Data y \<and> da_SequenceId da = dq_SequenceNo y
        else dq_entries q' = xs \<and> da = zero_DataAssignment)"
proof (cases "typ = QPARTS_DP_STREAM_LOW_LATENCY \<and> find_low_latency (x # xs) 0 \<noteq> None")
  case True
  then obtain i y where f: "find_low_latency (x # xs) 0 = Some (i, y)" by auto
  from find_low_latency_spec [OF f] obtain pre post where
    s: "x # xs = pre @ y # post" "i = length pre" and "dq_Preference y = QPARTS_DP_STREAM_LOW_LATENCY"
    "\<forall>z \<in> set pre. dq_Preference z \<noteq> QPARTS_DP_STREAM_LOW_LATENCY" by auto
  moreover from this have "\<exists>y \<in> set (x # xs). dq_Preference y = QPARTS_DP_STREAM_LOW_LATENCY"
    unfolding s(1) by simp
  moreover from this have "NextPart q typ = Some (zero_DataAssignment\<lparr>da_Data := dq_Data y, da_SequenceId := dq_SequenceNo y\<rparr>
      :: 'addr DataAssignment, q\<lparr>dq_entries := pre @ post\<rparr>)"
    using True f assms unfolding s by (simp add: NextPart_def)
  ultimately show ?thesis using True
    by (intro exI [of _ "zero_DataAssignment\<lparr>da_Data := dq_Data y, da_SequenceId := dq_SequenceNo y\<rparr>"]
        exI [of _ "q\<lparr>dq_entries := pre @ post\<rparr>"]) (simp, blast)
next
  case False
  then have "\<not> (typ = QPARTS_DP_STREAM_LOW_LATENCY
      \<and> (\<exists>y \<in> set (x # xs). dq_Preference y = QPARTS_DP_STREAM_LOW_LATENCY))"
    using find_low_latency_None by blast
  moreover have "NextPart q typ = Some (zero_DataAssignment :: 'addr DataAssignment, q\<lparr>dq_entries := xs\<rparr>)"
  proof -
    have "typ = QPARTS_DP_STREAM_LOW_LATENCY \<longrightarrow> find_low_latency (x # xs) 0 = None" using False by blast
    then show ?thesis using assms by (simp add: NextPart_def del: find_low_latency.simps)
  qed
  ultimately show ?thesis by auto
qed

theorem NextPart_takes_or_drops_witness:
  "\<exists>da q'. NextPart \<lparr>dq_entries = [\<lparr>dq_Data = [1], dq_SequenceNo = 7, dq_Preference = 2, dq_TransferPoint = 0\<rparr>]\<rparr> 2
     = Some (da :: nat DataAssignment, q') \<and> dq_entries q' = [] \<and> da_Data da = []"
  using NextPart_takes_or_drops [where 'addr = nat, of "\<lparr>dq_entries = [\<lparr>dq_Data = [1], dq_SequenceNo = 7, dq_Preference = 2,
      dq_TransferPoint = 0\<rparr>]\<rparr>" _ "[]" 2]
  by (auto simp: QPARTS_DP_STREAM_LOW_LATENCY_def zero_DataAssignment_def)

end
