(* ===== verification/Completion.thy ===== *)
theory Completion
  imports Scheduler "HOL-Library.AList"
begin

text \<open>
  \<^verbatim>\<open>qparts_dataplane_completion.go\<close>: the completion objects that count the parts of a sequence on
  the sending side and put them together on the receiving side, and the store that maps sequence
  numbers to them.  Goroutines hold pointers to the objects while others change the store, so
  the store keeps an explicit heap: a pointer is an index into \<open>cs_objs\<close>.
\<close>

section \<open>Completions\<close>

text \<open>
  \<open>sc_internalParts\<close> is a Go map, kept as an association list without double keys; \<open>None\<close> is
  the nil map.  \<open>sc_CompleteChan\<close> is the unbuffered channel, \<open>True\<close> while a sender is blocked on
  it.
\<close>

record QPartsSequenceCompletion =
  sc_StreamId :: u64
  sc_SequenceId :: u64
  sc_Parts :: goint
  sc_SequenceSize :: u64
  sc_CompletedParts :: goint
  sc_Data :: "byte list"
  sc_internalParts :: "(int \<times> byte list) list option"
  sc_Completed :: bool
  sc_CompleteChan :: bool

definition parts_size :: "(int \<times> byte list) list \<Rightarrow> nat" where
  "parts_size m = sum_list (map (\<lambda>(_, part). length part) m)"

definition IsComplete :: "QPartsSequenceCompletion \<Rightarrow> bool" where
  "IsComplete sc =
     (case sc_internalParts sc of
        None \<Rightarrow> sc_Parts sc = sc_CompletedParts sc
      | Some m \<Rightarrow>
          if length m = 0 then sc_Parts sc = sc_CompletedParts sc
          else (of_nat (parts_size m) :: goint) = sc_SequenceSize sc)"

definition AddSendingPart :: "QPartsSequenceCompletion \<Rightarrow> bool \<times> QPartsSequenceCompletion" where
  "AddSendingPart sc =
     (let sc1 = sc\<lparr>sc_CompletedParts := sc_CompletedParts sc + 1\<rparr>;
          compl = IsComplete sc1
      in (compl, if compl then sc1\<lparr>sc_Completed := True\<rparr> else sc1))"

text \<open>The copy loop of \<^verbatim>\<open>AddPart\<close> over the sorted keys, from \<open>offset\<close> on.\<close>

fun copy_parts :: "int list \<Rightarrow> (int \<times> byte list) list \<Rightarrow> nat \<Rightarrow> byte list \<Rightarrow> byte list go" where
  "copy_parts [] m offset d = Inr d"
| "copy_parts (k # ks) m offset d =
     (let part = (case map_of m k of Some p \<Rightarrow> p | None \<Rightarrow> []) in
      if length d < offset then Inl SliceBounds
      else copy_parts ks m (offset + length part)
             (take offset d @ go_copy (drop offset d) part))"

definition AddPart ::
  "int \<Rightarrow> byte list \<Rightarrow> QPartsSequenceCompletion \<Rightarrow> (bool \<times> QPartsSequenceCompletion) go" where
  "AddPart index data sc =
     (case sc_internalParts sc of
        None \<Rightarrow> Inl NilMapWrite
      | Some m \<Rightarrow>
          let sc1 = sc\<lparr>sc_CompletedParts := sc_CompletedParts sc + 1,
                       sc_internalParts := Some (AList.update index data m)\<rparr>;
              compl = IsComplete sc1
          in if compl then
               (let m1 = AList.update index data m; keys = sort (map fst m1) in
                go_bind (copy_parts keys m1 0 (sc_Data sc1)) (\<lambda>d.
                  Inr (True, sc1\<lparr>sc_Data := d, sc_Completed := True\<rparr>)))
             else Inr (False, sc1))"

section \<open>The store\<close>

record CompletionStore =
  Completions :: "u64 \<rightharpoonup> nat"
  cs_objs :: "QPartsSequenceCompletion list"

definition NewCompletionStore :: CompletionStore where
  "NewCompletionStore = \<lparr>Completions = Map.empty, cs_objs = []\<rparr>"

definition cs_alloc :: "QPartsSequenceCompletion \<Rightarrow> CompletionStore \<Rightarrow> nat \<times> CompletionStore" where
  "cs_alloc sc cs = (length (cs_objs cs), cs\<lparr>cs_objs := cs_objs cs @ [sc]\<rparr>)"

definition AddCompletion :: "nat \<Rightarrow> CompletionStore \<Rightarrow> CompletionStore" where
  "AddCompletion a cs = cs\<lparr>Completions := (Completions cs)(sc_SequenceId (cs_objs cs ! a) \<mapsto> a)\<rparr>"

definition GetCompletion :: "u64 \<Rightarrow> CompletionStore \<Rightarrow> nat option" where
  "GetCompletion sequenceId cs = Completions cs sequenceId"

definition RemoveCompletion :: "u64 \<Rightarrow> CompletionStore \<Rightarrow> CompletionStore" where
  "RemoveCompletion sequenceId cs = cs\<lparr>Completions := (Completions cs)(sequenceId := None)\<rparr>"

definition new_completion :: "u64 \<Rightarrow> u64 \<Rightarrow> u64 \<Rightarrow> u64 \<Rightarrow> QPartsSequenceCompletion" where
  "new_completion streamId sequenceId numParts sequenceSize =
     \<lparr>sc_StreamId = streamId, sc_SequenceId = sequenceId, sc_Parts = numParts,
      sc_SequenceSize = sequenceSize, sc_CompletedParts = 0, sc_Data = [],
      sc_internalParts = Some [], sc_Completed = False, sc_CompleteChan = False\<rparr>"

definition GetOrCreateSendingSequenceCompletion ::
  "u64 \<Rightarrow> u64 \<Rightarrow> u64 \<Rightarrow> u64 \<Rightarrow> CompletionStore \<Rightarrow> nat \<times> CompletionStore" where
  "GetOrCreateSendingSequenceCompletion streamId sequenceId numParts sequenceSize cs =
     (case Completions cs sequenceId of
        Some c \<Rightarrow> (c, cs)
      | None \<Rightarrow>
          let (a, cs1) = cs_alloc (new_completion streamId sequenceId numParts sequenceSize) cs
          in (a, cs1\<lparr>Completions := (Completions cs1)(sequenceId \<mapsto> a)\<rparr>))"

definition GetOrCreateSequenceCompletion ::
  "u64 \<Rightarrow> u64 \<Rightarrow> u64 \<Rightarrow> u64 \<Rightarrow> CompletionStore \<Rightarrow> (nat \<times> CompletionStore) go" where
  "GetOrCreateSequenceCompletion streamId sequenceId numParts sequenceSize cs =
     (case Completions cs sequenceId of
        Some c \<Rightarrow> Inr (c, cs)
      | None \<Rightarrow>
          go_bind (go_make sequenceSize) (\<lambda>d.
            let (a, cs1) = cs_alloc
                  ((new_completion streamId sequenceId numParts sequenceSize)\<lparr>sc_Data := d\<rparr>) cs
            in Inr (a, cs1\<lparr>Completions := (Completions cs1)(sequenceId \<mapsto> a)\<rparr>)))"

text \<open>
  The two constructors of the sending side take the random sequence number as an argument; neither
  makes the map of parts.
\<close>

definition NewSequenceCompletionFromData ::
  "u64 \<Rightarrow> byte list \<Rightarrow> u64 \<Rightarrow> QPartsSequenceCompletion" where
  "NewSequenceCompletionFromData streamId data rnd =
     (new_completion streamId rnd 0 (of_nat (length data)))\<lparr>sc_internalParts := None\<rparr>"

definition decision_size :: "'addr SchedulingDecision \<Rightarrow> nat" where
  "decision_size d = sum_list (map (\<lambda>da. length (da_Data da)) (Assignments d))"

definition NewSequenceCompletionFromSchedulingDecision ::
  "u64 \<Rightarrow> 'addr SchedulingDecision \<Rightarrow> u64 \<Rightarrow> QPartsSequenceCompletion" where
  "NewSequenceCompletionFromSchedulingDecision streamId decision rnd =
     (new_completion streamId rnd (of_nat (length (Assignments decision)))
        (of_nat (decision_size decision)))\<lparr>sc_internalParts := None\<rparr>"

section \<open>The keyed store as an interface\<close>

text \<open>
  What the data plane relies on: looking up a sequence it obtained gives the same object until it
  is removed, other sequences are not affected, and an object obtained for a sequence that was not
  in the store is a new one.
\<close>

locale keyed_store =
  fixes lookup :: "'c \<Rightarrow> 'k \<Rightarrow> nat option"
    and obtain_obj :: "'k \<Rightarrow> 'c \<Rightarrow> (nat \<times> 'c) go"
    and remove :: "'k \<Rightarrow> 'c \<Rightarrow> 'c"
    and allocated :: "'c \<Rightarrow> nat"
  assumes obtain_found: "lookup c k = Some a \<Longrightarrow> obtain_obj k c = Inr (a, c)"
    and obtain_lookup: "obtain_obj k c = Inr (a, c') \<Longrightarrow> lookup c' k = Some a"
    and obtain_other: "obtain_obj k c = Inr (a, c') \<Longrightarrow> j \<noteq> k \<Longrightarrow> lookup c' j = lookup c j"
    and obtain_fresh: "obtain_obj k c = Inr (a, c') \<Longrightarrow> lookup c k = None \<Longrightarrow>
          a = allocated c \<and> allocated c' = Suc (allocated c)"
    and remove_lookup: "lookup (remove k c) j = (if j = k then None else lookup c j)"
    and remove_allocated: "allocated (remove k c) = allocated c"
begin

lemma obtain_again: "obtain_obj k c = Inr (a, c') \<Longrightarrow> obtain_obj k c' = Inr (a, c')"
  by (rule obtain_found) (rule obtain_lookup)

lemma obtain_between:
  assumes "obtain_obj k c = Inr (a, c1)" "obtain_obj j c1 = Inr (b, c2)" "j \<noteq> k"
  shows "obtain_obj k c2 = Inr (a, c2)"
proof (rule obtain_found)
  show "lookup c2 k = Some a"
    using obtain_other [OF assms(2), of k] obtain_lookup [OF assms(1)] assms(3) by simp
qed

lemma obtain_after_remove:
  assumes "obtain_obj k c = Inr (a, c1)" "a < allocated c1"
    and "obtain_obj k (remove k c1) = Inr (b, c2)"
  shows "b \<noteq> a"
  using obtain_fresh [OF assms(3)] assms(2) by (simp add: remove_lookup remove_allocated)

end

interpretation receiving: keyed_store Completions
  "\<lambda>k. GetOrCreateSequenceCompletion streamId k numParts sequenceSize" RemoveCompletion
  "\<lambda>c. length (cs_objs c)" for streamId numParts sequenceSize
  by unfold_locales
    (auto simp: GetOrCreateSequenceCompletion_def RemoveCompletion_def cs_alloc_def go_bind_eq_Inr
      split: option.splits)

interpretation sending: keyed_store Completions
  "\<lambda>k c. Inr (GetOrCreateSendingSequenceCompletion streamId k numParts sequenceSize c)" RemoveCompletion
  "\<lambda>c. length (cs_objs c)" for streamId numParts sequenceSize
  by unfold_locales
    (auto simp: GetOrCreateSendingSequenceCompletion_def RemoveCompletion_def cs_alloc_def
      split: option.splits)

section \<open>Reassembly\<close>

text \<open>The parts of a sequence with their numbers, as \<^verbatim>\<open>WriteForStream\<close> numbers them.\<close>

definition indexed :: "byte list list \<Rightarrow> (int \<times> byte list) list" where
  "indexed parts = zip (map int [0..<length parts]) parts"

text \<open>Adding received parts one after the other; the flags are the results of \<^verbatim>\<open>AddPart\<close>.\<close>

fun add_parts ::
  "(int \<times> byte list) list \<Rightarrow> QPartsSequenceCompletion \<Rightarrow> (bool list \<times> QPartsSequenceCompletion) go" where
  "add_parts [] sc = Inr ([], sc)"
| "add_parts ((i, d) # xs) sc =
     go_bind (AddPart i d sc) (\<lambda>(b, sc1).
     go_bind (add_parts xs sc1) (\<lambda>(bs, sc2). Inr (b # bs, sc2)))"

lemma in_indexed: "(i, d) \<in> set (indexed parts) \<longleftrightarrow> (\<exists>j < length parts. i = int j \<and> d = parts ! j)"
proof
  assume "\<exists>j < length parts. i = int j \<and> d = parts ! j"
  then obtain j where j: "j < length parts" "i = int j" "d = parts ! j" by blast
  then show "(i, d) \<in> set (indexed parts)"
    unfolding indexed_def set_zip by (auto intro!: exI [of _ j])
qed (auto simp: indexed_def set_zip)

lemma distinct_keys: "distinct (map fst m) \<Longrightarrow> distinct m"
  by (simp add: distinct_map)

lemma sorted_ints: "sorted (map int [0..<n])"
  by (induction n) (auto simp: sorted_append)

lemma indexed_part: "(i, d) \<in> set (indexed parts) \<Longrightarrow> d \<in> set parts"
  by (auto simp: in_indexed)

lemma fst_indexed: "map fst (indexed parts) = map int [0..<length parts]"
  by (simp add: indexed_def)

lemma distinct_indexed: "distinct (indexed parts)"
  by (rule distinct_keys) (simp add: fst_indexed distinct_map inj_on_def)

lemma indexed_functional: "(i, d) \<in> set (indexed parts) \<Longrightarrow> (i, d') \<in> set (indexed parts) \<Longrightarrow> d = d'"
  by (auto simp: in_indexed)

lemma parts_size_set: "distinct (map fst m) \<Longrightarrow> parts_size m = (\<Sum>(k, p) \<in> set m. length p)"
  by (simp add: parts_size_def sum_list_distinct_conv_sum_set distinct_keys)

lemma parts_size_indexed: "(\<Sum>(k, p) \<in> set (indexed parts). length p) = length (concat parts)"
proof -
  have "(\<Sum>(k, p) \<in> set (indexed parts). length p) = sum_list (map (\<lambda>(k, p). length p) (indexed parts))"
    by (rule sum_list_distinct_conv_sum_set [symmetric]) (rule distinct_indexed)
  also have "map (\<lambda>(k, p). length p) (indexed parts) = map length (map snd (indexed parts))"
    by (simp add: case_prod_beta comp_def)
  also have "map snd (indexed parts) = parts" by (simp add: indexed_def)
  finally show ?thesis by (simp add: length_concat)
qed

lemma set_update_functional:
  assumes "distinct (map fst m)" "\<And>d'. (k, d') \<in> set m \<Longrightarrow> d' = d"
  shows "set (AList.update k d m) = insert (k, d) (set m)"
  using assms by (induction m) (auto split: if_splits)

text \<open>The state of a completion that has received the parts \<open>R\<close> of \<open>parts\<close>.\<close>

definition received ::
  "byte list list \<Rightarrow> (int \<times> byte list) set \<Rightarrow> QPartsSequenceCompletion \<Rightarrow> bool" where
  "received parts R sc \<longleftrightarrow>
     (\<exists>m. sc_internalParts sc = Some m \<and> distinct (map fst m) \<and> set m = R)
     \<and> R \<subseteq> set (indexed parts)
     \<and> sc_SequenceSize sc = of_nat (length (concat parts))
     \<and> length (sc_Data sc) = length (concat parts)"

text \<open>A sequence the code can transfer: no part is empty and the size fits the header field.\<close>

definition transferable :: "byte list list \<Rightarrow> bool" where
  "transferable parts \<longleftrightarrow> parts \<noteq> [] \<and> [] \<notin> set parts \<and> length (concat parts) < 2 ^ 64"

lemma copy_parts_concat:
  assumes "\<And>j. j < length parts \<Longrightarrow> map_of m (int j) = Some (parts ! j)"
    and "length d = length (concat parts)" "j \<le> length parts"
    and "off = length (concat (take j parts))"
  shows "copy_parts (map int [j..<length parts]) m off d = Inr (take off d @ concat (drop j parts))"
  using assms(2-)
proof (induction "length parts - j" arbitrary: j off d)
  case 0
  then show ?case by simp
next
  case (Suc k)
  then have j: "j < length parts" by simp
  then have upt: "[j..<length parts] = j # [Suc j..<length parts]" by (simp add: upt_conv_Cons)
  have drop: "drop j parts = parts ! j # drop (Suc j) parts" using j by (simp add: Cons_nth_drop_Suc)
  have "concat parts = concat (take j parts) @ parts ! j @ concat (drop (Suc j) parts)"
    using drop by (metis append_take_drop_id concat.simps(2) concat_append)
  then have len: "length d = off + length (parts ! j) + length (concat (drop (Suc j) parts))"
    using Suc.prems by simp
  let ?d = "take off d @ go_copy (drop off d) (parts ! j)"
  have d: "?d = take off d @ parts ! j @ drop (off + length (parts ! j)) d"
    using len by (simp add: go_copy_full add.commute)
  have "off + length (parts ! j) = length (concat (take (Suc j) parts))"
    using Suc.prems j by (simp add: take_Suc_conv_app_nth)
  then have "copy_parts (map int [Suc j..<length parts]) m (off + length (parts ! j)) ?d
      = Inr (take (off + length (parts ! j)) ?d @ concat (drop (Suc j) parts))"
    using Suc j len by (intro Suc.hyps(1)) auto
  moreover have "take (off + length (parts ! j)) ?d = take off d @ parts ! j"
    unfolding d using len by simp
  ultimately show ?case
    using assms(1) [OF j] len by (simp add: upt drop)
qed

text \<open>One part arrives: the flag says whether all parts are there, and then the data are.\<close>

lemma AddPart_received:
  assumes "transferable parts" "received parts R sc" "(i, d) \<in> set (indexed parts)"
  defines "R' \<equiv> insert (i, d) R"
  shows "\<exists>sc'. AddPart i d sc = Inr (R' = set (indexed parts), sc') \<and> received parts R' sc'
     \<and> (R' = set (indexed parts) \<longrightarrow> sc_Data sc' = concat parts \<and> sc_Completed sc')"
proof -
  from assms(2) obtain m where m: "sc_internalParts sc = Some m" "distinct (map fst m)" "set m = R"
    and R: "R \<subseteq> set (indexed parts)" and size: "sc_SequenceSize sc = of_nat (length (concat parts))"
    and dlen: "length (sc_Data sc) = length (concat parts)"
    by (auto simp: received_def)
  let ?m = "AList.update i d m"
  have dm: "distinct (map fst ?m)" using m(2) by (rule AList.distinct_update)
  have "\<And>d'. (i, d') \<in> set m \<Longrightarrow> d' = d" using m(3) R assms(3) indexed_functional by blast
  with m(2) have sm: "set ?m = R'" using m(3) set_update_functional [of m i d] by (simp add: R'_def)
  then have ne: "?m \<noteq> []" by (auto simp: R'_def)
  have R': "R' \<subseteq> set (indexed parts)" using R assms(3) by (simp add: R'_def)
  have sizes: "parts_size ?m = (\<Sum>(k, p) \<in> R'. length p)" using parts_size_set [OF dm] sm by simp
  have full: "parts_size ?m = length (concat parts) \<longleftrightarrow> R' = set (indexed parts)"
  proof
    assume eq: "parts_size ?m = length (concat parts)"
    show "R' = set (indexed parts)"
    proof (rule ccontr)
      assume "R' \<noteq> set (indexed parts)"
      with R' obtain x where x: "x \<in> set (indexed parts) - R'" by blast
      then have "0 < (case x of (k, p) \<Rightarrow> length p)"
        using assms(1) indexed_part by (cases x) (fastforce simp: transferable_def)
      then have "(\<Sum>(k, p) \<in> R'. length p) < (\<Sum>(k, p) \<in> set (indexed parts). length p)"
        using R' x by (intro sum_strict_mono2 [where b = x]) auto
      with eq sizes show False by (simp add: parts_size_indexed)
    qed
  qed (simp add: sizes parts_size_indexed)
  have "parts_size ?m \<le> length (concat parts)"
    unfolding sizes parts_size_indexed [symmetric] using R' by (intro sum_mono2) auto
  then have eq: "(of_nat (parts_size ?m) :: goint) = of_nat (length (concat parts))
      \<longleftrightarrow> R' = set (indexed parts)"
    using assms(1) full of_nat_word_eq [of "parts_size ?m" "length (concat parts)", where 'a = 64]
    by (simp add: transferable_def)
  let ?sc = "sc\<lparr>sc_CompletedParts := sc_CompletedParts sc + 1, sc_internalParts := Some ?m\<rparr>"
  have compl: "IsComplete ?sc \<longleftrightarrow> R' = set (indexed parts)"
    using ne eq size by (simp add: IsComplete_def)
  show ?thesis
  proof (cases "R' = set (indexed parts)")
    case True
    have keys: "sort (map fst ?m) = map int [0..<length parts]"
    proof (rule sorted_distinct_set_unique)
      have "set (map fst ?m) = set (map fst (indexed parts))" by (simp add: sm True)
      then show "set (sort (map fst ?m)) = set (map int [0..<length parts])"
        by (simp add: fst_indexed)
    qed (use dm sorted_ints in \<open>auto simp: distinct_map inj_on_def\<close>)
    have "map_of ?m (int j) = Some (parts ! j)" if "j < length parts" for j
      using that dm by (intro map_of_is_SomeI) (auto simp: sm True in_indexed)
    then have "copy_parts (map int [0..<length parts]) ?m 0 (sc_Data sc) = Inr (concat parts)"
      using copy_parts_concat [of parts ?m "sc_Data sc" 0 0] dlen by simp
    with compl True m keys have "AddPart i d sc =
        Inr (True, ?sc\<lparr>sc_Data := concat parts, sc_Completed := True\<rparr>)"
      by (simp add: AddPart_def Let_def)
    with True dm sm size show ?thesis by (auto simp: received_def)
  next
    case False
    with compl m have "AddPart i d sc = Inr (False, ?sc)" by (simp add: AddPart_def Let_def)
    with False dm sm size dlen R' show ?thesis by (auto simp: received_def)
  qed
qed

lemma add_parts_received:
  assumes "transferable parts" "received parts R sc" "set arr \<subseteq> set (indexed parts)"
  shows "\<exists>sc'. add_parts arr sc =
       Inr (map (\<lambda>j. R \<union> set (take (j + 1) arr) = set (indexed parts)) [0..<length arr], sc')
     \<and> received parts (R \<union> set arr) sc'
     \<and> (arr \<noteq> [] \<and> R \<union> set arr = set (indexed parts) \<longrightarrow> sc_Data sc' = concat parts)"
  using assms(2,3)
proof (induction arr arbitrary: R sc)
  case (Cons x arr)
  obtain i d where x: "x = (i, d)" by (cases x)
  from Cons.prems(2) x have "(i, d) \<in> set (indexed parts)" by simp
  from AddPart_received [OF assms(1) Cons.prems(1) this] obtain sc1 where
    sc1: "AddPart i d sc = Inr (insert (i, d) R = set (indexed parts), sc1)"
      "received parts (insert (i, d) R) sc1"
      "insert (i, d) R = set (indexed parts) \<longrightarrow> sc_Data sc1 = concat parts"
    by blast
  from Cons.IH [OF sc1(2)] Cons.prems(2) obtain sc' where
    sc': "add_parts arr sc1 =
       Inr (map (\<lambda>j. insert (i, d) R \<union> set (take (j + 1) arr) = set (indexed parts)) [0..<length arr], sc')"
      "received parts (insert (i, d) R \<union> set arr) sc'"
      "arr \<noteq> [] \<and> insert (i, d) R \<union> set arr = set (indexed parts) \<longrightarrow> sc_Data sc' = concat parts"
    by auto
  have "[0..<length (x # arr)] = 0 # map Suc [0..<length arr]"
    by (simp add: upt_conv_Cons map_Suc_upt del: upt_Suc)
  with x sc1 sc' show ?case by (cases "arr = []") (auto simp: comp_def)
qed simp

text \<open>A completion made for the first header of a sequence has received nothing.\<close>

lemma fresh_received:
  assumes "transferable parts" "length (concat parts) \<le> maxAlloc" "Completions cs seq = None"
  obtains cs' where
    "GetOrCreateSequenceCompletion sid seq np (of_nat (length (concat parts))) cs
       = Inr (length (cs_objs cs), cs')"
    "received parts {} (cs_objs cs' ! length (cs_objs cs))"
    "Completions cs' = (Completions cs)(seq \<mapsto> length (cs_objs cs))"
    "\<exists>sc. cs_objs cs' = cs_objs cs @ [sc]"
proof -
  have "unat (of_nat (length (concat parts)) :: u64) = length (concat parts)"
    using assms(1) by (simp add: transferable_def unat_of_nat_small)
  with assms show thesis
    by (intro that) (auto simp: GetOrCreateSequenceCompletion_def go_make_def cs_alloc_def
        received_def new_completion_def Let_def)
qed

section \<open>Properties\<close>

text \<open>C6: Reassembly: when the parts of a sequence are added in any order, with any repetitions, to the
  completion made for its first header, no addition panics, and \<^verbatim>\<open>AddPart\<close> reports completion from
  the first call on by which every part has arrived at least once, and never before; the data is then
  the sequence.\<close>

theorem reassembly_any_order:
  assumes "transferable parts" "length (concat parts) \<le> maxAlloc" "Completions cs seq = None"
    and "set arr \<subseteq> set (indexed parts)"
  shows "\<exists>a cs' sc'. GetOrCreateSequenceCompletion sid seq np (of_nat (length (concat parts))) cs = Inr (a, cs')
     \<and> add_parts arr (cs_objs cs' ! a) =
         Inr (map (\<lambda>j. set (take (j + 1) arr) = set (indexed parts)) [0..<length arr], sc')
     \<and> (arr \<noteq> [] \<and> set arr = set (indexed parts) \<longrightarrow> sc_Data sc' = concat parts)"
proof -
  obtain cs' where c: "GetOrCreateSequenceCompletion sid seq np (of_nat (length (concat parts))) cs
       = Inr (length (cs_objs cs), cs')" "received parts {} (cs_objs cs' ! length (cs_objs cs))"
    using fresh_received [OF assms(1-3)] by blast
  from add_parts_received [OF assms(1) c(2) assms(4)] c(1) show ?thesis by fastforce
qed

theorem reassembly_any_order_witness:
  "\<exists>a cs' sc'. GetOrCreateSequenceCompletion 1 2 2 3 NewCompletionStore = Inr (a, cs')
     \<and> add_parts [(1, [9]), (1, [9]), (0, [7, 8])] (cs_objs cs' ! a) = Inr ([False, False, True], sc')
     \<and> sc_Data sc' = [7, 8, 9]"
proof -
  have i: "indexed [[7, 8], [9]] = [(0, [7, 8]), (1, [9])]" by (simp add: indexed_def)
  have t: "transferable [[7, 8], [9]]" by (simp add: transferable_def)
  have u: "[0..<length [(1 :: int, [9 :: byte]), (1, [9]), (0, [7, 8])]] = [0, 1, 2]" by (simp add: upt_rec)
  from reassembly_any_order [OF t, of NewCompletionStore 2 "[(1, [9]), (1, [9]), (0, [7, 8])]" 1 2]
  show ?thesis unfolding u by (auto simp: i maxAlloc_def NewCompletionStore_def)
qed

text \<open>The completion store on the receiving side: the header of a sequence that is being received
  finds its object whatever other sequences were started meanwhile, an object made after the
  sequence was removed is a different one, and other sequences keep their objects.\<close>

theorem completion_store_laws:
  assumes "GetOrCreateSequenceCompletion sid k np sz cs = Inr (a, cs1)"
  shows "GetOrCreateSequenceCompletion sid' k np' sz' cs1 = Inr (a, cs1)
     \<and> (j \<noteq> k \<longrightarrow> Completions cs1 j = Completions cs j)
     \<and> (GetOrCreateSequenceCompletion sid' j np' sz' cs1 = Inr (b, cs2) \<and> j \<noteq> k \<longrightarrow>
          GetOrCreateSequenceCompletion sid k np sz cs2 = Inr (a, cs2))
     \<and> (GetOrCreateSequenceCompletion sid k np sz (RemoveCompletion k cs1) = Inr (b, cs2) \<and> a < length (cs_objs cs1)
          \<longrightarrow> b \<noteq> a)"
proof (intro conjI impI)
  have a: "Completions cs1 k = Some a" by (rule receiving.obtain_lookup [OF assms])
  then show "GetOrCreateSequenceCompletion sid' k np' sz' cs1 = Inr (a, cs1)"
    by (rule receiving.obtain_found)
  show "Completions cs1 j = Completions cs j" if "j \<noteq> k"
    by (rule receiving.obtain_other [OF assms that])
  show "GetOrCreateSequenceCompletion sid k np sz cs2 = Inr (a, cs2)"
    if "GetOrCreateSequenceCompletion sid' j np' sz' cs1 = Inr (b, cs2) \<and> j \<noteq> k"
  proof (rule receiving.obtain_found)
    from that have "Completions cs2 k = Completions cs1 k"
      by (intro receiving.obtain_other [where k = j]) auto
    with a show "Completions cs2 k = Some a" by simp
  qed
  show "b \<noteq> a" if "GetOrCreateSequenceCompletion sid k np sz (RemoveCompletion k cs1) = Inr (b, cs2)
      \<and> a < length (cs_objs cs1)"
    using receiving.obtain_after_remove [OF assms] that by blast
qed

theorem completion_store_laws_witness:
  "\<exists>a cs1. GetOrCreateSequenceCompletion 1 5 2 3 NewCompletionStore = Inr (a, cs1)
     \<and> GetOrCreateSequenceCompletion 1 5 9 9 cs1 = Inr (a, cs1)"
proof -
  obtain a cs1 where c: "GetOrCreateSequenceCompletion 1 5 2 3 NewCompletionStore = Inr (a, cs1)"
    by (simp add: GetOrCreateSequenceCompletion_def NewCompletionStore_def go_make_def maxAlloc_def
        cs_alloc_def Let_def)
  from c completion_store_laws [OF c, of 1 9 9] show ?thesis by blast
qed

text \<open>C24: What a peer can do to the receiving side: the first header of a sequence that announces more
  than the allocator can give panics the process; and a data packet that carries the number of a
  sequence this side is sending finds the sender's completion, whose map of parts was never made, so
  that adding its payload panics.\<close>

theorem peer_can_panic:
  "(Completions cs seq = None \<and> maxAlloc < unat sz \<longrightarrow>
      GetOrCreateSequenceCompletion sid seq np sz cs = Inl MakeSliceLen)
   \<and> (cs_alloc (NewSequenceCompletionFromSchedulingDecision sid d seq) cs = (a, cs1) \<longrightarrow>
      GetOrCreateSequenceCompletion sid' seq np sz (AddCompletion a cs1) = Inr (a, AddCompletion a cs1)
      \<and> AddPart i payload (cs_objs (AddCompletion a cs1) ! a) = Inl NilMapWrite)"
proof (intro conjI impI)
  let ?sc = "NewSequenceCompletionFromSchedulingDecision sid d seq"
  assume c: "cs_alloc ?sc cs = (a, cs1)"
  have sc: "sc_SequenceId ?sc = seq" "sc_internalParts ?sc = None"
    by (simp_all add: NewSequenceCompletionFromSchedulingDecision_def new_completion_def)
  have o: "cs_objs cs1 ! a = ?sc" using c by (auto simp: cs_alloc_def)
  show "GetOrCreateSequenceCompletion sid' seq np sz (AddCompletion a cs1) = Inr (a, AddCompletion a cs1)"
    by (simp add: GetOrCreateSequenceCompletion_def AddCompletion_def o sc)
  show "AddPart i payload (cs_objs (AddCompletion a cs1) ! a) = Inl NilMapWrite"
    by (simp add: AddPart_def AddCompletion_def o sc)
qed (simp add: GetOrCreateSequenceCompletion_def go_make_def)

theorem peer_can_panic_witness:
  "GetOrCreateSequenceCompletion 1 2 3 (2 ^ 63) NewCompletionStore = Inl MakeSliceLen"
proof -
  have "Completions NewCompletionStore 2 = None" "maxAlloc < unat (2 ^ 63 :: u64)"
    by (simp_all add: NewCompletionStore_def maxAlloc_def)
  with peer_can_panic [of NewCompletionStore 2 "2 ^ 63" 1 3] show ?thesis by blast
qed

end
