(* ===== verification/Dataplane.thy ===== *)
theory Dataplane
  imports PacketCodec Buffers QuicConn Completion
begin

text \<open>
  \<^verbatim>\<open>qparts_dataplane.go\<close>: the data plane streams, \<^verbatim>\<open>WriteForStream\<close>, and the bodies of the write
  and read loops.  One goroutine runs each loop of each stream.  A step of the model is one pass
  through the body of a write loop, and half a pass of a read loop: up to the point where the header
  is decoded and the completion looked up, and from there on; so that the passes of different read
  loops interleave at the point where they wait for the payload.
\<close>

section \<open>State\<close>

text \<open>A \<^verbatim>\<open>PartsStream\<close>; deadlines are points in time, 0 the zero \<^verbatim>\<open>time.Time\<close>, and \<open>ps_conn\<close>
  says that the pointer to the connection is set.\<close>

record PartsStream =
  ps_Id :: u64
  ps_ReadBuffer :: PacketBuffer
  ps_conn :: bool
  ps_Preference :: u32
  ps_readDeadline :: int
  ps_writeDeadline :: int
  ps_deadline :: int
  ps_deadlineSet :: bool

text \<open>\<open>'s\<close> is the state of a QUIC stream, \<open>'addr\<close> an address, \<open>'path\<close> a path.\<close>

record ('addr, 'path, 's) QPartsDataplaneStream =
  ds_ssqc :: 's
  ds_PartsPath :: "'path option"
  ds_Queue :: "'addr DataAssignment Queue"
  ds_StreamType :: u32
  ds_OptimalPartSize :: goint

record ('addr, 'path, 's) QPartsDataplane =
  dpl_Streams :: "u64 \<rightharpoonup> ('addr, 'path, 's) QPartsDataplaneStream"
  dpl_QPartsStreams :: "u64 \<rightharpoonup> PartsStream"
  dpl_completionStore :: CompletionStore
  dpl_partsSize :: goint

definition PARTS_MSG_DATA :: u32 where "PARTS_MSG_DATA = 1"
definition PARTS_MSG_HS :: u32 where "PARTS_MSG_HS = 2"
definition PARTS_MSG_ACK :: u32 where "PARTS_MSG_ACK = 3"
definition PARTS_MSG_RT :: u32 where "PARTS_MSG_RT = 4"
definition PARTS_MSG_ACK_CT :: u32 where "PARTS_MSG_ACK_CT = 5"
definition PARTS_MSG_STREAM_HS :: u32 where "PARTS_MSG_STREAM_HS = 6"
definition PARTS_MSG_STREAM_PROPERTY :: u32 where "PARTS_MSG_STREAM_PROPERTY = 7"

definition NewQPartsDataplane :: "(u64 \<rightharpoonup> PartsStream) \<Rightarrow> ('addr, 'path, 's) QPartsDataplane" where
  "NewQPartsDataplane partsStreams =
     \<lparr>dpl_Streams = Map.empty, dpl_QPartsStreams = partsStreams,
      dpl_completionStore = NewCompletionStore, dpl_partsSize = 1000024\<rparr>"

definition dpl_GetStream ::
  "u64 \<Rightarrow> ('addr, 'path, 's) QPartsDataplane \<Rightarrow> ('addr, 'path, 's) QPartsDataplaneStream option" where
  "dpl_GetStream k dp = dpl_Streams dp k"

definition AddDialStream ::
  "u64 \<Rightarrow> 's \<Rightarrow> 'path option \<Rightarrow> ('addr, 'path, 's) QPartsDataplane \<Rightarrow> ('addr, 'path, 's) QPartsDataplane" where
  "AddDialStream k ssqc path dp = dp\<lparr>dpl_Streams := (dpl_Streams dp)(k \<mapsto>
     \<lparr>ds_ssqc = ssqc, ds_PartsPath = path, ds_Queue = NewQueue, ds_StreamType = 0,
      ds_OptimalPartSize = 0\<rparr>)\<rparr>"

definition AddListenStream ::
  "u64 \<Rightarrow> 's \<Rightarrow> ('addr, 'path, 's) QPartsDataplane \<Rightarrow> ('addr, 'path, 's) QPartsDataplane" where
  "AddListenStream k ssqc dp = dp\<lparr>dpl_Streams := (dpl_Streams dp)(k \<mapsto>
     \<lparr>ds_ssqc = ssqc, ds_PartsPath = None, ds_Queue = NewQueue, ds_StreamType = 0,
      ds_OptimalPartSize = 0\<rparr>)\<rparr>"

definition set_stream ::
  "u64 \<Rightarrow> ('addr, 'path, 's) QPartsDataplaneStream \<Rightarrow> ('addr, 'path, 's) QPartsDataplane
     \<Rightarrow> ('addr, 'path, 's) QPartsDataplane" where
  "set_stream k st dp = dp\<lparr>dpl_Streams := (dpl_Streams dp)(k \<mapsto> st)\<rparr>"

definition set_ssqc ::
  "u64 \<Rightarrow> 's \<Rightarrow> ('addr, 'path, 's) QPartsDataplane \<Rightarrow> ('addr, 'path, 's) QPartsDataplane" where
  "set_ssqc k s dp = dp\<lparr>dpl_Streams :=
     (dpl_Streams dp)(k := map_option (\<lambda>st. st\<lparr>ds_ssqc := s\<rparr>) (dpl_Streams dp k))\<rparr>"

section \<open>\<^verbatim>\<open>WriteForStream\<close>\<close>

text \<open>The loop over the assignments: number the part, queue it, count its bytes.\<close>

fun enqueue_parts ::
  "'addr DataAssignment list \<Rightarrow> nat \<Rightarrow> nat \<Rightarrow> QPartsSequenceCompletion \<Rightarrow> u64 \<Rightarrow> nat
     \<Rightarrow> ('addr, 'path, 's) QPartsDataplane \<Rightarrow> (nat \<times> ('addr, 'path, 's) QPartsDataplane) go" where
  "enqueue_parts [] i num compl sid sentBytes dp = Inr (sentBytes, dp)"
| "enqueue_parts (da # das) i num compl sid sentBytes dp =
     (let da' = da\<lparr>da_NumParts := of_nat num, da_SequenceId := sc_SequenceId compl,
                   da_PartId := of_nat i, da_SequenceSize := sc_SequenceSize compl,
                   da_StreamId := sid\<rparr> in
      case da_DataplaneStream da' of
        None \<Rightarrow> Inl NilDereference
      | Some k \<Rightarrow>
          (case dpl_Streams dp k of
             None \<Rightarrow> Inl NilDereference
           | Some st \<Rightarrow>
               enqueue_parts das (i + 1) num compl sid (sentBytes + length (da_Data da'))
                 (set_stream k (st\<lparr>ds_Queue := Queue_Add (ds_Queue st) da'\<rparr>) dp)))"

text \<open>Up to the receive from \<^verbatim>\<open>CompleteChan\<close>: the completion waited for, the byte count to be
  returned, and the new state.  \<open>rnd\<close> is the random sequence number.\<close>

definition WriteForStream ::
  "'addr SchedulingDecision \<Rightarrow> u64 \<Rightarrow> u64 \<Rightarrow> ('addr, 'path, 's) QPartsDataplane
     \<Rightarrow> (nat \<times> nat \<times> ('addr, 'path, 's) QPartsDataplane) go" where
  "WriteForStream decision sid rnd dp =
     (let compl = NewSequenceCompletionFromSchedulingDecision sid decision rnd;
          (a, store) = cs_alloc compl (dpl_completionStore dp);
          dp1 = dp\<lparr>dpl_completionStore := AddCompletion a store\<rparr>
      in go_bind (enqueue_parts (Assignments decision) 0 (length (Assignments decision)) compl sid 0 dp1)
           (\<lambda>(sentBytes, dp2). Inr (a, sentBytes, dp2)))"

text \<open>\<open>WriteForStream\<close> returns once the completion has been signalled.\<close>

definition WriteForStream_returns :: "nat \<Rightarrow> ('addr, 'path, 's) QPartsDataplane \<Rightarrow> bool" where
  "WriteForStream_returns a dp \<longleftrightarrow> sc_CompleteChan (cs_objs (dpl_completionStore dp) ! a)"

section \<open>The write loop\<close>

datatype 'x loop_result = Waits | Panics go_fault | Goes 'x

definition update_obj :: "nat \<Rightarrow> QPartsSequenceCompletion \<Rightarrow> CompletionStore \<Rightarrow> CompletionStore" where
  "update_obj a sc cs = cs\<lparr>cs_objs := (cs_objs cs)[a := sc]\<rparr>"

definition data_header :: "'addr DataAssignment \<Rightarrow> QPartsSequenceCompletion \<Rightarrow> QPartsDataplanePacket" where
  "data_header da compl = NewQPartsDataplanePacket
     \<lparr>dp_Flags := PARTS_MSG_DATA, dp_StreamId := da_StreamId da,
      dp_SequenceId := sc_SequenceId compl, dp_PartId := da_PartId da,
      dp_SequenceSize := sc_SequenceSize compl, dp_NumParts := da_NumParts da,
      dp_PartSize := of_nat (length (da_Data da))\<rparr>"

text \<open>After the payload was written: count the part and signal the last one.\<close>

definition finish_part ::
  "nat \<Rightarrow> ('addr, 'path, 's) QPartsDataplane \<Rightarrow> ('addr, 'path, 's) QPartsDataplane" where
  "finish_part a dp =
     (let store = dpl_completionStore dp;
          (completed, sc) = AddSendingPart (cs_objs store ! a)
      in if completed
         then dp\<lparr>dpl_completionStore :=
                RemoveCompletion (sc_SequenceId sc) (update_obj a (sc\<lparr>sc_CompleteChan := True\<rparr>) store)\<rparr>
         else dp\<lparr>dpl_completionStore := update_obj a sc store\<rparr>)"

definition writeLoop ::
  "'s qwrite \<Rightarrow> u64 \<Rightarrow> ('addr, 'path, 's) QPartsDataplane \<Rightarrow> ('addr, 'path, 's) QPartsDataplane loop_result" where
  "writeLoop wr k dp =
     (case dpl_Streams dp k of None \<Rightarrow> Waits | Some st \<Rightarrow>
     (case Queue_Get (ds_Queue st) of None \<Rightarrow> Waits | Some (da, q) \<Rightarrow>
      let dp1 = set_stream k (st\<lparr>ds_Queue := q\<rparr>) dp;
          (a, store) = GetOrCreateSendingSequenceCompletion (da_StreamId da) (da_SequenceId da)
                         (da_NumParts da) (da_SequenceSize da) (dpl_completionStore dp1);
          dp2 = dp1\<lparr>dpl_completionStore := store\<rparr>
      in case dp_Encode (data_header da (cs_objs store ! a)) of Inl e \<Rightarrow> Panics e | Inr pkt \<Rightarrow>
         (case da_DataplaneStream da of None \<Rightarrow> Panics NilDereference | Some t \<Rightarrow>
         (case dpl_Streams dp2 t of None \<Rightarrow> Panics NilDereference | Some ts \<Rightarrow>
         (case WriteAll wr (ds_ssqc ts) (dp_Data pkt) of None \<Rightarrow> Waits | Some (n, err, s1) \<Rightarrow>
          if err \<noteq> None \<or> n = 0 then Goes (set_ssqc t s1 dp2)
          else
            (case WriteAll wr s1 (da_Data da) of None \<Rightarrow> Waits | Some (n, err, s2) \<Rightarrow>
             if err \<noteq> None \<or> n = 0 then Goes (set_ssqc t s2 dp2)
             else Goes (finish_part a (set_ssqc t s2 dp2))))))))"

text \<open>Write loops taking turns; a turn of a goroutine that waits changes nothing.\<close>

fun run_writers ::
  "'s qwrite \<Rightarrow> u64 list \<Rightarrow> ('addr, 'path, 's) QPartsDataplane \<Rightarrow> ('addr, 'path, 's) QPartsDataplane go" where
  "run_writers wr [] dp = Inr dp"
| "run_writers wr (k # ks) dp =
     (case writeLoop wr k dp of
        Waits \<Rightarrow> run_writers wr ks dp
      | Panics e \<Rightarrow> Inl e
      | Goes dp' \<Rightarrow> run_writers wr ks dp')"

section \<open>The read loop\<close>

text \<open>Up to the completion: the decoded header and the completion object, or nothing when the
  loop starts over.\<close>

definition readLoop_header ::
  "'s qread \<Rightarrow> u64 \<Rightarrow> ('addr, 'path, 's) QPartsDataplane
     \<Rightarrow> (('addr, 'path, 's) QPartsDataplane \<times> (QPartsDataplanePacket \<times> nat) option) loop_result" where
  "readLoop_header rd k dp =
     (case dpl_Streams dp k of None \<Rightarrow> Waits | Some st \<Rightarrow>
     (let pkt = NewQPartsDataplanePacket in
      case ReadAll rd (ds_ssqc st) (length (dp_Data pkt)) of None \<Rightarrow> Waits | Some (got, err, s1) \<Rightarrow>
      let dp1 = set_ssqc k s1 dp in
      if err \<noteq> None \<or> got = [] then Goes (dp1, None)
      else
        (case dp_Decode (pkt\<lparr>dp_Data := go_copy (dp_Data pkt) got\<rparr>) of Inl e \<Rightarrow> Panics e | Inr pkt \<Rightarrow>
        (case GetOrCreateSequenceCompletion (dp_StreamId pkt) (dp_SequenceId pkt) (dp_NumParts pkt)
                (dp_SequenceSize pkt) (dpl_completionStore dp1) of
           Inl e \<Rightarrow> Panics e
         | Inr (a, store) \<Rightarrow> Goes (dp1\<lparr>dpl_completionStore := store\<rparr>, Some (pkt, a))))))"

definition readLoop_payload ::
  "'s qread \<Rightarrow> u64 \<Rightarrow> QPartsDataplanePacket \<times> nat \<Rightarrow> ('addr, 'path, 's) QPartsDataplane
     \<Rightarrow> ('addr, 'path, 's) QPartsDataplane loop_result" where
  "readLoop_payload rd k = (\<lambda>(pkt, a) dp.
     (case dpl_Streams dp k of None \<Rightarrow> Waits | Some st \<Rightarrow>
     (case go_make (dp_PartSize pkt) of Inl e \<Rightarrow> Panics e | Inr buf \<Rightarrow>
     (case ReadAll rd (ds_ssqc st) (length buf) of None \<Rightarrow> Waits | Some (got, err, s1) \<Rightarrow>
      let dp1 = set_ssqc k s1 dp in
      if err \<noteq> None \<or> got = [] then Goes dp1
      else
        let store = dpl_completionStore dp1 in
        (case AddPart (sint (dp_PartId pkt)) (go_copy buf got) (cs_objs store ! a) of
           Inl e \<Rightarrow> Panics e
         | Inr (isComplete, sc) \<Rightarrow>
             let store1 = update_obj a sc store in
             if isComplete then
               let dp2 = dp1\<lparr>dpl_completionStore := RemoveCompletion (dp_SequenceId pkt) store1\<rparr> in
               (case dpl_QPartsStreams dp2 (dp_StreamId pkt) of
                  None \<Rightarrow> Panics NilDereference
                | Some s \<Rightarrow>
                    Goes (dp2\<lparr>dpl_QPartsStreams := (dpl_QPartsStreams dp2)(dp_StreamId pkt \<mapsto>
                      s\<lparr>ps_ReadBuffer := pb_Append (ps_ReadBuffer s) (sc_Data sc)\<rparr>)\<rparr>))
             else Goes (dp1\<lparr>dpl_completionStore := store1\<rparr>))))))"

text \<open>
  The read loops together: what each goroutine holds between its two steps, and a schedule of
  turns.  A turn of a goroutine that waits changes nothing.
\<close>

type_synonym held = "u64 \<rightharpoonup> QPartsDataplanePacket \<times> nat"

definition readLoop ::
  "'s qread \<Rightarrow> u64 \<Rightarrow> ('addr, 'path, 's) QPartsDataplane \<times> held
     \<Rightarrow> (('addr, 'path, 's) QPartsDataplane \<times> held) loop_result" where
  "readLoop rd k = (\<lambda>(dp, held).
     (case held k of
        None \<Rightarrow>
          (case readLoop_header rd k dp of
             Waits \<Rightarrow> Waits | Panics e \<Rightarrow> Panics e
           | Goes (dp', h) \<Rightarrow> Goes (dp', held(k := h)))
      | Some h \<Rightarrow>
          (case readLoop_payload rd k h dp of
             Waits \<Rightarrow> Waits | Panics e \<Rightarrow> Panics e
           | Goes dp' \<Rightarrow> Goes (dp', held(k := None)))))"

fun run_readers ::
  "'s qread \<Rightarrow> u64 list \<Rightarrow> ('addr, 'path, 's) QPartsDataplane \<times> held
     \<Rightarrow> (('addr, 'path, 's) QPartsDataplane \<times> held) go" where
  "run_readers rd [] c = Inr c"
| "run_readers rd (k # ks) c =
     (case readLoop rd k c of
        Waits \<Rightarrow> run_readers rd ks c
      | Panics e \<Rightarrow> Inl e
      | Goes c' \<Rightarrow> run_readers rd ks c')"

end
