(* ===== verification/Delivery.thy ===== *)
theory Delivery
  imports Dataplane
begin

text \<open>
  What the loops of the data plane achieve together.  A sequence is a list of parts; every part
  travels as one frame (header and payload) on one stream.  The writers put the frames of their
  queues on the wire and signal the last part; the readers, in any interleaving, put the parts
  together and append the sequence to the stream's read buffer once.
\<close>

section \<open>Frames\<close>

definition part_header :: "u64 \<Rightarrow> u64 \<Rightarrow> byte list list \<Rightarrow> int \<Rightarrow> byte list \<Rightarrow> QPartsDataplanePacket" where
  "part_header sid seq parts i d = NewQPartsDataplanePacket
     \<lparr>dp_Flags := PARTS_MSG_DATA, dp_StreamId := sid, dp_SequenceId := seq, dp_PartId := of_int i,
      dp_SequenceSize := of_nat (length (concat parts)), dp_NumParts := of_nat (length parts),
      dp_PartSize := of_nat (length d)\<rparr>"

definition frame :: "u64 \<Rightarrow> u64 \<Rightarrow> byte list list \<Rightarrow> int \<times> byte list \<Rightarrow> byte list" where
  "frame sid seq parts = (\<lambda>(i, d). dp_wire (part_header sid seq parts i d) @ d)"

definition frames :: "u64 \<Rightarrow> u64 \<Rightarrow> byte list list \<Rightarrow> (int \<times> byte list) list \<Rightarrow> byte list" where
  "frames sid seq parts xs = concat (map (frame sid seq parts) xs)"

definition wire_header :: "u64 \<Rightarrow> u64 \<Rightarrow> byte list list \<Rightarrow> int \<Rightarrow> byte list \<Rightarrow> QPartsDataplanePacket" where
  "wire_header sid seq parts i d = (part_header sid seq parts i d)
     \<lparr>dp_Data := dp_wire (part_header sid seq parts i d)\<rparr>"

lemma frames_Cons [simp]:
  "frames sid seq parts ((i, d) # xs) = dp_wire (part_header sid seq parts i d) @ d @ frames sid seq parts xs"
  "frames sid seq parts [] = []"
  by (simp_all add: frames_def frame_def)

lemma length_NewPacket [simp]: "length (dp_Data NewQPartsDataplanePacket) = 52"
  by (simp add: NewQPartsDataplanePacket_def)

lemma dp_wire_nonempty [simp]: "dp_wire p \<noteq> []"
  by (metis dp_wire_length list.size(3) zero_neq_numeral)

lemma decode_frame_header:
  "dp_Decode (NewQPartsDataplanePacket
     \<lparr>dp_Data := go_copy (dp_Data NewQPartsDataplanePacket) (dp_wire (part_header sid seq parts i d))\<rparr>)
     = Inr (wire_header sid seq parts i d)"
  by (simp add: dp_Decode_wire wire_header_def go_copy_full)

lemma wire_header_sel [simp]:
  "dp_StreamId (wire_header sid seq parts i d) = sid"
  "dp_SequenceId (wire_header sid seq parts i d) = seq"
  "dp_NumParts (wire_header sid seq parts i d) = of_nat (length parts)"
  "dp_SequenceSize (wire_header sid seq parts i d) = of_nat (length (concat parts))"
  "dp_PartId (wire_header sid seq parts i d) = of_int i"
  "dp_PartSize (wire_header sid seq parts i d) = of_nat (length d)"
  by (simp_all add: wire_header_def part_header_def)

lemma set_ssqc_Streams:
  "dpl_Streams dp k = Some st \<Longrightarrow> dpl_Streams (set_ssqc k s dp) = (dpl_Streams dp)(k \<mapsto> st\<lparr>ds_ssqc := s\<rparr>)"
  by (simp add: set_ssqc_def)

lemma set_ssqc_rest [simp]:
  "dpl_completionStore (set_ssqc k s dp) = dpl_completionStore dp"
  "dpl_QPartsStreams (set_ssqc k s dp) = dpl_QPartsStreams dp"
  by (simp_all add: set_ssqc_def)

text \<open>Sequences small enough to be allocated by the receiver.\<close>

definition sendable :: "byte list list \<Rightarrow> bool" where
  "sendable parts \<longleftrightarrow> parts \<noteq> [] \<and> [] \<notin> set parts \<and> length (concat parts) \<le> maxAlloc"

lemma length_le_concat: "[] \<notin> set parts \<Longrightarrow> length parts \<le> length (concat parts)"
proof (induction parts)
  case (Cons p parts)
  then show ?case by (cases p) auto
qed simp

lemma length_part_le: "d \<in> set parts \<Longrightarrow> length d \<le> length (concat parts)"
  by (induction parts) auto

lemma sendable_transferable: "sendable parts \<Longrightarrow> transferable parts"
  by (simp add: sendable_def transferable_def maxAlloc_def)

lemma sendable_bounds:
  assumes "sendable parts" "(i, d) \<in> set (indexed parts)"
  shows "sint (of_int i :: u64) = i" "unat (of_nat (length d) :: u64) = length d"
    "length d \<le> maxAlloc" "d \<noteq> []"
proof -
  from assms obtain j where j: "j < length parts" "i = int j" "d = parts ! j" by (auto simp: in_indexed)
  have le: "length d \<le> maxAlloc" "j < maxAlloc"
    using assms(1) j length_part_le [of d parts] length_le_concat [of parts]
    by (auto simp: sendable_def)
  then show "length d \<le> maxAlloc" "unat (of_nat (length d) :: u64) = length d"
    by (auto simp: maxAlloc_def intro!: unat_of_nat_small)
  show "sint (of_int i :: u64) = i"
    using sint_of_nat_small [of j, where 'a = 64] le(2) j(2) by (simp add: maxAlloc_def)
  have "d \<in> set parts" using j by simp
  then show "d \<noteq> []" using assms(1) by (auto simp: sendable_def)
qed

section \<open>The readers\<close>

text \<open>A stream with nothing pending blocks its reader.\<close>

definition stream_blocks :: "'s qread \<Rightarrow> ('s \<Rightarrow> byte list) \<Rightarrow> bool" where
  "stream_blocks rd pend \<longleftrightarrow> (\<forall>s n. 0 < n \<and> pend s = [] \<longrightarrow> rd s n = None)"

lemma ReadAll_blocks:
  "stream_blocks rd pend \<Longrightarrow> pend s = [] \<Longrightarrow> 0 < n \<Longrightarrow> ReadAll rd s n = None"
  by (simp add: ReadAll_def stream_blocks_def read_at_least.simps)

text \<open>A read of more bytes than are pending waits.\<close>

lemma read_at_least_waits:
  assumes "stream_delivers rd pend" "stream_blocks rd pend" "length got + length (pend s) < n"
  shows "read_at_least rd s n got = None"
  using assms(3)
proof (induction "length (pend s)" arbitrary: got s rule: less_induct)
  case less
  show ?case
  proof (cases "pend s = []")
    case True
    then have "rd s (n - length got) = None" using assms(2) less.prems by (simp add: stream_blocks_def)
    then show ?thesis using less.prems by (subst read_at_least.simps) simp
  next
    case False
    from less.prems have "0 < n - length got" by simp
    from assms(1) this False obtain k s' where k: "0 < k" "k \<le> n - length got" "k \<le> length (pend s)"
      "rd s (n - length got) = Some (take k (pend s), None, s')" "pend s' = drop k (pend s)"
      by (rule stream_deliversE)
    then have "read_at_least rd s' n (got @ take k (pend s)) = None" using less.prems by (intro less.hyps) simp_all
    with k(4) less.prems show ?thesis by (subst read_at_least.simps) simp
  qed
qed

lemma ReadAll_waits:
  "stream_delivers rd pend \<Longrightarrow> stream_blocks rd pend \<Longrightarrow> length (pend s) < n \<Longrightarrow> ReadAll rd s n = None"
  using read_at_least_waits [of rd pend "[]" s n] by (simp add: ReadAll_def)

text \<open>\<open>G k\<close>: the frames of stream \<open>k\<close> whose parts have not been added yet.\<close>

definition plan :: "byte list list \<Rightarrow> u64 set \<Rightarrow> (u64 \<Rightarrow> (int \<times> byte list) list) \<Rightarrow> bool" where
  "plan parts K G \<longleftrightarrow> (\<forall>k \<in> K. distinct (G k) \<and> set (G k) \<subseteq> set (indexed parts))
     \<and> (\<forall>k \<in> K. \<forall>j \<in> K. k \<noteq> j \<longrightarrow> set (G k) \<inter> set (G j) = {})"

definition arrived :: "byte list list \<Rightarrow> u64 set \<Rightarrow> (u64 \<Rightarrow> (int \<times> byte list) list) \<Rightarrow> (int \<times> byte list) set" where
  "arrived parts K G = set (indexed parts) - (\<Union>k \<in> K. set (G k))"

definition reader_at ::
  "('s \<Rightarrow> byte list) \<Rightarrow> u64 \<Rightarrow> u64 \<Rightarrow> byte list list \<Rightarrow> nat \<Rightarrow> (int \<times> byte list) list
     \<Rightarrow> ('addr, 'path, 's) QPartsDataplaneStream option \<Rightarrow> (QPartsDataplanePacket \<times> nat) option \<Rightarrow> bool" where
  "reader_at pend sid seq parts A g ost h \<longleftrightarrow>
     (\<exists>st. ost = Some st \<and>
        (case h of
           None \<Rightarrow> pend (ds_ssqc st) = frames sid seq parts g
         | Some (pkt, a) \<Rightarrow> (\<exists>i d rest. g = (i, d) # rest \<and> a = A
             \<and> pkt = wire_header sid seq parts i d \<and> pend (ds_ssqc st) = d @ frames sid seq parts rest)))"

definition delivered :: "PartsStream \<Rightarrow> byte list \<Rightarrow> PartsStream" where
  "delivered s d = s\<lparr>ps_ReadBuffer := pb_Append (ps_ReadBuffer s) d\<rparr>"

definition read_inv ::
  "('s \<Rightarrow> byte list) \<Rightarrow> u64 \<Rightarrow> u64 \<Rightarrow> byte list list \<Rightarrow> u64 set \<Rightarrow> (u64 \<rightharpoonup> PartsStream) \<Rightarrow> PartsStream
     \<Rightarrow> (u64 \<rightharpoonup> nat) \<Rightarrow> nat \<Rightarrow> (u64 \<Rightarrow> (int \<times> byte list) list)
     \<Rightarrow> ('addr, 'path, 's) QPartsDataplane \<Rightarrow> held \<Rightarrow> bool" where
  "read_inv pend sid seq parts K Q s0 C A G dp held \<longleftrightarrow>
     (\<forall>k \<in> K. reader_at pend sid seq parts A (G k) (dpl_Streams dp k) (held k))
     \<and> (if arrived parts K G = set (indexed parts)
        then dpl_QPartsStreams dp = Q(sid \<mapsto> delivered s0 (concat parts))
          \<and> Completions (dpl_completionStore dp) = C
        else dpl_QPartsStreams dp = Q \<and>
          (Completions (dpl_completionStore dp) = C(seq \<mapsto> A)
             \<and> A < length (cs_objs (dpl_completionStore dp))
             \<and> received parts (arrived parts K G) (cs_objs (dpl_completionStore dp) ! A)
           \<or> arrived parts K G = {} \<and> Completions (dpl_completionStore dp) = C
             \<and> A = length (cs_objs (dpl_completionStore dp)) \<and> (\<forall>k \<in> K. held k = None)))"

definition work :: "(u64 \<Rightarrow> 'x list) \<Rightarrow> held \<Rightarrow> u64 \<Rightarrow> nat" where
  "work G held k = 2 * length (G k) - (if held k = None then 0 else 1)"

lemma arrived_outstanding:
  assumes "k \<in> K" "x \<in> set (G k)" "plan parts K G"
  shows "arrived parts K G \<noteq> set (indexed parts)" "x \<in> set (indexed parts)"
proof -
  show x: "x \<in> set (indexed parts)" using assms unfolding plan_def by blast
  have "x \<notin> arrived parts K G" using assms(1,2) by (auto simp: arrived_def)
  with x show "arrived parts K G \<noteq> set (indexed parts)" by blast
qed

lemma plan_next:
  assumes "plan parts K G" "k \<in> K" "G k = x # rest"
  shows "plan parts K (G(k := rest))" "arrived parts K (G(k := rest)) = insert x (arrived parts K G)"
proof -
  have k: "distinct (x # rest)" "set (x # rest) \<subseteq> set (indexed parts)"
    and dis: "\<And>j. j \<in> K \<Longrightarrow> j \<noteq> k \<Longrightarrow> set (x # rest) \<inter> set (G j) = {}"
    using assms unfolding plan_def by metis+
  show "plan parts K (G(k := rest))"
    using assms k dis unfolding plan_def by (auto split: if_splits)
  have "(\<Union>j \<in> K. set ((G(k := rest)) j)) = (\<Union>j \<in> K. set (G j)) - {x}"
    using assms(2,3) k(1) dis by (fastforce split: if_splits)
  moreover have "x \<in> (\<Union>j \<in> K. set (G j))" using assms(2,3) by force
  ultimately show "arrived parts K (G(k := rest)) = insert x (arrived parts K G)"
    using k(2) by (auto simp: arrived_def)
qed

text \<open>An open sequence: the header of an outstanding part finds or makes its completion.\<close>

lemma header_step:
  assumes "stream_delivers rd pend" "sendable parts" "C seq = None"
    and "read_inv pend sid seq parts K Q s0 C A G dp held" "plan parts K G" "k \<in> K"
    and "held k = None" "G k = (i, d) # rest"
  shows "\<exists>dp'. readLoop rd k (dp, held) = Goes (dp', held(k \<mapsto> (wire_header sid seq parts i d, A)))
     \<and> read_inv pend sid seq parts K Q s0 C A G dp' (held(k \<mapsto> (wire_header sid seq parts i d, A)))"
proof -
  let ?h = "wire_header sid seq parts i d" and ?w = "dp_wire (part_header sid seq parts i d)"
  have ne: "arrived parts K G \<noteq> set (indexed parts)" "(i, d) \<in> set (indexed parts)"
    using arrived_outstanding [of k K "(i, d)" G parts] assms by auto
  obtain st where st: "dpl_Streams dp k = Some st"
    "pend (ds_ssqc st) = ?w @ d @ frames sid seq parts rest"
    using assms(4,6,7,8) by (auto simp: read_inv_def reader_at_def)
  obtain s1 where s1: "ReadAll rd (ds_ssqc st) 52 = Some (?w, None, s1)"
    "pend s1 = d @ frames sid seq parts rest"
    using ReadAll_delivers [OF assms(1), of 52 "ds_ssqc st"] st(2) by auto
  let ?dp1 = "set_ssqc k s1 dp" and ?cs = "dpl_completionStore dp"
  have inv: "dpl_QPartsStreams dp = Q"
    "Completions ?cs = C(seq \<mapsto> A) \<and> A < length (cs_objs ?cs) \<and> received parts (arrived parts K G) (cs_objs ?cs ! A)
     \<or> arrived parts K G = {} \<and> Completions ?cs = C \<and> A = length (cs_objs ?cs)"
    using assms(4) ne(1) by (auto simp: read_inv_def)
  obtain cs' where cs': "GetOrCreateSequenceCompletion sid seq (of_nat (length parts))
        (of_nat (length (concat parts))) ?cs = Inr (A, cs')"
    "Completions cs' = C(seq \<mapsto> A)" "A < length (cs_objs cs')"
    "received parts (arrived parts K G) (cs_objs cs' ! A)"
  proof (cases "Completions ?cs = C(seq \<mapsto> A)")
    case True
    moreover have "A < length (cs_objs ?cs) \<and> received parts (arrived parts K G) (cs_objs ?cs ! A)"
      using inv(2) True assms(3) by (metis fun_upd_same option.distinct(1))
    ultimately show thesis using that [of ?cs]
      by (simp add: GetOrCreateSequenceCompletion_def)
  next
    case False
    with inv(2) have fresh: "arrived parts K G = {}" "Completions ?cs = C" "A = length (cs_objs ?cs)"
      by auto
    have "length (concat parts) \<le> maxAlloc" using assms(2) by (simp add: sendable_def)
    with sendable_transferable [OF assms(2)] fresh(2) assms(3) fresh_received
    obtain cs' where cs': "GetOrCreateSequenceCompletion sid seq (of_nat (length parts))
        (of_nat (length (concat parts))) ?cs = Inr (length (cs_objs ?cs), cs')"
      "received parts {} (cs_objs cs' ! length (cs_objs ?cs))"
      "Completions cs' = (Completions ?cs)(seq \<mapsto> length (cs_objs ?cs))"
      "\<exists>sc. cs_objs cs' = cs_objs ?cs @ [sc]"
      by metis
    from cs'(4) have "length (cs_objs ?cs) < length (cs_objs cs')" by auto
    with cs' fresh show thesis using that [of cs'] by simp
  qed
  let ?dp2 = "?dp1\<lparr>dpl_completionStore := cs'\<rparr>"
  have step: "readLoop rd k (dp, held) = Goes (?dp2, held(k \<mapsto> (?h, A)))"
    using assms(7) st(1) s1(1) cs'(1)
    by (simp add: readLoop_def readLoop_header_def decode_frame_header Let_def dp_wire_nonempty)
  have "reader_at pend sid seq parts A (G j) (dpl_Streams ?dp2 j) ((held(k \<mapsto> (?h, A))) j)"
    if "j \<in> K" for j
    using that assms(4,8) st(1) s1(2)
    by (cases "j = k") (auto simp: read_inv_def reader_at_def set_ssqc_Streams)
  with step cs' inv(1) ne(1) show ?thesis
    by (intro exI [of _ ?dp2]) (auto simp: read_inv_def)
qed

text \<open>The payload: the part is added, and the last one delivers the sequence.\<close>

lemma payload_step:
  assumes "stream_delivers rd pend" "sendable parts" "C seq = None" "Q sid = Some s0"
    and "read_inv pend sid seq parts K Q s0 C A G dp held" "plan parts K G" "k \<in> K"
    and "held k = Some h"
  shows "\<exists>dp' x rest. G k = x # rest \<and> readLoop rd k (dp, held) = Goes (dp', held(k := None))
     \<and> read_inv pend sid seq parts K Q s0 C A (G(k := rest)) dp' (held(k := None))"
proof -
  obtain st i d rest where st: "dpl_Streams dp k = Some st" and g: "G k = (i, d) # rest"
    and h: "h = (wire_header sid seq parts i d, A)"
    and pend: "pend (ds_ssqc st) = d @ frames sid seq parts rest"
    using assms(5,7,8) by (cases h) (fastforce simp: read_inv_def reader_at_def)
  let ?G = "G(k := rest)" and ?cs = "dpl_completionStore dp"
  have ne: "arrived parts K G \<noteq> set (indexed parts)" "(i, d) \<in> set (indexed parts)"
    using arrived_outstanding [of k K "(i, d)" G parts] assms(6,7) g by auto
  note b = sendable_bounds [OF assms(2) ne(2)]
  obtain s1 where s1: "ReadAll rd (ds_ssqc st) (length d) = Some (d, None, s1)"
    "pend s1 = frames sid seq parts rest"
    using ReadAll_delivers [OF assms(1), of "length d" "ds_ssqc st"] pend by auto
  have "\<exists>k \<in> K. held k \<noteq> None" using assms(7,8) by (metis option.distinct(1))
  then have inv: "dpl_QPartsStreams dp = Q" "Completions ?cs = C(seq \<mapsto> A)" "A < length (cs_objs ?cs)"
    "received parts (arrived parts K G) (cs_objs ?cs ! A)"
    using assms(5) ne(1) by (auto simp: read_inv_def)
  let ?R = "arrived parts K ?G"
  have R: "?R = insert (i, d) (arrived parts K G)" using plan_next [OF assms(6,7) g] by simp
  obtain sc where sc: "AddPart i d (cs_objs ?cs ! A) = Inr (?R = set (indexed parts), sc)"
    "received parts ?R sc" "?R = set (indexed parts) \<longrightarrow> sc_Data sc = concat parts"
    using AddPart_received [OF sendable_transferable [OF assms(2)] inv(4) ne(2)] R by auto
  have copy: "go_copy (replicate (length d) 0) d = d" by (simp add: go_copy_full)
  let ?dp1 = "set_ssqc k s1 dp" and ?store = "update_obj A sc ?cs"
  let ?dp2 = "?dp1\<lparr>dpl_completionStore := RemoveCompletion seq ?store\<rparr>"
  let ?dp3 = "?dp2\<lparr>dpl_QPartsStreams := Q(sid \<mapsto> delivered s0 (concat parts))\<rparr>"
  let ?dp' = "if ?R = set (indexed parts) then ?dp3 else ?dp1\<lparr>dpl_completionStore := ?store\<rparr>"
  have step: "readLoop rd k (dp, held) = Goes (?dp', held(k := None))"
    using assms(4,8) h st s1(1) b sc(1,3) inv(1) copy
    by (simp add: readLoop_def readLoop_payload_def go_make_def Let_def delivered_def)
  have "reader_at pend sid seq parts A (?G j) (dpl_Streams ?dp' j) ((held(k := None)) j)"
    if "j \<in> K" for j
    using that assms(5) st s1(2)
    by (cases "j = k") (auto simp: read_inv_def reader_at_def set_ssqc_Streams)
  moreover have "(C(seq \<mapsto> A))(seq := None) = C" using assms(3) by auto
  ultimately have "read_inv pend sid seq parts K Q s0 C A ?G ?dp' (held(k := None))"
    using sc(2) inv by (auto simp: read_inv_def update_obj_def RemoveCompletion_def)
  with g step show ?thesis by blast
qed

text \<open>A turn of any reader keeps the invariant and does one unit of that reader's work.\<close>

lemma reader_turn:
  assumes "stream_delivers rd pend" "stream_blocks rd pend" "sendable parts" "C seq = None"
    "Q sid = Some s0"
    and "read_inv pend sid seq parts K Q s0 C A G dp held" "plan parts K G" "k \<in> K"
  shows "\<exists>dp' held' G'. (readLoop rd k (dp, held) = Goes (dp', held')
        \<or> readLoop rd k (dp, held) = Waits \<and> dp' = dp \<and> held' = held)
     \<and> read_inv pend sid seq parts K Q s0 C A G' dp' held' \<and> plan parts K G'
     \<and> work G' held' k = work G held k - 1 \<and> (\<forall>j. j \<noteq> k \<longrightarrow> work G' held' j = work G held j)"
proof (cases "held k")
  case (Some h)
  obtain dp' x rest where s: "G k = x # rest" "readLoop rd k (dp, held) = Goes (dp', held(k := None))"
    "read_inv pend sid seq parts K Q s0 C A (G(k := rest)) dp' (held(k := None))"
    using payload_step [OF assms(1,3,4,5,6,7,8) Some] by blast
  have w: "work (G(k := rest)) (held(k := None)) k = work G held k - 1"
    "\<forall>j. j \<noteq> k \<longrightarrow> work (G(k := rest)) (held(k := None)) j = work G held j"
    using s(1) Some by (auto simp: work_def)
  show ?thesis
    using s(2,3) plan_next(1) [OF assms(7,8) s(1)] w by blast
next
  case None
  show ?thesis
  proof (cases "G k")
    case Nil
    from assms(6,8) None Nil obtain st where "dpl_Streams dp k = Some st" "pend (ds_ssqc st) = []"
      by (auto simp: read_inv_def reader_at_def)
    then have "readLoop rd k (dp, held) = Waits"
      using None ReadAll_blocks [OF assms(2), of "ds_ssqc st" 52]
      by (simp add: readLoop_def readLoop_header_def)
    moreover have "work G held k = work G held k - 1" using Nil by (simp add: work_def)
    ultimately show ?thesis using assms(6,7) by blast
  next
    case (Cons x rest)
    obtain i d where x: "x = (i, d)" by (cases x)
    let ?held = "held(k \<mapsto> (wire_header sid seq parts i d, A))"
    obtain dp' where s: "readLoop rd k (dp, held) = Goes (dp', ?held)"
      "read_inv pend sid seq parts K Q s0 C A G dp' ?held"
      using header_step [OF assms(1,3,4,6,7,8) None] Cons x by blast
    have "work G ?held k = work G held k - 1" "\<forall>j. j \<noteq> k \<longrightarrow> work G ?held j = work G held j"
      using Cons None by (auto simp: work_def)
    with s assms(7) show ?thesis by blast
  qed
qed

lemma run_readers_inv:
  assumes "stream_delivers rd pend" "stream_blocks rd pend" "sendable parts" "C seq = None"
    "Q sid = Some s0" "set ks \<subseteq> K"
    and "read_inv pend sid seq parts K Q s0 C A G dp held" "plan parts K G"
  shows "\<exists>dp' held' G'. run_readers rd ks (dp, held) = Inr (dp', held')
     \<and> read_inv pend sid seq parts K Q s0 C A G' dp' held' \<and> plan parts K G'
     \<and> (\<forall>k. work G' held' k = work G held k - count_list ks k)"
  using assms(6-)
proof (induction ks arbitrary: dp held G)
  case (Cons k ks)
  obtain dp1 held1 G1 where s: "readLoop rd k (dp, held) = Goes (dp1, held1)
        \<or> readLoop rd k (dp, held) = Waits \<and> dp1 = dp \<and> held1 = held"
     "read_inv pend sid seq parts K Q s0 C A G1 dp1 held1" "plan parts K G1"
     "work G1 held1 k = work G held k - 1" "\<forall>j. j \<noteq> k \<longrightarrow> work G1 held1 j = work G held j"
    using reader_turn [OF assms(1-5) Cons.prems(2,3)] Cons.prems(1) by force
  have "run_readers rd (k # ks) (dp, held) = run_readers rd ks (dp1, held1)" using s(1) by auto
  with Cons.IH [OF _ s(2,3)] Cons.prems(1) obtain dp' held' G' where
    r: "run_readers rd (k # ks) (dp, held) = Inr (dp', held')"
    "read_inv pend sid seq parts K Q s0 C A G' dp' held'" "plan parts K G'"
    "\<forall>j. work G' held' j = work G1 held1 j - count_list ks j" by auto
  have "work G' held' j = work G held j - count_list (k # ks) j" for j
    using r(4) s(4,5) by (cases "j = k") auto
  with r(1-3) show ?case by blast
qed auto

text \<open>
  Every interleaving of the read loops, in which each loop gets enough turns, delivers the whole
  sequence to its stream exactly once and leaves the store as it was.
\<close>

lemma run_readers_deliver:
  assumes "stream_delivers rd pend" "stream_blocks rd pend" "sendable parts" "set ks \<subseteq> K"
    and "dpl_QPartsStreams dp sid = Some s0" "Completions (dpl_completionStore dp) seq = None"
    and "plan parts K G" "(\<Union>k \<in> K. set (G k)) = set (indexed parts)"
    and "\<And>k. k \<in> K \<Longrightarrow> \<exists>st. dpl_Streams dp k = Some st \<and> pend (ds_ssqc st) = frames sid seq parts (G k)"
    and "\<And>k. k \<in> K \<Longrightarrow> 2 * length (G k) \<le> count_list ks k"
  shows "\<exists>dp' held'. run_readers rd ks (dp, Map.empty) = Inr (dp', held')
     \<and> dpl_QPartsStreams dp' = (dpl_QPartsStreams dp)(sid \<mapsto> delivered s0 (concat parts))
     \<and> Completions (dpl_completionStore dp') = Completions (dpl_completionStore dp)
     \<and> (\<forall>k \<in> K. held' k = None)"
proof -
  let ?C = "Completions (dpl_completionStore dp)" and ?A = "length (cs_objs (dpl_completionStore dp))"
  have "indexed parts \<noteq> []" using assms(3) by (simp add: indexed_def sendable_def)
  then have "arrived parts K G = {}" "{} \<noteq> set (indexed parts)" using assms(8) by (auto simp: arrived_def)
  with assms(9) have "read_inv pend sid seq parts K (dpl_QPartsStreams dp) s0 ?C ?A G dp Map.empty"
    by (auto simp: read_inv_def reader_at_def)
  from run_readers_inv [OF assms(1,2,3,6,5,4) this assms(7)] obtain dp' held' G' where
    r: "run_readers rd ks (dp, Map.empty) = Inr (dp', held')"
    and inv: "read_inv pend sid seq parts K (dpl_QPartsStreams dp) s0 ?C ?A G' dp' held'"
    and w: "\<forall>k. work G' held' k = work G Map.empty k - count_list ks k" by blast
  have idle: "G' k = [] \<and> held' k = None" if "k \<in> K" for k
  proof -
    have "work G' held' k = 0" using w assms(10) [OF that] by (simp add: work_def)
    moreover have "held' k \<noteq> None \<Longrightarrow> G' k \<noteq> []"
      using inv that by (auto simp: read_inv_def reader_at_def)
    ultimately show ?thesis by (cases "held' k"; cases "G' k") (auto simp: work_def)
  qed
  then have "arrived parts K G' = set (indexed parts)" by (auto simp: arrived_def)
  with inv r idle show ?thesis by (auto simp: read_inv_def)
qed

section \<open>The writers\<close>

text \<open>The number and the data of a queued part; \<open>numbered\<close> says that \<^verbatim>\<open>WriteForStream\<close> filled
  in the fields of a part queued for stream \<open>k\<close>.\<close>

definition part_of :: "'addr DataAssignment \<Rightarrow> int \<times> byte list" where
  "part_of da = (sint (da_PartId da), da_Data da)"

definition numbered :: "u64 \<Rightarrow> u64 \<Rightarrow> byte list list \<Rightarrow> u64 \<Rightarrow> 'addr DataAssignment \<Rightarrow> bool" where
  "numbered sid seq parts k da \<longleftrightarrow> da_DataplaneStream da = Some k \<and> da_StreamId da = sid
     \<and> da_SequenceId da = seq \<and> da_SequenceSize da = of_nat (length (concat parts))
     \<and> da_NumParts da = of_nat (length parts) \<and> da_Data da \<noteq> []"

definition sender_object :: "u64 \<Rightarrow> byte list list \<Rightarrow> nat \<Rightarrow> QPartsSequenceCompletion \<Rightarrow> bool" where
  "sender_object seq parts r sc \<longleftrightarrow> sc_internalParts sc = None \<and> sc_SequenceId sc = seq
     \<and> sc_SequenceSize sc = of_nat (length (concat parts)) \<and> sc_Parts sc = of_nat (length parts)
     \<and> r \<le> length parts \<and> sc_CompletedParts sc = of_nat (length parts - r)
     \<and> sc_CompleteChan sc = (r = 0)"

lemma data_header_part:
  assumes "numbered sid seq parts k da" "sender_object seq parts r sc"
  shows "dp_Encode (data_header da sc) = Inr ((data_header da sc)
       \<lparr>dp_Data := dp_wire (part_header sid seq parts (fst (part_of da)) (snd (part_of da)))\<rparr>)"
proof -
  have "data_header da sc = part_header sid seq parts (fst (part_of da)) (snd (part_of da))"
    using assms by (simp add: numbered_def sender_object_def data_header_def part_header_def part_of_def)
  moreover have "length (dp_Data (data_header da sc)) = 52" by (simp add: data_header_def)
  ultimately show ?thesis by (simp add: dp_Encode_wire)
qed

text \<open>Sending a part leaves one part fewer; the last one completes the sequence.\<close>

lemma AddSendingPart_object:
  assumes "sender_object seq parts (Suc r) sc" "length parts < 2 ^ 64"
  shows "\<exists>sc'. AddSendingPart sc = (r = 0, sc') \<and> sc_CompleteChan sc' = False
     \<and> sc_SequenceId sc' = seq
     \<and> sender_object seq parts r (sc'\<lparr>sc_CompleteChan := (r = 0)\<rparr>)"
proof -
  have n: "Suc (length parts - Suc r) = length parts - r" "length parts - r < 2 ^ 64"
    using assms by (auto simp: sender_object_def)
  have "(of_nat (length parts) :: goint) = of_nat (length parts - r) \<longleftrightarrow> r = 0"
    using of_nat_word_eq [of "length parts" "length parts - r", where 'a = 64] n(2) assms
    by (auto simp: sender_object_def)
  moreover have "(of_nat (length parts - Suc r) :: goint) + 1 = of_nat (length parts - r)"
    unfolding n(1) [symmetric] by simp
  ultimately show ?thesis
    using assms(1) by (simp add: AddSendingPart_def IsComplete_def sender_object_def Let_def)
qed

definition write_inv ::
  "('s \<Rightarrow> byte list) \<Rightarrow> u64 \<Rightarrow> u64 \<Rightarrow> byte list list \<Rightarrow> u64 set \<Rightarrow> (u64 \<rightharpoonup> PartsStream)
     \<Rightarrow> (u64 \<rightharpoonup> nat) \<Rightarrow> nat \<Rightarrow> (u64 \<Rightarrow> byte list) \<Rightarrow> (u64 \<Rightarrow> 'addr DataAssignment list)
     \<Rightarrow> ('addr, 'path, 's) QPartsDataplane \<Rightarrow> bool" where
  "write_inv sent sid seq parts K Q C A Z rem dp \<longleftrightarrow>
     dom (dpl_Streams dp) = K \<and> dpl_QPartsStreams dp = Q
     \<and> (\<forall>k \<in> K. (\<forall>da \<in> set (rem k). numbered sid seq parts k da)
          \<and> (\<exists>st. dpl_Streams dp k = Some st \<and> entries (ds_Queue st) = rem k
               \<and> sent (ds_ssqc st) @ frames sid seq parts (map part_of (rem k)) = Z k))
     \<and> (let store = dpl_completionStore dp; r = (\<Sum>k \<in> K. length (rem k)) in
          A < length (cs_objs store) \<and> sender_object seq parts r (cs_objs store ! A)
          \<and> Completions store = (if r = 0 then C else C(seq \<mapsto> A)))"

lemma writer_turn:
  assumes "stream_accepts wr sent" "finite K" "length parts < 2 ^ 64" "C seq = None"
    and inv: "write_inv sent sid seq parts K Q C A Z rem dp" and "k \<in> K"
  shows "\<exists>dp'. (writeLoop wr k dp = Goes dp' \<or> writeLoop wr k dp = Waits \<and> dp' = dp)
     \<and> write_inv sent sid seq parts K Q C A Z (rem(k := tl (rem k))) dp'"
proof -
  from inv \<open>k \<in> K\<close> obtain st where st: "dpl_Streams dp k = Some st" "entries (ds_Queue st) = rem k"
    "sent (ds_ssqc st) @ frames sid seq parts (map part_of (rem k)) = Z k"
    unfolding write_inv_def by blast
  show ?thesis
  proof (cases "rem k")
    case Nil
    then have "writeLoop wr k dp = Waits" using st by (simp add: writeLoop_def Queue_Get_def)
    moreover have "rem(k := tl (rem k)) = rem" using Nil by auto
    ultimately show ?thesis using inv by auto
  next
    case (Cons da rest)
    let ?cs = "dpl_completionStore dp" and ?r = "\<Sum>j \<in> K. length (rem j)"
    let ?rem = "rem(k := rest)"
    define r' where "r' = (\<Sum>j \<in> K. length (?rem j))"
    have r: "?r = Suc r'"
    proof -
      have "(\<Sum>j \<in> K. length (f j)) = length (f k) + (\<Sum>j \<in> K - {k}. length (f j))"
        for f :: "u64 \<Rightarrow> 'addr DataAssignment list"
        using assms(2) \<open>k \<in> K\<close> by (simp add: sum.remove)
      from this [of rem] this [of ?rem] show ?thesis using Cons by (simp add: r'_def)
    qed
    let ?sc = "cs_objs ?cs ! A"
    have da: "numbered sid seq parts k da" using inv \<open>k \<in> K\<close> Cons unfolding write_inv_def by force
    have obj: "A < length (cs_objs ?cs)" "sender_object seq parts (Suc r') ?sc"
      "Completions ?cs = C(seq \<mapsto> A)"
      using inv r unfolding write_inv_def Let_def by auto
    let ?st = "st\<lparr>ds_Queue := (ds_Queue st)\<lparr>entries := rest\<rparr>\<rparr>"
    let ?w = "dp_wire (part_header sid seq parts (fst (part_of da)) (snd (part_of da)))"
    obtain s1 where s1: "WriteAll wr (ds_ssqc st) ?w = Some (52, None, s1)" "sent s1 = sent (ds_ssqc st) @ ?w"
      using WriteAll_accepts [OF assms(1), of "ds_ssqc st" ?w] by auto
    obtain s2 where s2: "WriteAll wr s1 (da_Data da) = Some (length (da_Data da), None, s2)"
      "sent s2 = sent s1 @ da_Data da"
      using WriteAll_accepts [OF assms(1), of s1 "da_Data da"] by auto
    obtain sc' where sc': "AddSendingPart ?sc = (r' = 0, sc')" "sc_CompleteChan sc' = False"
      "sc_SequenceId sc' = seq" "sender_object seq parts r' (sc'\<lparr>sc_CompleteChan := (r' = 0)\<rparr>)"
      using AddSendingPart_object [OF obj(2) assms(3)] by blast
    let ?dp1 = "set_ssqc k s2 (set_stream k ?st dp)"
    let ?dp' = "finish_part A ?dp1"
    have "writeLoop wr k dp = Goes ?dp'"
      using st(1,2) Cons da obj(3) data_header_part [OF da obj(2)] s1(1) s2(1)
      by (simp add: writeLoop_def Queue_Get_def Let_def GetOrCreateSendingSequenceCompletion_def
          numbered_def set_stream_def)
    moreover have "write_inv sent sid seq parts K Q C A Z ?rem ?dp'"
    proof -
      have streams: "dpl_Streams ?dp' = (dpl_Streams dp)(k \<mapsto> ?st\<lparr>ds_ssqc := s2\<rparr>)"
        "dpl_QPartsStreams ?dp' = dpl_QPartsStreams dp"
        by (auto simp: finish_part_def set_ssqc_def set_stream_def Let_def split: prod.splits)
      have store: "dpl_completionStore ?dp1 = ?cs" by (simp add: set_stream_def)
      have C: "(C(seq \<mapsto> A))(seq := None) = C" using assms(4) by auto
      have so: "sender_object seq parts r' (if r' = 0 then sc'\<lparr>sc_CompleteChan := True\<rparr> else sc')"
        using sc'(2,4) by (cases sc') (auto split: if_splits)
      have "A < length (cs_objs (dpl_completionStore ?dp'))
          \<and> sender_object seq parts r' (cs_objs (dpl_completionStore ?dp') ! A)
          \<and> Completions (dpl_completionStore ?dp') = (if r' = 0 then C else C(seq \<mapsto> A))"
        using obj sc'(1,3) so C store
        by (auto simp: finish_part_def Let_def update_obj_def RemoveCompletion_def)
      moreover have "sent s2 @ frames sid seq parts (map part_of rest) = Z k"
        using st(3) s1(2) s2(2) Cons by (cases "part_of da") (auto simp: part_of_def)
      moreover have "dom (dpl_Streams ?dp') = K" using inv \<open>k \<in> K\<close> streams by (auto simp: write_inv_def)
      ultimately show ?thesis
        using inv streams Cons unfolding write_inv_def Let_def r'_def [symmetric] by auto
    qed
    ultimately show ?thesis using Cons by auto
  qed
qed

lemma run_writers_inv:
  assumes "stream_accepts wr sent" "finite K" "length parts < 2 ^ 64" "C seq = None" "set ks \<subseteq> K"
    and "write_inv sent sid seq parts K Q C A Z rem dp"
  shows "\<exists>dp' rem'. run_writers wr ks dp = Inr dp' \<and> write_inv sent sid seq parts K Q C A Z rem' dp'
     \<and> (\<forall>k. length (rem' k) = length (rem k) - count_list ks k)"
  using assms(5,6)
proof (induction ks arbitrary: dp rem)
  case (Cons k ks)
  let ?rem = "rem(k := tl (rem k))"
  obtain dp1 where s: "writeLoop wr k dp = Goes dp1 \<or> writeLoop wr k dp = Waits \<and> dp1 = dp"
    "write_inv sent sid seq parts K Q C A Z ?rem dp1"
    using writer_turn [OF assms(1-4) Cons.prems(2)] Cons.prems(1) by auto
  have "run_writers wr (k # ks) dp = run_writers wr ks dp1" using s(1) by auto
  with Cons.IH [OF _ s(2)] Cons.prems(1) obtain dp' rem' where
    "run_writers wr (k # ks) dp = Inr dp'" "write_inv sent sid seq parts K Q C A Z rem' dp'"
    "\<forall>j. length (rem' j) = length (?rem j) - count_list ks j" by auto
  then show ?case by (intro exI [of _ dp'] exI [of _ rem']) auto
qed auto

section \<open>A whole write\<close>

text \<open>\<open>shares_of das k\<close>: the numbered parts that a decision puts on stream \<open>k\<close>; \<open>queued\<close>: the
  assignments that \<^verbatim>\<open>WriteForStream\<close> puts in the queue of \<open>k\<close> for them.\<close>

definition on_stream :: "'addr DataAssignment list \<Rightarrow> nat \<Rightarrow> u64 \<Rightarrow> (nat \<times> 'addr DataAssignment) list" where
  "on_stream das i k = filter (\<lambda>(j, da). da_DataplaneStream da = Some k) (enumerate i das)"

definition shares_of :: "'addr DataAssignment list \<Rightarrow> u64 \<Rightarrow> (int \<times> byte list) list" where
  "shares_of das k = map (\<lambda>(j, da). (int j, da_Data da)) (on_stream das 0 k)"

definition number_part ::
  "nat \<Rightarrow> QPartsSequenceCompletion \<Rightarrow> u64 \<Rightarrow> nat \<times> 'addr DataAssignment \<Rightarrow> 'addr DataAssignment" where
  "number_part num compl sid = (\<lambda>(i, da). da\<lparr>da_NumParts := of_nat num, da_SequenceId := sc_SequenceId compl,
     da_PartId := of_nat i, da_SequenceSize := sc_SequenceSize compl, da_StreamId := sid\<rparr>)"

definition queued ::
  "nat \<Rightarrow> QPartsSequenceCompletion \<Rightarrow> u64 \<Rightarrow> 'addr DataAssignment list \<Rightarrow> nat \<Rightarrow> u64 \<Rightarrow> 'addr DataAssignment list" where
  "queued num compl sid das i k = map (number_part num compl sid) (on_stream das i k)"

definition extend_queue ::
  "'addr DataAssignment list \<Rightarrow> ('addr, 'path, 's) QPartsDataplaneStream
     \<Rightarrow> ('addr, 'path, 's) QPartsDataplaneStream" where
  "extend_queue xs st = st\<lparr>ds_Queue := (ds_Queue st)\<lparr>entries := entries (ds_Queue st) @ xs\<rparr>\<rparr>"

lemma on_stream_simps [simp]:
  "on_stream [] i k = []"
  "on_stream (da # das) i k =
     (if da_DataplaneStream da = Some k then [(i, da)] else []) @ on_stream das (Suc i) k"
  by (simp_all add: on_stream_def)

lemma extend_queue_append: "extend_queue ys (extend_queue xs st) = extend_queue (xs @ ys) st"
  by (simp add: extend_queue_def)

lemma extend_queue_Nil [simp]: "extend_queue [] st = st"
  by (simp add: extend_queue_def)

definition placed :: "'addr DataAssignment list \<Rightarrow> u64 set \<Rightarrow> bool" where
  "placed das K \<longleftrightarrow> (\<forall>da \<in> set das. \<exists>k \<in> K. da_DataplaneStream da = Some k)"

lemma enqueue_parts_spec:
  assumes "placed das (dom (dpl_Streams dp))"
  shows "enqueue_parts das i num compl sid n dp = Inr (n + sum_list (map (length \<circ> da_Data) das),
     dp\<lparr>dpl_Streams := (\<lambda>k. map_option (extend_queue (queued num compl sid das i k)) (dpl_Streams dp k))\<rparr>)"
  using assms
proof (induction das arbitrary: i n dp)
  case Nil
  then show ?case by (simp add: queued_def option.map_ident_strong)
next
  case (Cons da das)
  then obtain k st where k: "da_DataplaneStream da = Some k" "dpl_Streams dp k = Some st"
    by (auto simp: placed_def)
  let ?da = "number_part num compl sid (i, da)"
  let ?dp = "set_stream k (st\<lparr>ds_Queue := Queue_Add (ds_Queue st) ?da\<rparr>) dp"
  have st: "st\<lparr>ds_Queue := Queue_Add (ds_Queue st) ?da\<rparr> = extend_queue [?da] st"
    by (simp add: extend_queue_def Queue_Add_def)
  have "dom (dpl_Streams ?dp) = dom (dpl_Streams dp)" using k(2) by (auto simp: set_stream_def)
  then have "placed das (dom (dpl_Streams ?dp))" using Cons.prems by (simp add: placed_def)
  note IH = Cons.IH [OF this, of "i + 1" "n + length (da_Data da)"]
  have "(\<lambda>j. map_option (extend_queue (queued num compl sid das (i + 1) j)) (dpl_Streams ?dp j))
      = (\<lambda>j. map_option (extend_queue (queued num compl sid (da # das) i j)) (dpl_Streams dp j))"
    using k by (auto simp: fun_eq_iff set_stream_def st extend_queue_append queued_def)
  then show ?case using IH k
    by (simp add: number_part_def set_stream_def add.assoc)
qed

lemma in_shares_of: "(i, d) \<in> set (shares_of das k) \<longleftrightarrow>
  (\<exists>j < length das. i = int j \<and> d = da_Data (das ! j) \<and> da_DataplaneStream (das ! j) = Some k)"
  by (force simp: shares_of_def on_stream_def in_set_enumerate_eq)

lemma shares_plan:
  assumes "placed das K"
  shows "plan (map da_Data das) K (shares_of das)"
    "(\<Union>k \<in> K. set (shares_of das k)) = set (indexed (map da_Data das))"
proof -
  have "distinct (shares_of das k)" for k
  proof (rule distinct_keys)
    have "map fst (shares_of das k) = map int (map fst (on_stream das 0 k))"
      by (simp add: shares_of_def case_prod_beta comp_def)
    moreover have "distinct (map fst (on_stream das 0 k))"
      unfolding on_stream_def by (rule distinct_map_filter) simp
    ultimately show "distinct (map fst (shares_of das k))" by (simp add: distinct_map inj_on_def)
  qed
  then show "plan (map da_Data das) K (shares_of das)"
    by (auto simp: plan_def in_shares_of in_indexed)
  show "(\<Union>k \<in> K. set (shares_of das k)) = set (indexed (map da_Data das))"
    using assms by (fastforce simp: in_shares_of in_indexed placed_def)
qed

lemma part_of_queued:
  assumes "i + length das \<le> maxAlloc"
  shows "map part_of (queued num compl sid das i k)
     = map (\<lambda>(j, da). (int j, da_Data da)) (on_stream das i k)"
  using assms
proof (induction das arbitrary: i)
  case (Cons da das)
  have "sint (of_nat i :: u64) = int i"
    using Cons.prems by (intro sint_of_nat_small) (simp add: maxAlloc_def)
  with Cons.IH [of "Suc i"] Cons.prems show ?case
    by (simp add: queued_def part_of_def number_part_def)
qed (simp add: queued_def)

lemma sum_queued:
  assumes "finite K" "placed das K"
  shows "(\<Sum>k \<in> K. length (queued num compl sid das i k)) = length das"
  using assms(2)
proof (induction das arbitrary: i)
  case (Cons da das)
  then obtain k where k: "k \<in> K" "da_DataplaneStream da = Some k" by (auto simp: placed_def)
  have "length (queued num compl sid (da # das) i j)
      = (if k = j then 1 else 0) + length (queued num compl sid das (Suc i) j)" for j
    using k by (simp add: queued_def)
  then show ?case
    using Cons k assms(1) by (simp add: sum.distrib placed_def)
qed (simp add: queued_def)

text \<open>From the call of \<^verbatim>\<open>WriteForStream\<close> on an idle data plane to its return: the frames of
  every stream's shares are on the wire, whatever the order of the write loops.\<close>

definition idle :: "('addr, 'path, 's) QPartsDataplane \<Rightarrow> bool" where
  "idle dp \<longleftrightarrow> (\<forall>st \<in> ran (dpl_Streams dp). entries (ds_Queue st) = [])"

definition has_sent ::
  "('s \<Rightarrow> byte list) \<Rightarrow> u64 \<Rightarrow> u64 \<Rightarrow> 'addr DataAssignment list
     \<Rightarrow> ('addr, 'path, 's) QPartsDataplane \<Rightarrow> ('addr, 'path, 's) QPartsDataplane \<Rightarrow> bool" where
  "has_sent sent sid seq das dp dp' \<longleftrightarrow> dom (dpl_Streams dp') = dom (dpl_Streams dp)
     \<and> (\<forall>k st st'. dpl_Streams dp k = Some st \<longrightarrow> dpl_Streams dp' k = Some st' \<longrightarrow>
          sent (ds_ssqc st') = sent (ds_ssqc st) @ frames sid seq (map da_Data das) (shares_of das k))"

lemma WriteForStream_inv:
  fixes dp :: "('addr, 'path, 's) QPartsDataplane"
  assumes "finite (dom (dpl_Streams dp))" "idle dp" "sendable (map da_Data das)"
    and "placed das (dom (dpl_Streams dp))"
  shows "\<exists>dp1 A. WriteForStream \<lparr>Assignments = das\<rparr> sid rnd dp = Inr (A, length (concat (map da_Data das)), dp1)
     \<and> write_inv sent sid rnd (map da_Data das) (dom (dpl_Streams dp)) (dpl_QPartsStreams dp)
         (Completions (dpl_completionStore dp)) A
         (\<lambda>k. sent (ds_ssqc (the (dpl_Streams dp k)))
                @ frames sid rnd (map da_Data das) (shares_of das k))
         (queued (length das) (NewSequenceCompletionFromSchedulingDecision sid \<lparr>Assignments = das\<rparr> rnd)
            sid das 0) dp1"
proof -
  let ?K = "dom (dpl_Streams dp)" and ?parts = "map da_Data das"
  let ?compl = "NewSequenceCompletionFromSchedulingDecision sid \<lparr>Assignments = das\<rparr> rnd"
  let ?rem = "queued (length das) ?compl sid das 0" and ?cs = "dpl_completionStore dp"
  let ?A = "length (cs_objs ?cs)"
  let ?store = "AddCompletion ?A (?cs\<lparr>cs_objs := cs_objs ?cs @ [?compl]\<rparr>)"
  let ?dp1 = "dp\<lparr>dpl_completionStore := ?store,
     dpl_Streams := (\<lambda>k. map_option (extend_queue (?rem k)) (dpl_Streams dp k))\<rparr>"
  have size: "sum_list (map (length \<circ> da_Data) das) = length (concat ?parts)"
    by (simp add: length_concat)
  have len: "length das \<le> maxAlloc" "das \<noteq> []"
    using assms(3) length_le_concat [of ?parts] by (auto simp: sendable_def)
  have "WriteForStream \<lparr>Assignments = das\<rparr> sid rnd dp = Inr (?A, length (concat ?parts), ?dp1)"
    using assms(4) size by (simp add: WriteForStream_def cs_alloc_def enqueue_parts_spec Let_def)
  moreover have "write_inv sent sid rnd ?parts ?K (dpl_QPartsStreams dp) (Completions ?cs) ?A
      (\<lambda>k. sent (ds_ssqc (the (dpl_Streams dp k))) @ frames sid rnd ?parts (shares_of das k)) ?rem ?dp1"
  proof -
    define r where "r = (\<Sum>k \<in> ?K. length (?rem k))"
    have r: "r = length das" unfolding r_def by (rule sum_queued [OF assms(1,4)])
    have obj: "sender_object rnd ?parts r ?compl"
      using r size len by (simp add: sender_object_def NewSequenceCompletionFromSchedulingDecision_def
          new_completion_def decision_size_def comp_def)
    have "\<forall>da \<in> set das. da_Data da \<noteq> []" using assms(3) by (auto simp: sendable_def image_iff)
    then have numbered: "\<forall>da \<in> set (?rem k). numbered sid rnd ?parts k da" for k
      using size
      by (auto simp: queued_def on_stream_def number_part_def numbered_def in_set_enumerate_eq
          NewSequenceCompletionFromSchedulingDecision_def new_completion_def decision_size_def comp_def
          dest!: nth_mem)
    have wire: "map part_of (?rem k) = shares_of das k" for k
      using part_of_queued [of 0 das] len by (simp add: shares_of_def)
    have "\<exists>st. dpl_Streams ?dp1 k = Some st \<and> entries (ds_Queue st) = ?rem k
        \<and> sent (ds_ssqc st) @ frames sid rnd ?parts (map part_of (?rem k))
          = sent (ds_ssqc (the (dpl_Streams dp k))) @ frames sid rnd ?parts (shares_of das k)"
      if "k \<in> ?K" for k
    proof -
      from that obtain st where st: "dpl_Streams dp k = Some st" by auto
      with assms(2) have "entries (ds_Queue st) = []" by (auto simp: idle_def ran_def)
      with st wire show ?thesis by (simp add: extend_queue_def)
    qed
    moreover have "Completions ?store = (Completions ?cs)(rnd \<mapsto> ?A)"
      by (simp add: AddCompletion_def NewSequenceCompletionFromSchedulingDecision_def new_completion_def)
    moreover have "?A < length (cs_objs ?store)" "cs_objs ?store ! ?A = ?compl"
      by (simp_all add: AddCompletion_def)
    moreover have "dom (dpl_Streams ?dp1) = ?K" by auto
    ultimately show ?thesis
      using numbered obj r len unfolding write_inv_def Let_def r_def [symmetric] by simp
  qed
  ultimately show ?thesis by blast
qed

lemma WriteForStream_sends:
  fixes dp :: "('addr, 'path, 's) QPartsDataplane"
  assumes "stream_accepts wr sent" "finite (dom (dpl_Streams dp))" "idle dp"
    and "Completions (dpl_completionStore dp) rnd = None"
    and "sendable (map da_Data das)" "placed das (dom (dpl_Streams dp))"
    and "set ks \<subseteq> dom (dpl_Streams dp)" "\<forall>k \<in> dom (dpl_Streams dp). length das \<le> count_list ks k"
  shows "\<exists>dp1 dp2 A. WriteForStream \<lparr>Assignments = das\<rparr> sid rnd dp = Inr (A, length (concat (map da_Data das)), dp1)
     \<and> run_writers wr ks dp1 = Inr dp2 \<and> WriteForStream_returns A dp2 \<and> idle dp2
     \<and> Completions (dpl_completionStore dp2) = Completions (dpl_completionStore dp)
     \<and> dpl_QPartsStreams dp2 = dpl_QPartsStreams dp
     \<and> has_sent sent sid rnd das dp dp2"
proof -
  let ?K = "dom (dpl_Streams dp)" and ?parts = "map da_Data das"
  let ?C = "Completions (dpl_completionStore dp)"
  let ?Z = "\<lambda>k. sent (ds_ssqc (the (dpl_Streams dp k))) @ frames sid rnd ?parts (shares_of das k)"
  let ?rem = "queued (length das) (NewSequenceCompletionFromSchedulingDecision sid \<lparr>Assignments = das\<rparr> rnd) sid das 0"
  obtain dp1 A where wfs: "WriteForStream \<lparr>Assignments = das\<rparr> sid rnd dp = Inr (A, length (concat ?parts), dp1)"
    "write_inv sent sid rnd ?parts ?K (dpl_QPartsStreams dp) ?C A ?Z ?rem dp1"
    using WriteForStream_inv [OF assms(2,3,5,6)] by blast
  have "length ?parts < 2 ^ 64"
    using assms(5) length_le_concat [of ?parts] by (simp add: sendable_def maxAlloc_def)
  from run_writers_inv [OF assms(1,2) this assms(4,7) wfs(2)] obtain dp2 rem' where
    dp2: "run_writers wr ks dp1 = Inr dp2"
      "write_inv sent sid rnd ?parts ?K (dpl_QPartsStreams dp) ?C A ?Z rem' dp2"
      "\<forall>k. length (rem' k) = length (?rem k) - count_list ks k"
    by blast
  have "length (?rem k) \<le> length das" for k
    using length_filter_le [of _ "enumerate 0 das"] by (simp add: queued_def on_stream_def)
  then have "length (?rem k) - count_list ks k = 0" if "k \<in> ?K" for k
    using assms(8) that by (metis diff_is_0_eq order_trans)
  then have empty: "rem' k = []" if "k \<in> ?K" for k using dp2(3) that by (metis length_0_conv)
  then have zero: "(\<Sum>k \<in> ?K. length (rem' k)) = 0" by simp
  have str: "dom (dpl_Streams dp2) = ?K" "dpl_QPartsStreams dp2 = dpl_QPartsStreams dp"
    "\<forall>k \<in> ?K. \<exists>st. dpl_Streams dp2 k = Some st \<and> entries (ds_Queue st) = [] \<and> sent (ds_ssqc st) = ?Z k"
    using dp2(2) empty unfolding write_inv_def by auto
  have cs: "Completions (dpl_completionStore dp2) = ?C"
    "sender_object rnd ?parts 0 (cs_objs (dpl_completionStore dp2) ! A)"
    using dp2(2) unfolding write_inv_def Let_def zero by auto
  then have "WriteForStream_returns A dp2" by (simp add: WriteForStream_returns_def sender_object_def)
  moreover have "idle dp2" using str by (force simp: idle_def ran_def)
  moreover have "has_sent sent sid rnd das dp dp2" using str by (force simp: has_sent_def)
  ultimately show ?thesis using wfs(1) dp2(1) str(2) cs(1) by blast
qed

lemma idle_iff: "idle dp \<longleftrightarrow> (\<forall>k st. dpl_Streams dp k = Some st \<longrightarrow> entries (ds_Queue st) = [])"
  by (auto simp: idle_def ran_def)

text \<open>At any point of any schedule: \<^verbatim>\<open>WriteForStream\<close> has returned only if everything is on the wire.\<close>

lemma WriteForStream_partial:
  fixes dp :: "('addr, 'path, 's) QPartsDataplane"
  assumes "stream_accepts wr sent" "finite (dom (dpl_Streams dp))" "idle dp"
    and "Completions (dpl_completionStore dp) rnd = None"
    and "sendable (map da_Data das)" "placed das (dom (dpl_Streams dp))" "set ks \<subseteq> dom (dpl_Streams dp)"
  shows "\<exists>dp1 dp2 A. WriteForStream \<lparr>Assignments = das\<rparr> sid rnd dp = Inr (A, length (concat (map da_Data das)), dp1)
     \<and> run_writers wr ks dp1 = Inr dp2 \<and> (WriteForStream_returns A dp2 \<longleftrightarrow> idle dp2)
     \<and> (idle dp2 \<longrightarrow> has_sent sent sid rnd das dp dp2)"
proof -
  let ?K = "dom (dpl_Streams dp)" and ?parts = "map da_Data das"
  let ?C = "Completions (dpl_completionStore dp)"
  let ?Z = "\<lambda>k. sent (ds_ssqc (the (dpl_Streams dp k))) @ frames sid rnd ?parts (shares_of das k)"
  let ?rem = "queued (length das) (NewSequenceCompletionFromSchedulingDecision sid \<lparr>Assignments = das\<rparr> rnd) sid das 0"
  obtain dp1 A where wfs: "WriteForStream \<lparr>Assignments = das\<rparr> sid rnd dp = Inr (A, length (concat ?parts), dp1)"
    "write_inv sent sid rnd ?parts ?K (dpl_QPartsStreams dp) ?C A ?Z ?rem dp1"
    using WriteForStream_inv [OF assms(2,3,5,6)] by blast
  have "length ?parts < 2 ^ 64"
    using assms(5) length_le_concat [of ?parts] by (simp add: sendable_def maxAlloc_def)
  from run_writers_inv [OF assms(1,2) this assms(4,7) wfs(2)] obtain dp2 rem' where
    dp2: "run_writers wr ks dp1 = Inr dp2"
      "write_inv sent sid rnd ?parts ?K (dpl_QPartsStreams dp) ?C A ?Z rem' dp2" by blast
  have str: "dom (dpl_Streams dp2) = ?K"
    "\<forall>k \<in> ?K. \<exists>st. dpl_Streams dp2 k = Some st \<and> entries (ds_Queue st) = rem' k
       \<and> sent (ds_ssqc st) @ frames sid rnd ?parts (map part_of (rem' k)) = ?Z k"
    using dp2(2) unfolding write_inv_def by auto
  define r where "r = (\<Sum>k \<in> ?K. length (rem' k))"
  have "sender_object rnd ?parts r (cs_objs (dpl_completionStore dp2) ! A)"
    using dp2(2) unfolding write_inv_def Let_def r_def by auto
  then have "WriteForStream_returns A dp2 \<longleftrightarrow> r = 0"
    by (simp add: WriteForStream_returns_def sender_object_def)
  moreover have "r = 0 \<longleftrightarrow> (\<forall>k \<in> ?K. rem' k = [])" using assms(2) by (simp add: r_def)
  moreover have "idle dp2 \<longleftrightarrow> (\<forall>k \<in> ?K. rem' k = [])"
  proof
    assume "idle dp2"
    then show "\<forall>k \<in> ?K. rem' k = []" using str(2) unfolding idle_iff by metis
  next
    assume e: "\<forall>k \<in> ?K. rem' k = []"
    show "idle dp2"
      unfolding idle_iff
    proof (intro allI impI)
      fix k st
      assume k: "dpl_Streams dp2 k = Some st"
      then have "k \<in> ?K" using str(1) by blast
      with str(2) e show "entries (ds_Queue st) = []" using k by (metis option.inject)
    qed
  qed
  moreover have "has_sent sent sid rnd das dp dp2" if "\<forall>k \<in> ?K. rem' k = []"
    using str that by (force simp: has_sent_def)
  ultimately show ?thesis using wfs(1) dp2(1) by blast
qed

text \<open>A part without data is never counted: its sequence never completes.\<close>

definition stuck :: "nat \<Rightarrow> ('addr, 'path, 's) QPartsDataplane \<Rightarrow> bool" where
  "stuck A dp \<longleftrightarrow> A < length (cs_objs (dpl_completionStore dp)) \<and> \<not> WriteForStream_returns A dp
     \<and> (\<forall>j st. dpl_Streams dp j = Some st \<longrightarrow> (\<forall>da \<in> set (entries (ds_Queue st)). da_Data da = []))"

lemma writeLoop_stuck:
  assumes "stuck A dp" "writeLoop wr k dp = Goes dp'"
  shows "stuck A dp'"
proof -
  from assms(2) obtain st da q where st: "dpl_Streams dp k = Some st"
    "Queue_Get (ds_Queue st) = Some (da, q)"
    by (auto simp: writeLoop_def split: option.splits)
  have q: "entries (ds_Queue st) = da # entries q" using queue.get_first [OF st(2)] .
  then have e: "da_Data da = []" using assms(1) st(1) unfolding stuck_def by (metis list.set_intros(1))
  let ?dp1 = "set_stream k (st\<lparr>ds_Queue := q\<rparr>) dp"
  obtain a store where cs: "GetOrCreateSendingSequenceCompletion (da_StreamId da) (da_SequenceId da)
      (da_NumParts da) (da_SequenceSize da) (dpl_completionStore ?dp1) = (a, store)" by fastforce
  let ?dp2 = "?dp1\<lparr>dpl_completionStore := store\<rparr>"
  have "A < length (cs_objs store) \<and> cs_objs store ! A = cs_objs (dpl_completionStore dp) ! A"
    using cs assms(1) by (auto simp: GetOrCreateSendingSequenceCompletion_def cs_alloc_def stuck_def
        set_stream_def nth_append split: option.splits)
  moreover have "\<forall>da \<in> set (entries (ds_Queue x)). da_Data da = []" if "dpl_Streams ?dp2 j = Some x" for j x
  proof (cases "j = k")
    case True
    then have "ds_Queue x = q" using that by (auto simp: set_stream_def)
    moreover have "\<forall>da \<in> set (entries (ds_Queue st)). da_Data da = []"
      using assms(1) st(1) unfolding stuck_def by blast
    ultimately show ?thesis using q by simp
  next
    case False
    then have "dpl_Streams dp j = Some x" using that by (simp add: set_stream_def)
    then show ?thesis using assms(1) unfolding stuck_def by blast
  qed
  ultimately have s2: "stuck A ?dp2" using assms(1) by (simp add: stuck_def WriteForStream_returns_def)
  have "\<exists>t s. dp' = set_ssqc t s ?dp2"
    using assms(2) st cs e by (simp add: writeLoop_def Let_def split: option.splits sum.splits if_splits prod.splits) blast+
  then obtain t s where dp': "dp' = set_ssqc t s ?dp2" by blast
  have "\<exists>y. dpl_Streams ?dp2 j = Some y \<and> ds_Queue x = ds_Queue y" if "dpl_Streams dp' j = Some x" for j x
    using that unfolding dp' by (auto simp: set_ssqc_def split: if_splits)
  then have "\<forall>da \<in> set (entries (ds_Queue x)). da_Data da = []" if "dpl_Streams dp' j = Some x" for j x
    using s2 that unfolding stuck_def by metis
  with s2 show ?thesis unfolding dp' by (simp add: stuck_def WriteForStream_returns_def)
qed

lemma run_writers_stuck: "stuck A dp \<Longrightarrow> run_writers wr ks dp = Inr dp' \<Longrightarrow> stuck A dp'"
  by (induction ks arbitrary: dp) (auto split: loop_result.splits dest: writeLoop_stuck)

text \<open>Readers of other streams are not disturbed.\<close>

lemma readLoop_other:
  assumes "readLoop rd k (dp, held) = Goes (dp', held')" "j \<noteq> k"
  shows "dpl_Streams dp' j = dpl_Streams dp j" "held' j = held j"
  using assms by (auto simp: readLoop_def readLoop_header_def readLoop_payload_def set_ssqc_def Let_def
      split: option.splits loop_result.splits sum.splits prod.splits if_splits)

lemma run_readers_other:
  assumes "run_readers rd ks (dp, held) = Inr (dp', held')" "j \<notin> set ks"
  shows "dpl_Streams dp' j = dpl_Streams dp j" "held' j = held j"
  using assms
proof (induction ks arbitrary: dp held)
  case (Cons k ks)
  { case 1 with Cons.IH show ?case by (auto split: loop_result.splits dest: readLoop_other) }
  { case 2 with Cons.IH show ?case by (auto split: loop_result.splits dest: readLoop_other) }
qed simp_all

lemma run_readers_append:
  "run_readers rd (xs @ ys) c = go_bind (run_readers rd xs c) (run_readers rd ys)"
  by (induction xs arbitrary: c) (auto split: loop_result.splits)

section \<open>Properties\<close>

text \<open>A sequence of one part arrives on a stream, and may find no stream of the application.\<close>

lemma one_part_arrives:
  assumes "stream_delivers rd pend" "sendable [d]" "dpl_Streams dp k = Some st"
    and "pend (ds_ssqc st) = frames sid seq [d] [(0, d)] @ rest" "Completions (dpl_completionStore dp) seq = None"
  shows "case dpl_QPartsStreams dp sid of
     None \<Rightarrow> run_readers rd [k, k] (dp, Map.empty) = Inl NilDereference
   | Some s \<Rightarrow> \<exists>dp'. run_readers rd [k, k] (dp, Map.empty) = Inr (dp', Map.empty)
       \<and> dpl_QPartsStreams dp' = (dpl_QPartsStreams dp)(sid \<mapsto> delivered s d)"
proof -
  let ?cs = "dpl_completionStore dp" and ?A = "length (cs_objs (dpl_completionStore dp))"
  let ?w = "dp_wire (part_header sid seq [d] 0 d)" and ?h = "wire_header sid seq [d] 0 d"
  obtain s1 where s1: "ReadAll rd (ds_ssqc st) 52 = Some (?w, None, s1)" "pend s1 = d @ rest"
    using ReadAll_delivers [OF assms(1), of 52 "ds_ssqc st"] assms(4) by auto
  obtain s2 where s2: "ReadAll rd s1 (length d) = Some (d, None, s2)"
    using ReadAll_delivers [OF assms(1), of "length d" s1] s1(2) by auto
  have one: "transferable [d]" "length (concat [d]) \<le> maxAlloc" "(0, d) \<in> set (indexed [d])"
    using sendable_transferable [OF assms(2)] assms(2) by (simp_all add: sendable_def indexed_def)
  note b = sendable_bounds [OF assms(2) one(3)]
  obtain cs' where cs': "GetOrCreateSequenceCompletion sid seq (of_nat (length [d])) (of_nat (length (concat [d]))) ?cs
      = Inr (?A, cs')" "received [d] {} (cs_objs cs' ! ?A)"
    using fresh_received [OF one(1,2) assms(5)] by metis
  let ?dp1 = "(set_ssqc k s1 dp)\<lparr>dpl_completionStore := cs'\<rparr>"
  have header: "readLoop rd k (dp, Map.empty) = Goes (?dp1, [k \<mapsto> (?h, ?A)])"
    using assms(3) s1(1) cs'(1) by (simp add: readLoop_def readLoop_header_def decode_frame_header Let_def)
  obtain sc where sc: "AddPart 0 d (cs_objs cs' ! ?A) = Inr (True, sc)" "sc_Data sc = d"
    using AddPart_received [OF one(1) cs'(2) one(3)] by (auto simp: indexed_def)
  have st1: "dpl_Streams ?dp1 k = Some (st\<lparr>ds_ssqc := s1\<rparr>)" using assms(3) by (simp add: set_ssqc_def)
  have copy: "go_copy (replicate (length d) 0) d = d" by (simp add: go_copy_full)
  show ?thesis
    using header st1 s2 b sc copy
    by (auto simp: readLoop_def readLoop_payload_def go_make_def Let_def delivered_def split: option.split)
qed

text \<open>The receiving side is all-or-nothing: while the read loops work through the frames of a
  sequence, in any interleaving and stopped at any point, none of them panics, and the read buffers
  of all streams are either untouched or hold exactly one copy of the whole sequence at the end of
  the buffer of its stream.\<close>

theorem readers_all_or_nothing:
  assumes "stream_delivers rd pend" "stream_blocks rd pend" "sendable parts" "set ks \<subseteq> K"
    and "dpl_QPartsStreams dp sid = Some s0" "Completions (dpl_completionStore dp) seq = None"
    and "plan parts K G" "(\<Union>k \<in> K. set (G k)) = set (indexed parts)"
    and "\<And>k. k \<in> K \<Longrightarrow> \<exists>st. dpl_Streams dp k = Some st \<and> pend (ds_ssqc st) = frames sid seq parts (G k)"
  shows "\<exists>dp' held'. run_readers rd ks (dp, Map.empty) = Inr (dp', held')
     \<and> (dpl_QPartsStreams dp' = dpl_QPartsStreams dp
        \<or> dpl_QPartsStreams dp' = (dpl_QPartsStreams dp)(sid \<mapsto>
            s0\<lparr>ps_ReadBuffer := pb_Append (ps_ReadBuffer s0) (concat parts)\<rparr>)
          \<and> Completions (dpl_completionStore dp') = Completions (dpl_completionStore dp))"
proof -
  have "indexed parts \<noteq> []" using assms(3) by (simp add: indexed_def sendable_def)
  then have "arrived parts K G = {}" "{} \<noteq> set (indexed parts)" using assms(8) by (auto simp: arrived_def)
  with assms(9) have "read_inv pend sid seq parts K (dpl_QPartsStreams dp) s0
      (Completions (dpl_completionStore dp)) (length (cs_objs (dpl_completionStore dp))) G dp Map.empty"
    by (auto simp: read_inv_def reader_at_def)
  from run_readers_inv [OF assms(1,2,3,6,5,4) this assms(7)] show ?thesis
    by (fastforce simp: read_inv_def delivered_def split: if_splits)
qed

definition one_frame :: "(nat, nat, byte list) QPartsDataplane" where
  "one_frame = (AddListenStream 1 (frames 9 77 [[7, 8]] [(0, [7, 8])]) (NewQPartsDataplane Map.empty))
     \<lparr>dpl_QPartsStreams := [9 \<mapsto> \<lparr>ps_Id = 9, ps_ReadBuffer = NewPacketBuffer, ps_conn = False, ps_Preference = 0,
        ps_readDeadline = 0, ps_writeDeadline = 0, ps_deadline = 0, ps_deadlineSet = False\<rparr>]\<rparr>"

definition memory_read :: "byte list qread" where
  "memory_read s n = (if s = [] then None else Some (take n s, None, drop n s))"

lemma memory_read: "stream_delivers memory_read id" "stream_blocks memory_read id"
proof -
  show "stream_delivers memory_read id"
    unfolding stream_delivers_def
  proof (intro allI impI)
    fix s :: "byte list" and n :: nat
    assume "0 < n \<and> id s \<noteq> []"
    then show "\<exists>k s'. 0 < k \<and> k \<le> n \<and> k \<le> length (id s)
        \<and> memory_read s n = Some (take k (id s), None, s') \<and> id s' = drop k (id s)"
      by (intro exI [of _ "min n (length s)"] exI [of _ "drop n s"]) (auto simp: memory_read_def min_def)
  qed
qed (simp add: stream_blocks_def memory_read_def)

lemma one_frame:
  "\<exists>s0. dpl_QPartsStreams one_frame 9 = Some s0 \<and> pb_buffer (ps_ReadBuffer s0) = []"
  "Completions (dpl_completionStore one_frame) = Map.empty"
  "dpl_Streams one_frame k = (if k = 1 then Some \<lparr>ds_ssqc = frames 9 77 [[7, 8]] [(0, [7, 8])],
     ds_PartsPath = None, ds_Queue = NewQueue, ds_StreamType = 0, ds_OptimalPartSize = 0\<rparr> else None)"
  "sendable [[7, 8]]" "plan [[7, 8]] {1} (\<lambda>k. [(0, [7, 8])])" "indexed [[7 :: byte, 8]] = [(0, [7, 8])]"
  by (auto simp: one_frame_def AddListenStream_def NewQPartsDataplane_def NewCompletionStore_def
      NewPacketBuffer_def sendable_def plan_def indexed_def maxAlloc_def)

theorem readers_all_or_nothing_witness:
  "\<exists>dp' held'. run_readers memory_read [1] (one_frame, Map.empty) = Inr (dp', held')"
proof -
  obtain s0 where s0: "dpl_QPartsStreams one_frame 9 = Some s0" using one_frame(1) by blast
  have "\<exists>dp' held'. run_readers memory_read [1] (one_frame, Map.empty) = Inr (dp', held')
     \<and> (dpl_QPartsStreams dp' = dpl_QPartsStreams one_frame
        \<or> dpl_QPartsStreams dp' = (dpl_QPartsStreams one_frame)(9 \<mapsto>
            s0\<lparr>ps_ReadBuffer := pb_Append (ps_ReadBuffer s0) (concat [[7, 8]])\<rparr>)
          \<and> Completions (dpl_completionStore dp') = Completions (dpl_completionStore one_frame))"
    by (rule readers_all_or_nothing [OF memory_read one_frame(4) _ s0 _ one_frame(5)])
      (auto simp: one_frame)
  then show ?thesis by blast
qed

text \<open>\<^verbatim>\<open>WriteForStream\<close> returns exactly when everything is sent: stop the write loops at any point of
  any schedule, and it has returned if and only if all queues are empty; every stream has then been
  given the frames of its parts, header and payload, in order, and no write loop has panicked.\<close>

theorem write_returns_iff_sent:
  fixes dp :: "('addr, 'path, 's) QPartsDataplane"
  assumes "stream_accepts wr sent" "finite (dom (dpl_Streams dp))" "idle dp"
    and "Completions (dpl_completionStore dp) rnd = None"
    and "sendable (map da_Data das)" "placed das (dom (dpl_Streams dp))" "set ks \<subseteq> dom (dpl_Streams dp)"
  shows "\<exists>dp1 dp2 A. WriteForStream \<lparr>Assignments = das\<rparr> sid rnd dp = Inr (A, length (concat (map da_Data das)), dp1)
     \<and> run_writers wr ks dp1 = Inr dp2 \<and> (WriteForStream_returns A dp2 \<longleftrightarrow> idle dp2)
     \<and> (idle dp2 \<longrightarrow> has_sent sent sid rnd das dp dp2)"
  using WriteForStream_partial [OF assms] .

definition memory_write :: "byte list qwrite" where
  "memory_write s p = Some (length p, None, s @ p)"

lemma memory_write: "stream_accepts memory_write id"
  by (simp add: stream_accepts_def memory_write_def)

theorem write_returns_iff_sent_witness:
  "\<exists>dp1 A. WriteForStream \<lparr>Assignments = [zero_DataAssignment\<lparr>da_DataplaneStream := Some 1, da_Data := [7, 8]\<rparr>]\<rparr> 9 77 one_frame
       = Inr (A, 2, dp1)
     \<and> \<not> WriteForStream_returns A dp1"
proof -
  let ?das = "[zero_DataAssignment\<lparr>da_DataplaneStream := Some 1, da_Data := [7, 8]\<rparr>] :: nat DataAssignment list"
  have "dom (dpl_Streams one_frame) = {1}" "idle one_frame"
    by (auto simp: one_frame(3) idle_iff NewQueue_def split: if_splits)
  moreover have "sendable (map da_Data ?das)" "placed ?das {1}" using one_frame(4) by (simp_all add: placed_def)
  ultimately obtain dp1 A where w: "WriteForStream \<lparr>Assignments = ?das\<rparr> 9 77 one_frame = Inr (A, length (concat (map da_Data ?das)), dp1)"
    "WriteForStream_returns A dp1 \<longleftrightarrow> idle dp1"
    using write_returns_iff_sent [OF memory_write, of one_frame 77 ?das "[]" 9] one_frame(2) by auto
  have "\<not> idle dp1"
  proof
    assume "idle dp1"
    moreover have "dpl_Streams dp1 1 \<noteq> None \<and> entries (ds_Queue (the (dpl_Streams dp1 1))) \<noteq> []"
      using w(1) by (auto simp: WriteForStream_def cs_alloc_def Let_def one_frame(3) set_stream_def Queue_Add_def
          NewSequenceCompletionFromSchedulingDecision_def new_completion_def)
    ultimately show False unfolding idle_iff by auto
  qed
  with w show ?thesis by auto
qed

lemma reordered_delivery:
  assumes "stream_delivers rd pend" "stream_blocks rd pend" "sendable [a]" "sendable [b]" "k \<noteq> j" "seq \<noteq> seq'"
    and "dpl_QPartsStreams dp sid = Some s0"
    and "Completions (dpl_completionStore dp) seq = None" "Completions (dpl_completionStore dp) seq' = None"
    and "dpl_Streams dp k = Some st" "pend (ds_ssqc st) = frames sid seq [a] [(0, a)]"
    and "dpl_Streams dp j = Some st'" "pend (ds_ssqc st') = frames sid seq' [b] [(0, b)]"
  obtains dp1 dp2 where "run_readers rd [k, k, j, j] (dp, Map.empty) = Inr (dp1, Map.empty)"
    "dpl_QPartsStreams dp1 sid = Some (delivered (delivered s0 a) b)"
    "run_readers rd [j, j, k, k] (dp, Map.empty) = Inr (dp2, Map.empty)"
    "dpl_QPartsStreams dp2 sid = Some (delivered (delivered s0 b) a)"
proof -
  have one: "\<exists>dp'. run_readers rd [k, k] (dp, Map.empty) = Inr (dp', Map.empty)
      \<and> dpl_QPartsStreams dp' = (dpl_QPartsStreams dp)(sid \<mapsto> delivered s0 a)
      \<and> Completions (dpl_completionStore dp') = Completions (dpl_completionStore dp)
      \<and> (\<forall>j. j \<noteq> k \<longrightarrow> dpl_Streams dp' j = dpl_Streams dp j)"
    if "sendable [a]" "dpl_QPartsStreams dp sid = Some s0" "Completions (dpl_completionStore dp) seq = None"
      "dpl_Streams dp k = Some st" "pend (ds_ssqc st) = frames sid seq [a] [(0, a)]"
    for dp a seq k s0 st
  proof -
    have "plan [a] {k} (\<lambda>_. [(0, a)])" "(\<Union>j \<in> {k}. set [(0, a)]) = set (indexed [a])"
      by (auto simp: plan_def indexed_def)
    from run_readers_deliver [OF assms(1,2) that(1) _ that(2,3) this, of "[k, k]"] that(4,5)
    obtain dp' held' where r: "run_readers rd [k, k] (dp, Map.empty) = Inr (dp', held')"
      "dpl_QPartsStreams dp' = (dpl_QPartsStreams dp)(sid \<mapsto> delivered s0 a)"
      "Completions (dpl_completionStore dp') = Completions (dpl_completionStore dp)" "held' k = None"
      by auto
    have "held' = Map.empty"
    proof
      fix j show "held' j = None" using run_readers_other(2) [OF r(1), of j] r(4) by (cases "j = k") auto
    qed
    then show ?thesis using r run_readers_other(1) [OF r(1)] by auto
  qed
  have both: "\<exists>dp1. run_readers rd [k, k, j, j] (dp, Map.empty) = Inr (dp1, Map.empty)
      \<and> dpl_QPartsStreams dp1 sid = Some (delivered (delivered s0 a) b)"
    if h: "sendable [a]" "sendable [b]" "k \<noteq> j" "dpl_QPartsStreams dp sid = Some s0"
      "Completions (dpl_completionStore dp) seq = None" "Completions (dpl_completionStore dp) seq' = None"
      "dpl_Streams dp k = Some st" "pend (ds_ssqc st) = frames sid seq [a] [(0, a)]"
      "dpl_Streams dp j = Some st'" "pend (ds_ssqc st') = frames sid seq' [b] [(0, b)]"
    for a b k j seq seq' st st'
  proof -
    obtain dp' where d: "run_readers rd [k, k] (dp, Map.empty) = Inr (dp', Map.empty)"
      "dpl_QPartsStreams dp' = (dpl_QPartsStreams dp)(sid \<mapsto> delivered s0 a)"
      "Completions (dpl_completionStore dp') = Completions (dpl_completionStore dp)"
      "\<forall>j. j \<noteq> k \<longrightarrow> dpl_Streams dp' j = dpl_Streams dp j"
      using one [OF h(1,4,5,7,8)] by blast
    obtain dp1 where e: "run_readers rd [j, j] (dp', Map.empty) = Inr (dp1, Map.empty)"
      "dpl_QPartsStreams dp1 = (dpl_QPartsStreams dp')(sid \<mapsto> delivered (delivered s0 a) b)"
      using one [of b dp' "delivered s0 a" seq' j st'] h d by auto
    have "run_readers rd ([k, k] @ [j, j]) (dp, Map.empty) = Inr (dp1, Map.empty)"
      unfolding run_readers_append d(1) by (simp add: e(1) del: run_readers.simps)
    then show ?thesis using e(2) by (auto simp del: run_readers.simps)
  qed
  show thesis
    using both [OF assms(3,4,5,7,8,9,10-13)] both [OF assms(4,3) _ assms(7,9,8,12,13,10,11)] assms(5)
    by (metis that)
qed

text \<open>C20: Two writes to the same stream can arrive in either order: when the frame of one sequence waits
  on one data plane stream and the frame of another on a second one, the order in which the two read
  loops get their turns decides which of them comes first in the read buffer.\<close>

theorem writes_can_be_reordered:
  assumes "stream_delivers rd pend" "stream_blocks rd pend" "sendable [a]" "sendable [b]" "k \<noteq> j" "seq \<noteq> seq'"
    and "dpl_QPartsStreams dp sid = Some s0"
    and "Completions (dpl_completionStore dp) seq = None" "Completions (dpl_completionStore dp) seq' = None"
    and "dpl_Streams dp k = Some st" "pend (ds_ssqc st) = frames sid seq [a] [(0, a)]"
    and "dpl_Streams dp j = Some st'" "pend (ds_ssqc st') = frames sid seq' [b] [(0, b)]"
  shows "\<exists>dp1 held1 dp2 held2. run_readers rd [k, k, j, j] (dp, Map.empty) = Inr (dp1, held1)
     \<and> run_readers rd [j, j, k, k] (dp, Map.empty) = Inr (dp2, held2)
     \<and> pb_buffer (ps_ReadBuffer (the (dpl_QPartsStreams dp1 sid))) = pb_buffer (ps_ReadBuffer s0) @ a @ b
     \<and> pb_buffer (ps_ReadBuffer (the (dpl_QPartsStreams dp2 sid))) = pb_buffer (ps_ReadBuffer s0) @ b @ a"
  by (rule reordered_delivery [OF assms]) (fastforce simp: delivered_def pb_Append_def simp del: run_readers.simps)

definition two_frames :: "(nat, nat, byte list) QPartsDataplane" where
  "two_frames = AddListenStream 2 (frames 9 78 [[5]] [(0, [5])]) one_frame"

theorem writes_can_be_reordered_witness:
  "\<exists>dp1 held1 dp2 held2. run_readers memory_read [1, 1, 2, 2] (two_frames, Map.empty) = Inr (dp1, held1)
     \<and> run_readers memory_read [2, 2, 1, 1] (two_frames, Map.empty) = Inr (dp2, held2)
     \<and> pb_buffer (ps_ReadBuffer (the (dpl_QPartsStreams dp1 9))) = [7, 8, 5]
     \<and> pb_buffer (ps_ReadBuffer (the (dpl_QPartsStreams dp2 9))) = [5, 7, 8]"
proof -
  obtain s0 where s0: "dpl_QPartsStreams one_frame 9 = Some s0" "pb_buffer (ps_ReadBuffer s0) = []"
    using one_frame(1) by blast
  have t: "dpl_QPartsStreams two_frames 9 = Some s0" "Completions (dpl_completionStore two_frames) = Map.empty"
    "dpl_Streams two_frames 1 = dpl_Streams one_frame 1"
    "dpl_Streams two_frames 2 = Some \<lparr>ds_ssqc = frames 9 78 [[5]] [(0, [5])], ds_PartsPath = None,
        ds_Queue = NewQueue, ds_StreamType = 0, ds_OptimalPartSize = 0\<rparr>"
    using s0(1) one_frame(2) by (simp_all add: two_frames_def AddListenStream_def)
  have "sendable [[5]]" by (simp add: sendable_def maxAlloc_def)
  from writes_can_be_reordered [OF memory_read one_frame(4) this, of 1 2 77 78 two_frames 9 s0] t
  show ?thesis using s0(2) by (auto simp: one_frame(3))
qed

end
