(* ===== verification/Streams.thy ===== *)
theory Streams
  imports Delivery
begin

text \<open>
  \<^verbatim>\<open>qparts_stream.go\<close>: reading from and writing to a \<^verbatim>\<open>PartsStream\<close>, and its deadlines.  Time is
  an integer, 0 the zero \<^verbatim>\<open>time.Time\<close>.  The last section follows a \<^verbatim>\<open>Write\<close> through the scheduler,
  the write loops, the QUIC streams and the read loops of the peer to its \<^verbatim>\<open>Read\<close>.
\<close>

section \<open>Streams\<close>

definition QPARTS_STREAM_PREFERENCE_LATENCY :: u32 where "QPARTS_STREAM_PREFERENCE_LATENCY = 1"
definition QPARTS_STREAM_PREFERENCE_THROUGHPUT :: u32 where "QPARTS_STREAM_PREFERENCE_THROUGHPUT = 1"
definition QPARTS_STREAM_PREFERENCE_FAIRNESS :: u32 where "QPARTS_STREAM_PREFERENCE_FAIRNESS = 1"

definition NewPartsStream :: "u64 \<Rightarrow> PartsStream" where
  "NewPartsStream i =
     \<lparr>ps_Id = i, ps_ReadBuffer = NewPacketBuffer, ps_conn = False, ps_Preference = 0,
      ps_readDeadline = 0, ps_writeDeadline = 0, ps_deadline = 0, ps_deadlineSet = False\<rparr>"

definition SetDeadline :: "int \<Rightarrow> PartsStream \<Rightarrow> PartsStream" where
  "SetDeadline t s = s\<lparr>ps_deadline := t, ps_readDeadline := t, ps_writeDeadline := t, ps_deadlineSet := True\<rparr>"

definition SetReadDeadline :: "int \<Rightarrow> PartsStream \<Rightarrow> PartsStream" where
  "SetReadDeadline t s = s\<lparr>ps_readDeadline := t, ps_deadlineSet := True\<rparr>"

definition SetWriteDeadline :: "int \<Rightarrow> PartsStream \<Rightarrow> PartsStream" where
  "SetWriteDeadline t s = s\<lparr>ps_writeDeadline := t, ps_deadlineSet := True\<rparr>"

definition Stream_Close :: "PartsStream \<Rightarrow> PartsStream" where
  "Stream_Close s = s"

text \<open>\<open>None\<close>: the call waits for data.  Otherwise the caller's buffer, the count, the error and
  the stream afterwards.\<close>

definition Stream_Read ::
  "int \<Rightarrow> byte list \<Rightarrow> PartsStream \<Rightarrow> (byte list \<times> nat \<times> string option \<times> PartsStream) option" where
  "Stream_Read now b s =
     (if ps_deadlineSet s \<and> ps_readDeadline s \<noteq> 0 \<and> ps_readDeadline s < now
      then Some (b, 0, Some ''read timeout'', s)
      else
        (case pb_Read (ps_ReadBuffer s) (length b) of
           None \<Rightarrow> None
         | Some (bts, pb) \<Rightarrow>
             Some (go_copy b bts, min (length b) (length bts), None, s\<lparr>ps_ReadBuffer := pb\<rparr>)))"

text \<open>Up to the point where \<^verbatim>\<open>WriteForStream\<close> waits; \<open>Inl\<close> is the error returned at once.\<close>

definition set_remote :: "'addr option \<Rightarrow> 'addr SchedulingDecision \<Rightarrow> 'addr SchedulingDecision" where
  "set_remote remote d = d\<lparr>Assignments := map (\<lambda>da. da\<lparr>da_Remote := remote\<rparr>) (Assignments d)\<rparr>"

definition Stream_Write ::
  "int \<Rightarrow> byte list \<Rightarrow> u64 list \<Rightarrow> u64 list \<Rightarrow> u64 \<Rightarrow> 'addr option \<Rightarrow> PartsStream
     \<Rightarrow> ('addr, 'path, 's) QPartsDataplane
     \<Rightarrow> (string + nat \<times> nat \<times> ('addr, 'path, 's) QPartsDataplane) go" where
  "Stream_Write now b order1 order2 rnd remote s dp =
     (if ps_deadlineSet s \<and> ps_writeDeadline s \<noteq> 0 \<and> ps_writeDeadline s < now
      then Inr (Inl ''write timeout'')
      else
        go_bind (ScheduleWrite b order1 order2) (\<lambda>assignments.
        go_bind (WriteForStream (set_remote remote assignments) (ps_Id s) rnd dp) (\<lambda>r. Inr (Inr r))))"

section \<open>Reading\<close>

definition write_open :: "int \<Rightarrow> PartsStream \<Rightarrow> bool" where
  "write_open now s \<longleftrightarrow> \<not> ps_deadlineSet s \<or> ps_writeDeadline s = 0 \<or> now \<le> ps_writeDeadline s"

definition read_open :: "int \<Rightarrow> PartsStream \<Rightarrow> bool" where
  "read_open now s \<longleftrightarrow> \<not> ps_deadlineSet s \<or> ps_readDeadline s = 0 \<or> now \<le> ps_readDeadline s"

lemma Stream_Read_open:
  assumes "read_open now s" "pb_buffer (ps_ReadBuffer s) = buf" "buf \<noteq> []"
  shows "Stream_Read now b s = Some (take (length b) buf @ drop (length buf) b,
     min (length b) (length buf), None, s\<lparr>ps_ReadBuffer := \<lparr>pb_buffer = drop (length b) buf\<rparr>\<rparr>)"
proof -
  have "buf \<noteq> [] \<Longrightarrow> pb_Read (ps_ReadBuffer s) (length b) = Some (take (length b) buf, \<lparr>pb_buffer = drop (length b) buf\<rparr>)"
    using assms(2) by (simp add: pb_Read_def Let_def)
  moreover have "go_copy b (take (length b) buf) = take (length b) buf @ drop (length buf) b"
    by (simp add: go_copy_def min_def)
  ultimately show ?thesis using assms by (auto simp: Stream_Read_def read_open_def)
qed

text \<open>
  A stream read through its own \<^verbatim>\<open>Read\<close> keeps the contract that the data plane expects of a QUIC
  stream, so the same \<^verbatim>\<open>io.ReadFull\<close> loop works on both.
\<close>

definition stream_rd :: "int \<Rightarrow> PartsStream qread" where
  "stream_rd now s n = map_option
     (\<lambda>(b, k, err, s'). (take k b, map_option IOError err, s')) (Stream_Read now (replicate n 0) s)"

definition readable :: "int \<Rightarrow> PartsStream \<Rightarrow> byte list" where
  "readable now s = (if read_open now s then pb_buffer (ps_ReadBuffer s) else [])"

lemma stream_rd_delivers: "stream_delivers (stream_rd now) (readable now)"
  unfolding stream_delivers_def
proof (intro allI impI)
  fix s :: PartsStream and n :: nat
  assume a: "0 < n \<and> readable now s \<noteq> []"
  let ?buf = "pb_buffer (ps_ReadBuffer s)" and ?k = "min n (length (pb_buffer (ps_ReadBuffer s)))"
  let ?s' = "s\<lparr>ps_ReadBuffer := \<lparr>pb_buffer = drop n ?buf\<rparr>\<rparr>"
  from a have o: "read_open now s" "?buf \<noteq> []" "readable now s = ?buf"
    by (auto simp: readable_def split: if_splits)
  have "readable now ?s' = drop n ?buf" using o(1) by (simp add: readable_def read_open_def)
  moreover have "drop ?k ?buf = drop n ?buf" "take ?k ?buf = take n ?buf" by (auto simp: min_def)
  moreover have "stream_rd now s n = Some (take n ?buf, None, ?s')"
    using Stream_Read_open [OF o(1) refl o(2), of "replicate n 0"] by (simp add: stream_rd_def min_def)
  ultimately show "\<exists>k s'. 0 < k \<and> k \<le> n \<and> k \<le> length (readable now s)
      \<and> stream_rd now s n = Some (take k (readable now s), None, s') \<and> readable now s' = drop k (readable now s)"
    using a o by (intro exI [of _ ?k] exI [of _ ?s']) auto
qed

section \<open>From \<^verbatim>\<open>Write\<close> to \<^verbatim>\<open>Read\<close>\<close>

text \<open>Both \<^verbatim>\<open>range\<close> loops of \<^verbatim>\<open>ScheduleWrite\<close> visit every stream once, in any order.\<close>

definition visits :: "u64 list \<Rightarrow> u64 set \<Rightarrow> bool" where
  "visits order K \<longleftrightarrow> distinct order \<and> set order = K"

text \<open>A schedule of the loops of the streams in \<open>K\<close> that gives each of them at least \<open>n\<close> turns.\<close>

definition turns :: "nat \<Rightarrow> u64 set \<Rightarrow> u64 list \<Rightarrow> bool" where
  "turns n K ks \<longleftrightarrow> set ks \<subseteq> K \<and> (\<forall>k \<in> K. n \<le> count_list ks k)"

text \<open>Large enough that no part is empty.\<close>

definition splittable :: "byte list \<Rightarrow> u64 set \<Rightarrow> bool" where
  "splittable b K \<longleftrightarrow> b \<noteq> [] \<and> length b \<le> maxAlloc \<and> K \<noteq> {} \<and> (length b \<le> 1000 \<or> 5 * card K \<le> length b)"

lemma concat_map_source: "concat (map f xs) \<noteq> [] \<Longrightarrow> xs \<noteq> []"
  by auto

lemma ScheduleWrite_sendable:
  assumes "splittable b K" "visits order1 K" "visits order2 K"
  obtains das :: "'addr DataAssignment list" where "ScheduleWrite b order1 order2 = Inr \<lparr>Assignments = das\<rparr>"
    "sendable (map da_Data das)" "placed das K" "concat (map da_Data das) = b"
proof (cases "length b \<le> 1000")
  case True
  from assms obtain p ps where o: "order1 = p # ps" "p \<in> K"
    by (cases order1) (auto simp: visits_def splittable_def)
  let ?das = "[zero_DataAssignment\<lparr>da_DataplaneStream := Some p, da_Data := b\<rparr>]"
  have "ScheduleWrite b order1 order2 = Inr \<lparr>Assignments = ?das\<rparr>"
    using True o by (simp add: ScheduleWrite_def)
  moreover have "sendable (map da_Data ?das)" using assms(1) by (auto simp: sendable_def splittable_def)
  ultimately show thesis using o by (intro that [of ?das]) (simp_all add: placed_def)
next
  case False
  have o: "distinct order2" "set order2 = K" "length order2 = card K"
    using assms(3) distinct_card [of order2] by (auto simp: visits_def)
  have b: "1000 < length b" "order2 \<noteq> []" "5 * length order2 \<le> length b" "length b \<le> maxAlloc"
    using False assms(1) o by (auto simp: splittable_def)
  obtain shares where sw: "ScheduleWrite b order1 order2 = Inr (\<lparr>Assignments =
       concat (map2 (\<lambda>p c. map (assign_to p) (five_cuts c)) order2 shares)\<rparr> :: 'addr SchedulingDecision)"
    and sh: "length shares = length order2" "concat shares = b"
    and len: "\<And>c. c \<in> set shares \<Longrightarrow> length b div length order2 \<le> length c
       \<and> length c \<le> length b div length order2 + 1"
    using ScheduleWrite_long [of b order2 order1] b by auto
  define das :: "'addr DataAssignment list" where
    "das = concat (map2 (\<lambda>p c. map (assign_to p) (five_cuts c)) order2 shares)"
  have data: "concat (map da_Data das) = b"
    using concat_map2_assign_data [of order2 shares] sh by (simp add: das_def)
  have "5 \<le> length b div length order2"
    using b by (simp add: less_eq_div_iff_mult_less_eq)
  then have "5 \<le> length c" if "c \<in> set shares" for c using len [OF that] by linarith
  then have cut: "d \<noteq> []" if "c \<in> set shares" "d \<in> set (five_cuts c)" for c d
    using length_five_cuts(1) [OF that(2)] that(1) by (fastforce simp: div_greater_zero_iff)
  have one: "\<exists>p \<in> set order2. da_DataplaneStream a = Some p" "da_Data a \<noteq> []" if "a \<in> set das" for a
  proof -
    from set_map2_assign [OF that [unfolded das_def]] obtain p c where
      a: "p \<in> set order2" "da_DataplaneStream a = Some p" "c \<in> set shares" "da_Data a \<in> set (five_cuts c)"
      by blast
    from a(1,2) show "\<exists>p \<in> set order2. da_DataplaneStream a = Some p" by blast
    from a(3,4) show "da_Data a \<noteq> []" by (rule cut)
  qed
  have "concat (map da_Data das) \<noteq> []" unfolding data using b(1) by auto
  then have "das \<noteq> []" by (rule concat_map_source)
  moreover have "[] \<notin> set (map da_Data das)" using one(2) by force
  ultimately have "sendable (map da_Data das)" using data b(4) by (simp add: sendable_def)
  moreover have "placed das K" using one(1) o(2) by (simp add: placed_def)
  ultimately show thesis by (rule that [OF sw [folded das_def] _ _ data])
qed

text \<open>
  The QUIC streams carry bytes reliably and in order: what the sender wrote on stream \<open>k\<close> is what
  the receiver finds on its end, which it numbers \<open>peer k\<close>.
\<close>

definition peer_connected ::
  "('s \<Rightarrow> byte list) \<Rightarrow> ('t \<Rightarrow> byte list) \<Rightarrow> (u64 \<Rightarrow> u64)
     \<Rightarrow> ('addr, 'path, 's) QPartsDataplane \<Rightarrow> ('addr, 'path, 's) QPartsDataplane
     \<Rightarrow> ('addr, 'path, 't) QPartsDataplane \<Rightarrow> bool" where
  "peer_connected sent pend peer dp dp' rdp \<longleftrightarrow> inj_on peer (dom (dpl_Streams dp))
     \<and> (\<forall>k st st'. dpl_Streams dp k = Some st \<longrightarrow> dpl_Streams dp' k = Some st' \<longrightarrow>
          (\<exists>rst. dpl_Streams rdp (peer k) = Some rst
             \<and> sent (ds_ssqc st') = sent (ds_ssqc st) @ pend (ds_ssqc rst)))"

text \<open>The other side: it has the stream \<open>sid\<close> in state \<open>s0\<close> and no completion under the number
  of the sequence that is on the way.\<close>

definition receiver_ready ::
  "('s \<Rightarrow> byte list) \<Rightarrow> ('t \<Rightarrow> byte list) \<Rightarrow> (u64 \<Rightarrow> u64) \<Rightarrow> ('addr, 'path, 's) QPartsDataplane
     \<Rightarrow> ('addr, 'path, 's) QPartsDataplane \<Rightarrow> u64 \<Rightarrow> u64 \<Rightarrow> PartsStream
     \<Rightarrow> ('addr, 'path, 't) QPartsDataplane \<Rightarrow> bool" where
  "receiver_ready sent pend peer dp dp' sid rnd s0 rdp \<longleftrightarrow> peer_connected sent pend peer dp dp' rdp
     \<and> dpl_QPartsStreams rdp sid = Some s0 \<and> Completions (dpl_completionStore rdp) rnd = None"

lemma placed_set_remote [simp]: "placed (map (\<lambda>da. da\<lparr>da_Remote := r\<rparr>) das) K = placed das K"
  by (simp add: placed_def)

lemma data_set_remote [simp]: "da_Data \<circ> da_Remote_update f = da_Data"
  by (simp add: fun_eq_iff)

lemma length_shares_of: "length (shares_of das k) \<le> length das"
  using length_filter_le [of _ "enumerate 0 das"] by (simp add: shares_of_def on_stream_def)

text \<open>The sending side of \<^verbatim>\<open>Write\<close>: in every schedule that gives each write loop enough turns, it
  returns the number of bytes and leaves nothing behind.\<close>

lemma Stream_Write_sends:
  fixes dp :: "('addr, 'path, 's) QPartsDataplane"
  assumes "stream_accepts wr sent" "finite (dom (dpl_Streams dp))" "idle dp" "write_open now s"
    and "splittable b (dom (dpl_Streams dp))" "visits order1 (dom (dpl_Streams dp))"
      "visits order2 (dom (dpl_Streams dp))"
    and "Completions (dpl_completionStore dp) rnd = None"
    and "turns (5 * card (dom (dpl_Streams dp))) (dom (dpl_Streams dp)) ks"
  shows "\<exists>das A dp1 dp2. Stream_Write now b order1 order2 rnd remote s dp = Inr (Inr (A, length b, dp1))
     \<and> run_writers wr ks dp1 = Inr dp2 \<and> WriteForStream_returns A dp2 \<and> idle dp2
     \<and> Completions (dpl_completionStore dp2) = Completions (dpl_completionStore dp)
     \<and> dpl_QPartsStreams dp2 = dpl_QPartsStreams dp
     \<and> sendable (map da_Data das) \<and> placed das (dom (dpl_Streams dp))
     \<and> concat (map da_Data das) = b \<and> length das \<le> 5 * card (dom (dpl_Streams dp))
     \<and> has_sent sent (ps_Id s) rnd das dp dp2"
proof -
  let ?K = "dom (dpl_Streams dp)"
  obtain das where das: "ScheduleWrite b order1 order2 = Inr (\<lparr>Assignments = das\<rparr> :: 'addr SchedulingDecision)"
    "sendable (map da_Data das)" "placed das ?K" "concat (map da_Data das) = b"
    using ScheduleWrite_sendable [OF assms(5,6,7)] by blast
  let ?das = "map (\<lambda>da. da\<lparr>da_Remote := remote\<rparr>) das"
  have len: "length das \<le> 5 * card ?K"
  proof (rule ScheduleWrite_count [OF das(1)])
    show "length order2 = card ?K" using assms(7) distinct_card [of order2] by (simp add: visits_def)
    show "0 < card ?K" using assms(2,5) by (simp add: splittable_def card_gt_0_iff)
  qed
  have data: "sendable (map da_Data ?das)" "placed ?das ?K" "concat (map da_Data ?das) = b"
    using das by simp_all
  have ks: "\<forall>k \<in> ?K. length ?das \<le> count_list ks k" using assms(9) len by (metis length_map order_trans turns_def)
  have sub: "set ks \<subseteq> ?K" using assms(9) by (simp add: turns_def)
  obtain dp1 dp2 A where w: "WriteForStream \<lparr>Assignments = ?das\<rparr> (ps_Id s) rnd dp = Inr (A, length b, dp1)"
    "run_writers wr ks dp1 = Inr dp2" "WriteForStream_returns A dp2" "idle dp2"
    "Completions (dpl_completionStore dp2) = Completions (dpl_completionStore dp)"
    "dpl_QPartsStreams dp2 = dpl_QPartsStreams dp" "has_sent sent (ps_Id s) rnd ?das dp dp2"
    using WriteForStream_sends [OF assms(1,2,3,8) data(1,2) sub ks, of "ps_Id s"] data(3) by auto
  have "Stream_Write now b order1 order2 rnd remote s dp = Inr (Inr (A, length b, dp1))"
    using das(1) w(1) assms(4) by (auto simp: Stream_Write_def set_remote_def write_open_def)
  moreover have "length ?das \<le> 5 * card ?K" using len by simp
  ultimately show ?thesis using w data by blast
qed

lemma plan_image:
  assumes "plan parts K H" "inj_on peer K" "\<And>k. k \<in> K \<Longrightarrow> G (peer k) = H k"
  shows "plan parts (peer ` K) G"
  unfolding plan_def
proof (intro conjI ballI impI)
  fix j
  assume "j \<in> peer ` K"
  then obtain k where "k \<in> K" "G j = H k" using assms(3) by auto
  then show "distinct (G j)" "set (G j) \<subseteq> set (indexed parts)" using assms(1) by (simp_all add: plan_def)
next
  fix i j
  assume "i \<in> peer ` K" "j \<in> peer ` K" "i \<noteq> j"
  then obtain k l where "k \<in> K" "l \<in> K" "k \<noteq> l" "G i = H k" "G j = H l" using assms(3) by auto
  then show "set (G i) \<inter> set (G j) = {}" using assms(1) by (simp add: plan_def)
qed

lemma connected_delivers:
  fixes rdp :: "('addr, 'path, 't) QPartsDataplane"
  assumes "has_sent sent sid rnd das dp dp'" "peer_connected sent pend peer dp dp' rdp"
    and "stream_delivers rd pend" "stream_blocks rd pend" "sendable (map da_Data das)"
    and "placed das (dom (dpl_Streams dp))"
    and "dpl_QPartsStreams rdp sid = Some s0" "Completions (dpl_completionStore rdp) rnd = None"
    and "length das \<le> n" "turns (2 * n) (peer ` dom (dpl_Streams dp)) ks"
  shows "\<exists>rdp' held'. run_readers rd ks (rdp, Map.empty) = Inr (rdp', held')
     \<and> dpl_QPartsStreams rdp' = (dpl_QPartsStreams rdp)(sid \<mapsto> delivered s0 (concat (map da_Data das)))
     \<and> Completions (dpl_completionStore rdp') = Completions (dpl_completionStore rdp) \<and> held' = Map.empty"
proof -
  let ?K = "dom (dpl_Streams dp)"
  define G where "G j = shares_of das (inv_into ?K peer j)" for j
  have inj: "inj_on peer ?K" using assms(2) by (simp add: peer_connected_def)
  then have G: "G (peer k) = shares_of das k" if "k \<in> ?K" for k
    using that by (simp add: G_def inv_into_f_f)
  note plan = shares_plan [OF assms(6)]
  have p1: "plan (map da_Data das) (peer ` ?K) G"
    using plan_image [OF plan(1) inj] G by blast
  have p2: "(\<Union>k \<in> peer ` ?K. set (G k)) = set (indexed (map da_Data das))"
    using plan(2) G by simp
  have p3: "\<exists>rst. dpl_Streams rdp j = Some rst
      \<and> pend (ds_ssqc rst) = frames sid rnd (map da_Data das) (G j)" if "j \<in> peer ` ?K" for j
  proof -
    from that obtain k st where k: "j = peer k" "dpl_Streams dp k = Some st" by auto
    with assms(1) obtain st' where st': "dpl_Streams dp' k = Some st'"
      by (metis domD domI has_sent_def)
    have "sent (ds_ssqc st') = sent (ds_ssqc st) @ frames sid rnd (map da_Data das) (shares_of das k)"
      using assms(1) k(2) st' unfolding has_sent_def by blast
    moreover obtain rst where "dpl_Streams rdp (peer k) = Some rst"
      "sent (ds_ssqc st') = sent (ds_ssqc st) @ pend (ds_ssqc rst)"
      using assms(2) k(2) st' unfolding peer_connected_def by blast
    moreover have "G (peer k) = shares_of das k" using k(2) by (intro G) blast
    ultimately show ?thesis using k by auto
  qed
  have p4: "2 * length (G k) \<le> count_list ks k" if "k \<in> peer ` ?K" for k
  proof -
    have "length (G k) \<le> n" unfolding G_def using length_shares_of assms(9) by (rule order_trans)
    then have "2 * length (G k) \<le> 2 * n" by simp
    with assms(10) that show ?thesis unfolding turns_def by (meson le_trans)
  qed
  have sub: "set ks \<subseteq> peer ` ?K" using assms(10) by (simp add: turns_def)
  obtain rdp' held' where r: "run_readers rd ks (rdp, Map.empty) = Inr (rdp', held')"
    "dpl_QPartsStreams rdp' = (dpl_QPartsStreams rdp)(sid \<mapsto> delivered s0 (concat (map da_Data das)))"
    "Completions (dpl_completionStore rdp') = Completions (dpl_completionStore rdp)"
    "\<forall>k \<in> peer ` ?K. held' k = None"
    using run_readers_deliver [OF assms(3,4,5) sub assms(7,8) p1 p2 p3 p4] by blast
  have "held' = Map.empty"
  proof
    show "held' j = None" for j
    proof (cases "j \<in> set ks")
      case True
      with sub have "j \<in> peer ` ?K" by (rule subsetD)
      with r(4) show ?thesis by (rule bspec)
    qed (simp add: run_readers_other(2) [OF r(1)])
  qed
  with r show ?thesis by blast
qed

section \<open>Properties\<close>

text \<open>Deadlines: after a read deadline that has passed \<^verbatim>\<open>Read\<close> fails at once with a timeout and
  leaves buffer and stream alone, after a write deadline that has passed \<^verbatim>\<open>Write\<close> fails before
  anything is scheduled or queued, \<^verbatim>\<open>SetDeadline\<close> does both; with a deadline that is zero or not yet
  passed \<^verbatim>\<open>Read\<close> waits exactly when the read buffer is empty and otherwise returns as many bytes as
  there are, up to the length of the caller's buffer.\<close>

theorem deadlines:
  "(t \<noteq> 0 \<and> t < now \<longrightarrow>
      (\<forall>s' \<in> {SetReadDeadline t s, SetDeadline t s}. Stream_Read now b s' = Some (b, 0, Some ''read timeout'', s'))
      \<and> (\<forall>s' \<in> {SetWriteDeadline t s, SetDeadline t s}.
           Stream_Write now b order1 order2 rnd remote s' dp = Inr (Inl ''write timeout'')))
   \<and> (t = 0 \<or> now \<le> t \<longrightarrow>
      (case Stream_Read now b (SetDeadline t s) of
         None \<Rightarrow> pb_buffer (ps_ReadBuffer s) = []
       | Some (b', n, err, s') \<Rightarrow> pb_buffer (ps_ReadBuffer s) \<noteq> [] \<and> err = None
           \<and> n = min (length b) (length (pb_buffer (ps_ReadBuffer s))) \<and> length b' = length b
           \<and> take n b' @ pb_buffer (ps_ReadBuffer s') = pb_buffer (ps_ReadBuffer s)))"
proof (intro conjI impI)
  let ?s = "SetDeadline t s" and ?buf = "pb_buffer (ps_ReadBuffer s)"
  assume t: "t = 0 \<or> now \<le> t"
  then have o: "read_open now ?s" "pb_buffer (ps_ReadBuffer ?s) = ?buf"
    by (auto simp: SetDeadline_def read_open_def)
  show "case Stream_Read now b ?s of
         None \<Rightarrow> ?buf = []
       | Some (b', n, err, s') \<Rightarrow> ?buf \<noteq> [] \<and> err = None \<and> n = min (length b) (length ?buf)
           \<and> length b' = length b \<and> take n b' @ pb_buffer (ps_ReadBuffer s') = ?buf"
  proof (cases "?buf = []")
    case True
    then have "pb_Read (ps_ReadBuffer ?s) (length b) = None" using o(2) by (simp add: pb_Read_def)
    then have "Stream_Read now b ?s = None" using o(1) by (auto simp: Stream_Read_def read_open_def)
    then show ?thesis using True by simp
  next
    case False
    then show ?thesis using Stream_Read_open [OF o] by (simp add: min_def)
  qed
qed (auto simp: SetReadDeadline_def SetDeadline_def SetWriteDeadline_def Stream_Read_def Stream_Write_def)

theorem deadlines_witness:
  "Stream_Read 7 [0, 0] (SetReadDeadline 5 (NewPartsStream 1)) =
     Some ([0, 0], 0, Some ''read timeout'', SetReadDeadline 5 (NewPartsStream 1))
   \<and> Stream_Write 7 [0, 0] [] [] 1 None (SetWriteDeadline 5 (NewPartsStream 1)) one_frame = Inr (Inl ''write timeout'')"
  using deadlines [of 5 7 "NewPartsStream 1" "[0, 0]" "[]" "[]" 1 None one_frame] by auto

text \<open>C28: \<^verbatim>\<open>Write\<close> of no bytes never returns: its only part is sent as a header, but the write of its
  empty payload reports zero bytes, so the part is not counted and the completion is not signalled,
  whatever the schedule of the write loops.\<close>

theorem empty_write_blocks:
  assumes "idle dp" "dpl_Streams dp k = Some st" "write_open now s"
  shows "\<exists>A dp1. Stream_Write now [] (k # ps) order2 rnd remote s dp = Inr (Inr (A, 0, dp1))
     \<and> (\<forall>ks dp2. run_writers wr ks dp1 = Inr dp2 \<longrightarrow> \<not> WriteForStream_returns A dp2)"
proof -
  let ?das = "[zero_DataAssignment\<lparr>da_DataplaneStream := Some k, da_Remote := remote\<rparr>]"
  let ?sc = "NewSequenceCompletionFromSchedulingDecision (ps_Id s) \<lparr>Assignments = ?das\<rparr> rnd"
  let ?A = "length (cs_objs (dpl_completionStore dp))"
  let ?store = "AddCompletion ?A ((dpl_completionStore dp)\<lparr>cs_objs := cs_objs (dpl_completionStore dp) @ [?sc]\<rparr>)"
  let ?da = "number_part 1 ?sc (ps_Id s) (0, hd ?das)"
  let ?dp1 = "set_stream k (st\<lparr>ds_Queue := Queue_Add (ds_Queue st) ?da\<rparr>) (dp\<lparr>dpl_completionStore := ?store\<rparr>)"
  have "Stream_Write now [] (k # ps) order2 rnd remote s dp = Inr (Inr (?A, 0, ?dp1))"
    using assms(2,3) by (auto simp: Stream_Write_def write_open_def ScheduleWrite_def set_remote_def
        WriteForStream_def cs_alloc_def number_part_def zero_DataAssignment_def set_stream_def Let_def)
  moreover have "stuck ?A ?dp1"
  proof -
    have "\<not> sc_CompleteChan ?sc"
      by (simp add: NewSequenceCompletionFromSchedulingDecision_def new_completion_def)
    moreover have "\<forall>da \<in> set (entries (ds_Queue x)). da_Data da = []" if "dpl_Streams ?dp1 j = Some x" for j x
      using that assms(1,2) by (auto simp: idle_iff set_stream_def Queue_Add_def number_part_def
          zero_DataAssignment_def split: if_splits)
    ultimately show ?thesis
      by (auto simp: stuck_def WriteForStream_returns_def set_stream_def AddCompletion_def)
  qed
  ultimately show ?thesis using run_writers_stuck stuck_def by blast
qed

theorem empty_write_blocks_witness:
  "\<exists>A dp1. Stream_Write 0 [] [1] [1] 7 None (NewPartsStream 3) one_frame = Inr (Inr (A, 0, dp1))
     \<and> (\<forall>ks dp2. run_writers memory_write ks dp1 = Inr dp2 \<longrightarrow> \<not> WriteForStream_returns A dp2)"
proof -
  have "idle one_frame" by (auto simp: one_frame(3) idle_iff NewQueue_def split: if_splits)
  moreover have "write_open 0 (NewPartsStream 3)" by (simp add: write_open_def NewPartsStream_def)
  ultimately show ?thesis by (intro empty_write_blocks) (simp_all add: one_frame(3))
qed

lemma no_streams_write:
  fixes dp :: "('addr, 'path, 's) QPartsDataplane"
  assumes "write_open now s" "idle dp"
  shows "(length b \<le> 1000 \<longrightarrow> Stream_Write now b [] [] rnd remote s dp = Inl NilDereference)
     \<and> (1000 < length b \<longrightarrow> (\<exists>A dp1. Stream_Write now b [] [] rnd remote s dp = Inr (Inr (A, 0, dp1))
          \<and> (\<forall>ks dp2. run_writers wr ks dp1 = Inr dp2 \<longrightarrow> \<not> WriteForStream_returns A dp2)))"
proof (intro conjI impI)
  show "Stream_Write now b [] [] rnd remote s dp = Inl NilDereference" if "length b \<le> 1000"
    using assms that by (auto simp: Stream_Write_def write_open_def ScheduleWrite_def set_remote_def
        WriteForStream_def cs_alloc_def zero_DataAssignment_def Let_def)
  assume b: "1000 < length b"
  let ?sc = "NewSequenceCompletionFromSchedulingDecision (ps_Id s) (\<lparr>Assignments = []\<rparr> :: 'addr SchedulingDecision) rnd"
  let ?A = "length (cs_objs (dpl_completionStore dp))"
  let ?store = "AddCompletion ?A ((dpl_completionStore dp)\<lparr>cs_objs := cs_objs (dpl_completionStore dp) @ [?sc]\<rparr>)"
  let ?dp1 = "dp\<lparr>dpl_completionStore := ?store\<rparr>"
  have "Stream_Write now b [] [] rnd remote s dp = Inr (Inr (?A, 0, ?dp1))"
    using assms(1) b by (auto simp: Stream_Write_def write_open_def ScheduleWrite_def set_remote_def
        splitBytes_def WriteForStream_def cs_alloc_def Let_def)
  moreover have "\<not> sc_CompleteChan ?sc"
    by (simp add: NewSequenceCompletionFromSchedulingDecision_def new_completion_def)
  then have "stuck ?A ?dp1"
    using assms(2) by (auto simp: stuck_def WriteForStream_returns_def AddCompletion_def idle_iff)
  ultimately show "\<exists>A dp1. Stream_Write now b [] [] rnd remote s dp = Inr (Inr (A, 0, dp1))
          \<and> (\<forall>ks dp2. run_writers wr ks dp1 = Inr dp2 \<longrightarrow> \<not> WriteForStream_returns A dp2)"
    using run_writers_stuck stuck_def by blast
qed

text \<open>\<^verbatim>\<open>Write\<close> on a connection without data plane streams: up to 1000 bytes are assigned to a nil
  stream and the process panics; more than that are assigned to nobody and the call never returns.\<close>

theorem write_without_streams:
  fixes dp :: "('addr, 'path, 's) QPartsDataplane"
  assumes "write_open now s" "idle dp"
  shows "(length b \<le> 1000 \<longrightarrow> Stream_Write now b [] [] rnd remote s dp = Inl NilDereference)
     \<and> (1000 < length b \<longrightarrow> (\<exists>A dp1. Stream_Write now b [] [] rnd remote s dp = Inr (Inr (A, 0, dp1))
          \<and> (\<forall>ks dp2. run_writers wr ks dp1 = Inr dp2 \<longrightarrow> \<not> WriteForStream_returns A dp2)))"
  using no_streams_write [OF assms] .

theorem write_without_streams_witness:
  "Stream_Write 0 [1] [] [] 7 None (NewPartsStream 3)
     (NewQPartsDataplane Map.empty :: (nat, nat, byte list) QPartsDataplane) = Inl NilDereference"
proof -
  have "idle (NewQPartsDataplane Map.empty :: (nat, nat, byte list) QPartsDataplane)"
    by (simp add: idle_iff NewQPartsDataplane_def)
  moreover have "write_open 0 (NewPartsStream 3)" by (simp add: write_open_def NewPartsStream_def)
  ultimately show ?thesis using write_without_streams [of 0 "NewPartsStream 3" _ "[1]"] by simp
qed

end
