(* ===== verification/Invariant.thy ===== *)
theory Invariant
  imports Dataplane
begin

text \<open>
  The data plane as a transition system: streams are added, the control plane changes the streams of
  the application, \<^verbatim>\<open>WriteForStream\<close> queues a decision, and the write and read loops take turns, in any
  interleaving; and the invariant of the states that can be reached.
\<close>

section \<open>The transition system\<close>

inductive dataplane_step ::
  "'s qwrite \<Rightarrow> 's qread \<Rightarrow> ('addr, 'path, 's) QPartsDataplane \<times> held
     \<Rightarrow> ('addr, 'path, 's) QPartsDataplane \<times> held \<Rightarrow> bool"
  for wr rd where
  dial: "dpl_Streams dp k = None \<Longrightarrow> dataplane_step wr rd (dp, held) (AddDialStream k s path dp, held)"
| listen: "dpl_Streams dp k = None \<Longrightarrow> dataplane_step wr rd (dp, held) (AddListenStream k s dp, held)"
| control: "dataplane_step wr rd (dp, held) (dp\<lparr>dpl_QPartsStreams := m\<rparr>, held)"
| write_call: "WriteForStream decision sid rnd dp = Inr (a, n, dp') \<Longrightarrow> dataplane_step wr rd (dp, held) (dp', held)"
| write_turn: "writeLoop wr k dp = Goes dp' \<Longrightarrow> dataplane_step wr rd (dp, held) (dp', held)"
| read_turn: "readLoop rd k c = Goes c' \<Longrightarrow> dataplane_step wr rd c c'"

inductive dataplane_reachable ::
  "'s qwrite \<Rightarrow> 's qread \<Rightarrow> ('addr, 'path, 's) QPartsDataplane \<times> held \<Rightarrow> bool"
  for wr rd where
  start: "dataplane_reachable wr rd (NewQPartsDataplane m, Map.empty)"
| step: "dataplane_reachable wr rd c \<Longrightarrow> dataplane_step wr rd c c' \<Longrightarrow> dataplane_reachable wr rd c'"

section \<open>Well-formed states\<close>

text \<open>Go maps have no double keys.\<close>

definition completion_wf :: "QPartsSequenceCompletion \<Rightarrow> bool" where
  "completion_wf sc \<longleftrightarrow> (case sc_internalParts sc of None \<Rightarrow> True | Some m \<Rightarrow> distinct (map fst m))"

definition store_wf :: "CompletionStore \<Rightarrow> bool" where
  "store_wf cs \<longleftrightarrow> (\<forall>q a. Completions cs q = Some a
       \<longrightarrow> a < length (cs_objs cs) \<and> sc_SequenceId (cs_objs cs ! a) = q)
     \<and> (\<forall>sc \<in> set (cs_objs cs). completion_wf sc)"

text \<open>A part is queued at the stream it is assigned to.\<close>

definition queues_wf :: "(u64 \<rightharpoonup> ('addr, 'path, 's) QPartsDataplaneStream) \<Rightarrow> bool" where
  "queues_wf X \<longleftrightarrow> (\<forall>k st. X k = Some st \<longrightarrow> (\<forall>da \<in> set (entries (ds_Queue st)). da_DataplaneStream da = Some k))"

lemma queues_wfD:
  "queues_wf X \<Longrightarrow> X k = Some st \<Longrightarrow> da \<in> set (entries (ds_Queue st)) \<Longrightarrow> da_DataplaneStream da = Some k"
  unfolding queues_wf_def by blast

lemma queues_wf_upd:
  assumes "queues_wf X" "\<And>da. da \<in> set (entries (ds_Queue st)) \<Longrightarrow> da_DataplaneStream da = Some k"
  shows "queues_wf (X(k \<mapsto> st))"
  unfolding queues_wf_def
proof (intro allI impI ballI)
  fix j st' da
  assume "(X(k \<mapsto> st)) j = Some st'" "da \<in> set (entries (ds_Queue st'))"
  then show "da_DataplaneStream da = Some j"
    using assms(2) queues_wfD [OF assms(1)] by (cases "j = k") auto
qed

text \<open>A read loop that waits for a payload holds the completion of the sequence in its header.\<close>

definition held_wf :: "held \<Rightarrow> CompletionStore \<Rightarrow> bool" where
  "held_wf held cs \<longleftrightarrow> (\<forall>k pkt a. held k = Some (pkt, a)
     \<longrightarrow> a < length (cs_objs cs) \<and> sc_SequenceId (cs_objs cs ! a) = dp_SequenceId pkt)"

fun dataplane_wf :: "('addr, 'path, 's) QPartsDataplane \<times> held \<Rightarrow> bool" where
  "dataplane_wf (dp, held) \<longleftrightarrow> store_wf (dpl_completionStore dp) \<and> queues_wf (dpl_Streams dp)
     \<and> held_wf held (dpl_completionStore dp)"

declare dataplane_wf.simps [simp del]

lemma dataplane_wfD:
  assumes "dataplane_wf (dp, held)"
  shows "store_wf (dpl_completionStore dp)" "queues_wf (dpl_Streams dp)" "held_wf held (dpl_completionStore dp)"
  using assms by (simp_all add: dataplane_wf.simps)

text \<open>The store may grow and its objects may change, but not their sequence numbers.\<close>

definition extends :: "CompletionStore \<Rightarrow> CompletionStore \<Rightarrow> bool" where
  "extends cs cs' \<longleftrightarrow> (\<exists>ids. map sc_SequenceId (cs_objs cs') = map sc_SequenceId (cs_objs cs) @ ids)"

lemma extends_nth:
  assumes "extends cs cs'" "a < length (cs_objs cs)"
  shows "a < length (cs_objs cs') \<and> sc_SequenceId (cs_objs cs' ! a) = sc_SequenceId (cs_objs cs ! a)"
proof -
  from assms(1) obtain ids where ids: "map sc_SequenceId (cs_objs cs') = map sc_SequenceId (cs_objs cs) @ ids"
    by (auto simp: extends_def)
  then have len: "length (cs_objs cs') = length (cs_objs cs) + length ids" by (metis length_append length_map)
  then have a: "a < length (cs_objs cs')" using assms(2) by simp
  have "map sc_SequenceId (cs_objs cs') ! a = map sc_SequenceId (cs_objs cs) ! a"
    unfolding ids using assms(2) by (simp add: nth_append)
  then show ?thesis using a assms(2) by simp
qed

lemma extends_held: "held_wf held cs \<Longrightarrow> extends cs cs' \<Longrightarrow> held_wf held cs'"
  unfolding held_wf_def using extends_nth by metis

lemma extends_refl [simp]: "extends cs cs"
  by (simp add: extends_def)

lemma extends_trans [trans]: "extends a b \<Longrightarrow> extends b c \<Longrightarrow> extends a c"
  by (auto simp: extends_def)

section \<open>The operations of the store\<close>

lemma store_wf_alloc:
  assumes "store_wf cs" "completion_wf sc" "cs_alloc sc cs = (a, cs')"
  shows "store_wf cs' \<and> extends cs cs' \<and> a < length (cs_objs cs') \<and> cs_objs cs' ! a = sc"
  using assms by (auto simp: store_wf_def cs_alloc_def extends_def nth_append less_Suc_eq)

lemma store_wf_put:
  "store_wf cs \<Longrightarrow> a < length (cs_objs cs) \<Longrightarrow> sc_SequenceId (cs_objs cs ! a) = q
    \<Longrightarrow> store_wf (cs\<lparr>Completions := (Completions cs)(q \<mapsto> a)\<rparr>)"
  by (simp add: store_wf_def)

lemma store_wf_remove: "store_wf cs \<Longrightarrow> store_wf (RemoveCompletion q cs)"
  by (simp add: store_wf_def RemoveCompletion_def)

lemma extends_objs [simp]:
  "extends cs (cs'\<lparr>Completions := m\<rparr>) = extends cs cs'" "extends cs (RemoveCompletion q cs') = extends cs cs'"
  by (simp_all add: extends_def RemoveCompletion_def)

lemma store_wf_update:
  assumes "store_wf cs" "a < length (cs_objs cs)" "completion_wf sc" "sc_SequenceId sc = sc_SequenceId (cs_objs cs ! a)"
  shows "store_wf (update_obj a sc cs) \<and> extends cs (update_obj a sc cs)"
proof -
  have "map sc_SequenceId ((cs_objs cs)[a := sc]) = map sc_SequenceId (cs_objs cs)"
    using assms(2,4) by (metis list_update_id map_update nth_map length_map)
  moreover have "store_wf (update_obj a sc cs)"
    using assms by (auto simp: store_wf_def update_obj_def nth_list_update dest!: set_update_subset_insert [THEN subsetD])
  ultimately show ?thesis by (simp add: extends_def update_obj_def)
qed

lemma new_completion_wf [simp]: "completion_wf (new_completion s q n z)" "sc_SequenceId (new_completion s q n z) = q"
  by (simp_all add: completion_wf_def new_completion_def)

lemma GetOrCreateSending_wf:
  assumes "store_wf cs" "GetOrCreateSendingSequenceCompletion s q n z cs = (a, cs')"
  shows "store_wf cs' \<and> extends cs cs' \<and> a < length (cs_objs cs') \<and> sc_SequenceId (cs_objs cs' ! a) = q"
proof (cases "Completions cs q")
  case None
  obtain b cs1 where b: "cs_alloc (new_completion s q n z) cs = (b, cs1)" by (rule prod.exhaust)
  with assms(2) None have "b = a" "cs1\<lparr>Completions := (Completions cs1)(q \<mapsto> b)\<rparr> = cs'"
    by (auto simp: GetOrCreateSendingSequenceCompletion_def)
  with store_wf_alloc [OF assms(1) _ b] show ?thesis by (auto simp: store_wf_put)
qed (use assms in \<open>auto simp: GetOrCreateSendingSequenceCompletion_def store_wf_def\<close>)

lemma GetOrCreate_wf:
  assumes "store_wf cs" "GetOrCreateSequenceCompletion s q n z cs = Inr (a, cs')"
  shows "store_wf cs' \<and> extends cs cs' \<and> a < length (cs_objs cs') \<and> sc_SequenceId (cs_objs cs' ! a) = q"
proof (cases "Completions cs q")
  case None
  with assms(2) obtain d where d: "go_make z = Inr d" by (auto simp: GetOrCreateSequenceCompletion_def go_bind_eq_Inr)
  let ?sc = "(new_completion s q n z)\<lparr>sc_Data := d\<rparr>"
  obtain b cs1 where b: "cs_alloc ?sc cs = (b, cs1)" by (rule prod.exhaust)
  have sc: "completion_wf ?sc" "sc_SequenceId ?sc = q" by (simp_all add: completion_wf_def new_completion_def)
  from assms(2) None d b have "b = a" "cs1\<lparr>Completions := (Completions cs1)(q \<mapsto> b)\<rparr> = cs'"
    by (auto simp: GetOrCreateSequenceCompletion_def)
  with store_wf_alloc [OF assms(1) sc(1) b] sc(2) show ?thesis by (auto simp: store_wf_put)
qed (use assms in \<open>auto simp: GetOrCreateSequenceCompletion_def store_wf_def\<close>)

lemma AddSendingPart_wf:
  "AddSendingPart sc = (c, sc') \<Longrightarrow> completion_wf sc \<Longrightarrow> completion_wf sc' \<and> sc_SequenceId sc' = sc_SequenceId sc"
  by (auto simp: AddSendingPart_def Let_def completion_wf_def split: if_splits)

lemma AddPart_wf:
  "AddPart i d sc = Inr (c, sc') \<Longrightarrow> completion_wf sc \<Longrightarrow> completion_wf sc' \<and> sc_SequenceId sc' = sc_SequenceId sc"
  by (auto simp: AddPart_def Let_def completion_wf_def go_bind_eq_Inr distinct_update split: option.splits if_splits)

section \<open>The steps\<close>

lemma dataplane_wf_step:
  assumes "dataplane_wf (dp, held)" "queues_wf (dpl_Streams dp')" "store_wf (dpl_completionStore dp')"
    and "extends (dpl_completionStore dp) (dpl_completionStore dp')"
  shows "dataplane_wf (dp', held)"
  unfolding dataplane_wf.simps using assms(2,3) extends_held [OF dataplane_wfD(3) [OF assms(1)] assms(4)] by blast

lemma dataplane_wf_store:
  assumes "dataplane_wf (dp, held)" "store_wf cs" "extends (dpl_completionStore dp) cs"
  shows "dataplane_wf (dp\<lparr>dpl_completionStore := cs\<rparr>, held)"
  by (rule dataplane_wf_step [OF assms(1)]) (simp_all add: dataplane_wfD(2) [OF assms(1)] assms(2,3))

lemma set_ssqc_store [simp]: "dpl_completionStore (set_ssqc k s dp) = dpl_completionStore dp"
  by (simp add: set_ssqc_def)

lemma dataplane_wf_set_ssqc:
  assumes "dataplane_wf (dp, held)"
  shows "dataplane_wf (set_ssqc k s dp, held)"
proof (rule dataplane_wf_step [OF assms])
  show "queues_wf (dpl_Streams (set_ssqc k s dp))"
    using dataplane_wfD(2) [OF assms] by (auto simp: queues_wf_def set_ssqc_def split: if_splits)
qed (simp_all add: dataplane_wfD(1) [OF assms])

lemma finish_part_wf:
  assumes "dataplane_wf (dp, held)" "a < length (cs_objs (dpl_completionStore dp))"
  shows "dataplane_wf (finish_part a dp, held)"
proof -
  let ?cs = "dpl_completionStore dp"
  obtain c sc where p: "AddSendingPart (cs_objs ?cs ! a) = (c, sc)" by (rule prod.exhaust)
  have "store_wf ?cs" using assms(1) by (rule dataplane_wfD(1))
  then have old: "completion_wf (cs_objs ?cs ! a)" using assms(2) by (simp add: store_wf_def)
  have sc: "completion_wf (sc\<lparr>sc_CompleteChan := d\<rparr>)" "completion_wf sc"
    "sc_SequenceId sc = sc_SequenceId (cs_objs ?cs ! a)" for d
    using AddSendingPart_wf [OF p old] by (simp_all add: completion_wf_def)
  show ?thesis
  proof (cases c)
    case True
    let ?cs' = "RemoveCompletion (sc_SequenceId sc) (update_obj a (sc\<lparr>sc_CompleteChan := True\<rparr>) ?cs)"
    have "store_wf ?cs' \<and> extends ?cs ?cs'"
      using store_wf_update [OF \<open>store_wf ?cs\<close> assms(2) sc(1)] sc(3) by (simp add: store_wf_remove)
    then show ?thesis
      using dataplane_wf_store [OF assms(1), of ?cs'] True p by (simp add: finish_part_def)
  next
    case False
    then show ?thesis
      using dataplane_wf_store [OF assms(1)] store_wf_update [OF \<open>store_wf ?cs\<close> assms(2) sc(2,3)] p
      by (simp add: finish_part_def)
  qed
qed

text \<open>Taking a part from its queue, and looking up its completion.\<close>

lemma take_part_wf:
  assumes "dataplane_wf (dp, held)" "dpl_Streams dp k = Some st" "Queue_Get (ds_Queue st) = Some (da, q)"
    and "GetOrCreateSendingSequenceCompletion s i n z (dpl_completionStore dp) = (a, store)"
  shows "dataplane_wf ((set_stream k (st\<lparr>ds_Queue := q\<rparr>) dp)\<lparr>dpl_completionStore := store\<rparr>, held)"
    and "a < length (cs_objs store)" "da_DataplaneStream da = Some k"
proof -
  have e: "entries (ds_Queue st) = da # entries q"
    using assms(3) by (auto simp: Queue_Get_def split: list.splits)
  note wf = dataplane_wfD [OF assms(1)]
  have old: "x \<in> set (da # entries q) \<Longrightarrow> da_DataplaneStream x = Some k" for x
    using queues_wfD [OF wf(2) assms(2)] by (simp only: e)
  show "da_DataplaneStream da = Some k" by (rule old) simp
  have q: "queues_wf ((dpl_Streams dp)(k \<mapsto> st\<lparr>ds_Queue := q\<rparr>))"
    by (rule queues_wf_upd [OF wf(2)]) (use old in simp)
  note g = GetOrCreateSending_wf [OF wf(1) assms(4)]
  show "dataplane_wf ((set_stream k (st\<lparr>ds_Queue := q\<rparr>) dp)\<lparr>dpl_completionStore := store\<rparr>, held)"
    by (rule dataplane_wf_step [OF assms(1)]) (simp_all add: set_stream_def q g)
  show "a < length (cs_objs store)" using g by blast
qed

lemma writeLoop_wf:
  assumes "dataplane_wf (dp, held)"
  shows "writeLoop wr k dp \<noteq> Panics e" and "writeLoop wr k dp = Goes dp' \<Longrightarrow> dataplane_wf (dp', held)"
proof -
  have "case writeLoop wr k dp of Waits \<Rightarrow> True | Panics e \<Rightarrow> False | Goes dp' \<Rightarrow> dataplane_wf (dp', held)"
  proof (cases "dpl_Streams dp k")
    case (Some st)
    show ?thesis
    proof (cases "Queue_Get (ds_Queue st)")
      case (Some x)
      obtain da q where x: "x = (da, q)" by (rule prod.exhaust)
      note get = \<open>dpl_Streams dp k = Some st\<close> Some [unfolded x]
      obtain a store where g: "GetOrCreateSendingSequenceCompletion (da_StreamId da) (da_SequenceId da)
        (da_NumParts da) (da_SequenceSize da) (dpl_completionStore dp) = (a, store)" by (rule prod.exhaust)
      note t = take_part_wf [OF assms get g]
      let ?dp2 = "(set_stream k (st\<lparr>ds_Queue := q\<rparr>) dp)\<lparr>dpl_completionStore := store\<rparr>"
      have s: "dpl_Streams (set_stream k (st\<lparr>ds_Queue := q\<rparr>) dp) k = Some (st\<lparr>ds_Queue := q\<rparr>)" by (simp add: set_stream_def)
      have d: "dpl_completionStore (set_stream k (st\<lparr>ds_Queue := q\<rparr>) dp) = dpl_completionStore dp"
        by (simp add: set_stream_def)
      obtain pkt where p: "dp_Encode (data_header da (cs_objs store ! a)) = Inr pkt"
        by (simp add: data_header_def NewQPartsDataplanePacket_def dp_Encode_wire)
      have fin: "dataplane_wf (finish_part a (set_ssqc k s2 ?dp2), held)" for s2
        using finish_part_wf [OF dataplane_wf_set_ssqc [OF t(1)]] t(2) by simp
      show ?thesis
        using t(1) by (auto simp: writeLoop_def get g d t(3) s p Let_def fin dataplane_wf_set_ssqc split: option.split)
    qed (simp add: writeLoop_def Some)
  qed (simp add: writeLoop_def)
  then show "writeLoop wr k dp \<noteq> Panics e" and "writeLoop wr k dp = Goes dp' \<Longrightarrow> dataplane_wf (dp', held)"
    by (auto split: loop_result.splits)
qed

lemma queue_part_wf:
  assumes "dataplane_wf (dp, held)" "dpl_Streams dp k = Some st" "da_DataplaneStream da = Some k"
  shows "dataplane_wf (set_stream k (st\<lparr>ds_Queue := Queue_Add (ds_Queue st) da\<rparr>) dp, held)"
proof (rule dataplane_wf_step [OF assms(1)])
  note wf = dataplane_wfD [OF assms(1)]
  have "queues_wf ((dpl_Streams dp)(k \<mapsto> st\<lparr>ds_Queue := Queue_Add (ds_Queue st) da\<rparr>))"
    by (rule queues_wf_upd [OF wf(2)]) (use queues_wfD [OF wf(2) assms(2)] assms(3) in \<open>auto simp: Queue_Add_def\<close>)
  then show "queues_wf (dpl_Streams (set_stream k (st\<lparr>ds_Queue := Queue_Add (ds_Queue st) da\<rparr>) dp))"
    by (simp add: set_stream_def)
qed (simp_all add: set_stream_def dataplane_wfD(1) [OF assms(1)])

lemma enqueue_parts_wf:
  "enqueue_parts das i num compl sid n dp = Inr (n', dp') \<Longrightarrow> dataplane_wf (dp, held) \<Longrightarrow> dataplane_wf (dp', held)"
proof (induction das i num compl sid n dp rule: enqueue_parts.induct)
  case (2 da das i num compl sid n dp)
  let ?da = "da\<lparr>da_NumParts := of_nat num, da_SequenceId := sc_SequenceId compl, da_PartId := of_nat i,
      da_SequenceSize := sc_SequenceSize compl, da_StreamId := sid\<rparr>"
  from 2(2) obtain k st where k: "da_DataplaneStream ?da = Some k" "dpl_Streams dp k = Some st"
    and rest: "enqueue_parts das (i + 1) num compl sid (n + length (da_Data ?da))
        (set_stream k (st\<lparr>ds_Queue := Queue_Add (ds_Queue st) ?da\<rparr>) dp) = Inr (n', dp')"
    by (auto simp: Let_def split: option.splits)
  from 2(1) [OF refl k rest] queue_part_wf [OF 2(3) k(2,1)] show ?case by blast
qed simp

lemma WriteForStream_wf:
  assumes "WriteForStream decision sid rnd dp = Inr (a, n, dp')" "dataplane_wf (dp, held)"
  shows "dataplane_wf (dp', held)"
proof -
  let ?sc = "NewSequenceCompletionFromSchedulingDecision sid decision rnd"
  obtain b store where b: "cs_alloc ?sc (dpl_completionStore dp) = (b, store)" by (rule prod.exhaust)
  note wf = dataplane_wfD [OF assms(2)]
  have "completion_wf ?sc" by (simp add: completion_wf_def NewSequenceCompletionFromSchedulingDecision_def)
  note new = store_wf_alloc [OF wf(1) this b]
  have "store_wf (AddCompletion b store)" using new by (simp add: AddCompletion_def store_wf_put)
  moreover have "extends (dpl_completionStore dp) (AddCompletion b store)" using new by (simp add: AddCompletion_def)
  ultimately have "dataplane_wf (dp\<lparr>dpl_completionStore := AddCompletion b store\<rparr>, held)"
    by (rule dataplane_wf_store [OF assms(2)])
  moreover from assms(1) b have
    "\<exists>m. enqueue_parts (Assignments decision) 0 (length (Assignments decision)) ?sc sid 0
      (dp\<lparr>dpl_completionStore := AddCompletion b store\<rparr>) = Inr (m, dp')"
    by (auto simp: WriteForStream_def Let_def go_bind_eq_Inr)
  ultimately show ?thesis using enqueue_parts_wf by blast
qed

lemma dataplane_wf_held:
  assumes "dataplane_wf (dp, held)" "\<And>pkt a. h = Some (pkt, a) \<Longrightarrow> a < length (cs_objs (dpl_completionStore dp))
     \<and> sc_SequenceId (cs_objs (dpl_completionStore dp) ! a) = dp_SequenceId pkt"
  shows "dataplane_wf (dp, held(k := h))"
  using dataplane_wfD [OF assms(1)] assms(2) unfolding dataplane_wf.simps held_wf_def by auto

lemma readLoop_header_wf:
  assumes "readLoop_header rd k dp = Goes (dp', h)" "dataplane_wf (dp, held)"
  shows "dataplane_wf (dp', held(k := h))"
proof -
  from assms(1) obtain st got err s1 where st: "dpl_Streams dp k = Some st"
    "ReadAll rd (ds_ssqc st) (length (dp_Data NewQPartsDataplanePacket)) = Some (got, err, s1)"
    by (auto simp: readLoop_header_def Let_def split: option.splits)
  note wf = dataplane_wf_set_ssqc [OF assms(2), of k s1]
  show ?thesis
  proof (cases "err \<noteq> None \<or> got = []")
    case True
    with assms(1) st have r: "dp' = set_ssqc k s1 dp" "h = None" by (auto simp: readLoop_header_def Let_def)
    show ?thesis unfolding r by (rule dataplane_wf_held [OF wf]) simp
  next
    case False
    with assms(1) st obtain pkt a store where
      g: "GetOrCreateSequenceCompletion (dp_StreamId pkt) (dp_SequenceId pkt) (dp_NumParts pkt) (dp_SequenceSize pkt)
          (dpl_completionStore dp) = Inr (a, store)"
      and r: "dp' = (set_ssqc k s1 dp)\<lparr>dpl_completionStore := store\<rparr>" "h = Some (pkt, a)"
      by (auto simp: readLoop_header_def Let_def split: sum.splits)
    note G = GetOrCreate_wf [OF dataplane_wfD(1) [OF assms(2)] g]
    have "dataplane_wf (dp', held)" unfolding r(1) by (rule dataplane_wf_store [OF wf]) (simp_all add: G)
    then show ?thesis by (rule dataplane_wf_held) (use G r in simp)
  qed
qed

lemma readLoop_payload_wf:
  assumes "readLoop_payload rd k (pkt, a) dp = Goes dp'" "dataplane_wf (dp, held)" "held k = Some (pkt, a)"
  shows "dataplane_wf (dp', held(k := None))"
proof -
  from assms(1) obtain st buf got err s1 where st: "dpl_Streams dp k = Some st" "go_make (dp_PartSize pkt) = Inr buf"
    "ReadAll rd (ds_ssqc st) (length buf) = Some (got, err, s1)"
    by (auto simp: readLoop_payload_def Let_def split: option.splits sum.splits)
  note wf = dataplane_wf_set_ssqc [OF assms(2), of k s1]
  let ?cs = "dpl_completionStore dp"
  have "dataplane_wf (dp', held)"
  proof (cases "err \<noteq> None \<or> got = []")
    case True
    with assms(1) st show ?thesis using wf by (auto simp: readLoop_payload_def Let_def)
  next
    case False
    with assms(1) st obtain c sc where p: "AddPart (sint (dp_PartId pkt)) (go_copy buf got) (cs_objs ?cs ! a) = Inr (c, sc)"
      by (auto simp: readLoop_payload_def Let_def split: sum.splits)
    have cs: "store_wf ?cs" and a: "a < length (cs_objs ?cs)"
      using dataplane_wfD [OF assms(2)] assms(3) by (auto simp: held_wf_def)
    from cs a have "completion_wf (cs_objs ?cs ! a)" by (simp add: store_wf_def)
    from AddPart_wf [OF p this] have upd: "store_wf (update_obj a sc ?cs) \<and> extends ?cs (update_obj a sc ?cs)"
      using store_wf_update [OF cs a] by blast
    show ?thesis
    proof (cases c)
      case True
      with assms(1) st p False obtain m where
        "dp' = (set_ssqc k s1 dp)\<lparr>dpl_completionStore := RemoveCompletion (dp_SequenceId pkt) (update_obj a sc ?cs),
          dpl_QPartsStreams := m\<rparr>"
        by (auto simp: readLoop_payload_def Let_def split: option.splits)
      moreover have "dataplane_wf ((set_ssqc k s1 dp)\<lparr>dpl_completionStore := RemoveCompletion (dp_SequenceId pkt) (update_obj a sc ?cs)\<rparr>, held)"
        by (rule dataplane_wf_store [OF wf]) (simp_all add: upd store_wf_remove)
      ultimately show ?thesis by (simp add: dataplane_wf.simps)
    next
      case no: False
      with assms(1) st p False have "dp' = (set_ssqc k s1 dp)\<lparr>dpl_completionStore := update_obj a sc ?cs\<rparr>"
        by (auto simp: readLoop_payload_def Let_def)
      then show ?thesis using dataplane_wf_store [OF wf] upd by simp
    qed
  qed
  then show ?thesis by (rule dataplane_wf_held) simp
qed

lemma readLoop_wf:
  assumes "readLoop rd k (dp, held) = Goes (dp', held')" "dataplane_wf (dp, held)"
  shows "dataplane_wf (dp', held')"
proof (cases "held k")
  case None
  with assms(1) obtain h where "readLoop_header rd k dp = Goes (dp', h)" "held' = held(k := h)"
    by (auto simp: readLoop_def split: loop_result.splits)
  then show ?thesis using readLoop_header_wf assms(2) by blast
next
  case (Some h)
  obtain pkt a where h: "h = (pkt, a)" by (rule prod.exhaust)
  from Some assms(1) have "readLoop_payload rd k (pkt, a) dp = Goes dp'" "held' = held(k := None)"
    by (auto simp: readLoop_def h split: loop_result.splits)
  then show ?thesis using readLoop_payload_wf assms(2) Some h by blast
qed

text \<open>Adding a stream.\<close>

lemma add_stream_wf:
  assumes "dataplane_wf (dp, held)" "entries (ds_Queue st) = []"
  shows "dataplane_wf (dp\<lparr>dpl_Streams := (dpl_Streams dp)(k \<mapsto> st)\<rparr>, held)"
proof (rule dataplane_wf_step [OF assms(1)])
  have "queues_wf ((dpl_Streams dp)(k \<mapsto> st))"
    by (rule queues_wf_upd [OF dataplane_wfD(2) [OF assms(1)]]) (use assms(2) in simp)
  then show "queues_wf (dpl_Streams (dp\<lparr>dpl_Streams := (dpl_Streams dp)(k \<mapsto> st)\<rparr>))" by simp
qed (simp_all add: dataplane_wfD(1) [OF assms(1)])

lemma dataplane_step_wf: "dataplane_step wr rd c c' \<Longrightarrow> dataplane_wf c \<Longrightarrow> dataplane_wf c'"
proof (induction rule: dataplane_step.induct)
  case (dial dp k held s path)
  then show ?case unfolding AddDialStream_def by (intro add_stream_wf) (simp_all add: NewQueue_def)
next
  case (listen dp k held s)
  then show ?case unfolding AddListenStream_def by (intro add_stream_wf) (simp_all add: NewQueue_def)
next
  case (control dp held m)
  then show ?case by (simp add: dataplane_wf.simps)
next
  case (write_call decision sid rnd dp a n dp' held)
  then show ?case by (rule WriteForStream_wf)
next
  case (write_turn k dp dp' held)
  then show ?case using writeLoop_wf(2) by blast
next
  case (read_turn k c c')
  then show ?case using readLoop_wf by (metis prod.collapse)
qed

text \<open>C9: The type invariant of the data plane.  In every state that any interleaving of its operations
  can reach, the store maps each sequence number to a completion object with that number, an object's
  map of parts has no double keys, a part only waits in the queue of the stream it is assigned to, and
  a read loop that waits for a payload holds the completion of the sequence in its header; therefore no
  write loop can ever panic, whatever the streams do.\<close>

theorem dataplane_invariant:
  assumes "dataplane_reachable wr rd c"
  shows "dataplane_wf c \<and> (\<forall>k e. writeLoop wr k (fst c) \<noteq> Panics e)"
proof -
  from assms have "dataplane_wf c"
  proof (induction rule: dataplane_reachable.induct)
    case (start m)
    show ?case by (simp add: dataplane_wf.simps NewQPartsDataplane_def NewCompletionStore_def store_wf_def queues_wf_def held_wf_def)
  qed (rule dataplane_step_wf)
  then show ?thesis using writeLoop_wf(1) by (cases c) fastforce
qed

text \<open>Two bytes are queued on a dialled stream.\<close>

theorem dataplane_invariant_witness:
  "\<exists>dp2 :: (nat, nat, byte list) QPartsDataplane. WriteForStream \<lparr>Assignments = [zero_DataAssignment\<lparr>da_DataplaneStream := Some 1, da_Data := [1, 2]\<rparr>]\<rparr> 9 77
       (AddDialStream 1 [] None (NewQPartsDataplane Map.empty)) = Inr (0, 2, dp2)
     \<and> dataplane_wf (dp2, Map.empty) \<and> (\<forall>k e. writeLoop (\<lambda>s p. Some (length p, None, s @ p)) k dp2 \<noteq> Panics e)"
proof -
  let ?wr = "\<lambda>s p. Some (length p, None, s @ p)" and ?rd = "\<lambda>s n. None"
  let ?dp1 = "AddDialStream 1 [] None (NewQPartsDataplane Map.empty) :: (nat, nat, byte list) QPartsDataplane"
  let ?d = "\<lparr>Assignments = [zero_DataAssignment\<lparr>da_DataplaneStream := Some 1, da_Data := [1, 2]\<rparr>]\<rparr>"
  have reach: "dataplane_reachable ?wr ?rd (?dp1, Map.empty)"
    by (rule dataplane_reachable.step [OF dataplane_reachable.start], rule dataplane_step.dial) (simp add: NewQPartsDataplane_def)
  have "\<exists>dp2. WriteForStream ?d 9 77 ?dp1 = Inr (0, 2, dp2)"
    by (simp add: WriteForStream_def cs_alloc_def AddDialStream_def NewQPartsDataplane_def NewCompletionStore_def
        AddCompletion_def Let_def)
  then obtain dp2 where dp2: "WriteForStream ?d 9 77 ?dp1 = Inr (0, 2, dp2)" ..
  from dataplane_invariant [OF dataplane_reachable.step [OF reach dataplane_step.write_call [OF dp2]]] dp2
  show ?thesis by auto
qed

end
