(* ===== verification/Channel.thy ===== *)
theory Channel
  imports Delivery Invariant Streams
begin

text \<open>
  The receiving side of the data plane with any number of sequences in flight, whose frames are mixed on
  the data plane streams in any way, refines a channel that delivers whole sequences: a set of sequences
  that are still to come, and the streams of the application.  A turn of a read loop is a step of the
  channel or no step.
\<close>

section \<open>The channel\<close>

text \<open>The sequences on their way: for each number the stream of the application and the parts.\<close>

type_synonym traffic = "u64 \<rightharpoonup> u64 \<times> byte list list"

record channel =
  ch_pending :: "u64 set"
  ch_streams :: "u64 \<rightharpoonup> PartsStream"

definition deliver :: "traffic \<Rightarrow> u64 \<Rightarrow> (u64 \<rightharpoonup> PartsStream) \<Rightarrow> (u64 \<rightharpoonup> PartsStream)" where
  "deliver M q S =
     (case M q of
        None \<Rightarrow> S
      | Some (sid, parts) \<Rightarrow>
          (case S sid of None \<Rightarrow> S | Some s \<Rightarrow> S(sid \<mapsto> delivered s (concat parts))))"

inductive channel_step :: "traffic \<Rightarrow> channel \<Rightarrow> channel \<Rightarrow> bool" for M where
  deliver_one: "q \<in> ch_pending c \<Longrightarrow>
     channel_step M c \<lparr>ch_pending = ch_pending c - {q}, ch_streams = deliver M q (ch_streams c)\<rparr>"

inductive_cases channel_stepE: "channel_step M c c'"

text \<open>A run of the channel delivers pending sequences in some order, each once.\<close>

lemma channel_run:
  "(channel_step M)\<^sup>*\<^sup>* c c' \<Longrightarrow> \<exists>order. distinct order \<and> set order \<subseteq> ch_pending c
     \<and> ch_pending c' = ch_pending c - set order \<and> ch_streams c' = fold (deliver M) order (ch_streams c)"
proof (induction rule: rtranclp_induct)
  case base
  show ?case by (intro exI [of _ "[]"]) simp
next
  case (step c1 c2)
  then obtain order where "distinct order" "set order \<subseteq> ch_pending c" "ch_pending c1 = ch_pending c - set order"
    "ch_streams c1 = fold (deliver M) order (ch_streams c)" by blast
  with step.hyps(2) show ?case
    by (elim channel_stepE) (rule exI [of _ "order @ [q]" for q], fastforce)
qed

section \<open>Frames of many sequences\<close>

definition mframes :: "traffic \<Rightarrow> (u64 \<times> int \<times> byte list) list \<Rightarrow> byte list" where
  "mframes M xs = concat (map (\<lambda>(q, x). case M q of None \<Rightarrow> [] | Some (sid, parts) \<Rightarrow> frame sid q parts x) xs)"

lemma mframes_simps [simp]:
  "mframes M [] = []"
  "M q = Some (sid, parts) \<Longrightarrow> mframes M ((q, i, d) # xs) = dp_wire (part_header sid q parts i d) @ d @ mframes M xs"
  by (simp_all add: mframes_def frame_def)

definition parts_of :: "traffic \<Rightarrow> u64 \<Rightarrow> (int \<times> byte list) set" where
  "parts_of M q = (case M q of None \<Rightarrow> {} | Some (sid, parts) \<Rightarrow> set (indexed parts))"

text \<open>\<open>G k\<close>: the frames on stream \<open>k\<close> whose parts have not been added yet; \<open>R q\<close>: the parts of the
  sequence \<open>q\<close> that have been added.\<close>

definition mplan :: "traffic \<Rightarrow> u64 set \<Rightarrow> (u64 \<Rightarrow> (u64 \<times> int \<times> byte list) list) \<Rightarrow> (u64 \<Rightarrow> (int \<times> byte list) set) \<Rightarrow> bool" where
  "mplan M K G R \<longleftrightarrow> (\<forall>k \<in> K. distinct (G k)) \<and> (\<forall>k \<in> K. \<forall>q x. (q, x) \<in> set (G k) \<longrightarrow> x \<in> parts_of M q - R q)
     \<and> (\<forall>k \<in> K. \<forall>j \<in> K. k \<noteq> j \<longrightarrow> set (G k) \<inter> set (G j) = {}) \<and> (\<forall>q. R q \<subseteq> parts_of M q)"

lemma mplan_next:
  assumes "mplan M K G R" "k \<in> K" "G k = (q, x) # rest"
  shows "mplan M K (G(k := rest)) (R(q := insert x (R q)))" "x \<in> parts_of M q" "x \<notin> R q"
    "\<And>j. j \<in> K \<Longrightarrow> j \<noteq> k \<Longrightarrow> (q, x) \<notin> set (G j)"
proof -
  have g: "distinct (G k)" "\<And>p y. (p, y) \<in> set (G k) \<Longrightarrow> y \<in> parts_of M p - R p" "(q, x) \<in> set (G k)" "set rest \<subseteq> set (G k)"
    using assms unfolding mplan_def by auto
  show x: "x \<in> parts_of M q" "x \<notin> R q" using g(2) [OF g(3)] by auto
  show dis: "(q, x) \<notin> set (G j)" if "j \<in> K" "j \<noteq> k" for j
    using assms(1,2) g(3) that unfolding mplan_def by blast
  have k: "(q, x) \<notin> set rest" "distinct rest" using g(1) assms(3) by auto
  have sub: "set ((G(k := rest)) j) \<subseteq> set (G j) - {(q, x)}" if "j \<in> K" for j
    using dis [OF that] k(1) g(4) by auto
  have "y \<in> parts_of M p - (R(q := insert x (R q))) p" if "j \<in> K" "(p, y) \<in> set ((G(k := rest)) j)" for j p y
  proof -
    have y: "(p, y) \<in> set (G j)" "(p, y) \<noteq> (q, x)" using sub [OF that(1)] that(2) by auto
    with assms(1) that(1) have "y \<in> parts_of M p - R p" unfolding mplan_def by blast
    with y(2) show ?thesis by auto
  qed
  moreover have "set ((G(k := rest)) i) \<inter> set ((G(k := rest)) j) = {}" if "i \<in> K" "j \<in> K" "i \<noteq> j" for i j
    using assms(1) sub [OF that(1)] sub [OF that(2)] that unfolding mplan_def by blast
  moreover have "distinct ((G(k := rest)) j)" if "j \<in> K" for j using assms(1) k(2) that by (simp add: mplan_def)
  moreover have "(R(q := insert x (R q))) p \<subseteq> parts_of M p" for p using assms(1) x(1) by (simp add: mplan_def)
  ultimately show "mplan M K (G(k := rest)) (R(q := insert x (R q)))" unfolding mplan_def by blast
qed

definition outstanding :: "u64 set \<Rightarrow> (u64 \<Rightarrow> (u64 \<times> int \<times> byte list) list) \<Rightarrow> u64 \<Rightarrow> (int \<times> byte list) set" where
  "outstanding K G q = {x. \<exists>k \<in> K. (q, x) \<in> set (G k)}"

lemma outstanding_upd:
  assumes "k \<in> K" "\<And>p y. (p, y) \<in> set (G k) \<longleftrightarrow> (p, y) \<in> set g \<or> p = q \<and> y = x"
  shows "outstanding K G p = outstanding K (G(k := g)) p \<union> (if p = q then {x} else {})"
proof -
  have "outstanding K F p = {y. (p, y) \<in> set (F k)} \<union> {y. \<exists>j \<in> K - {k}. (p, y) \<in> set (F j)}" for F
    using assms(1) by (auto simp: outstanding_def)
  from this [of G] this [of "G(k := g)"] show ?thesis using assms(2) by auto
qed

section \<open>The invariant\<close>

text \<open>Of one sequence: before its first header and after its last part it is not in the store; in
  between the store holds the parts that have come.\<close>

definition seq_state ::
  "byte list list \<Rightarrow> (int \<times> byte list) set \<Rightarrow> nat option \<Rightarrow> QPartsSequenceCompletion list \<Rightarrow> bool" where
  "seq_state parts R c objs \<longleftrightarrow>
     (case c of None \<Rightarrow> R = {} \<or> R = set (indexed parts)
      | Some a \<Rightarrow> R \<noteq> set (indexed parts) \<and> received parts R (objs ! a))"

text \<open>\<open>x\<close>: the bytes that come after those that are pending.\<close>

definition mreader ::
  "('s \<Rightarrow> byte list) \<Rightarrow> traffic \<Rightarrow> (u64 \<rightharpoonup> nat) \<Rightarrow> (u64 \<times> int \<times> byte list) list \<Rightarrow> byte list
     \<Rightarrow> ('addr, 'path, 's) QPartsDataplaneStream option \<Rightarrow> (QPartsDataplanePacket \<times> nat) option \<Rightarrow> bool" where
  "mreader pend M C g x ost h \<longleftrightarrow>
     (\<exists>st. ost = Some st \<and>
        (case h of
           None \<Rightarrow> pend (ds_ssqc st) @ x = mframes M g
         | Some (pkt, a) \<Rightarrow> (\<exists>q i d rest sid parts. g = (q, i, d) # rest \<and> M q = Some (sid, parts) \<and> C q = Some a
             \<and> pkt = wire_header sid q parts i d \<and> pend (ds_ssqc st) @ x = d @ mframes M rest)))"

definition traffic_ok :: "traffic \<Rightarrow> (u64 \<rightharpoonup> PartsStream) \<Rightarrow> bool" where
  "traffic_ok M S \<longleftrightarrow> (\<forall>q sid parts. M q = Some (sid, parts) \<longrightarrow> sendable parts \<and> S sid \<noteq> None)"

definition seqs_ok :: "traffic \<Rightarrow> (u64 \<Rightarrow> (int \<times> byte list) set) \<Rightarrow> CompletionStore \<Rightarrow> bool" where
  "seqs_ok M R cs \<longleftrightarrow> (\<forall>q sid parts. M q = Some (sid, parts) \<longrightarrow> seq_state parts (R q) (Completions cs q) (cs_objs cs))"

definition multi_inv ::
  "('s \<Rightarrow> byte list) \<Rightarrow> traffic \<Rightarrow> u64 set \<Rightarrow> (u64 \<Rightarrow> (u64 \<times> int \<times> byte list) list) \<Rightarrow> (u64 \<Rightarrow> (int \<times> byte list) set)
     \<Rightarrow> (u64 \<Rightarrow> byte list) \<Rightarrow> ('addr, 'path, 's) QPartsDataplane \<Rightarrow> held \<Rightarrow> bool" where
  "multi_inv pend M K G R X dp held \<longleftrightarrow> mplan M K G R \<and> traffic_ok M (dpl_QPartsStreams dp) \<and> dataplane_wf (dp, held)
     \<and> (\<forall>k \<in> K. mreader pend M (Completions (dpl_completionStore dp)) (G k) (X k) (dpl_Streams dp k) (held k))
     \<and> seqs_ok M R (dpl_completionStore dp)"

lemma multi_invD:
  assumes "multi_inv pend M K G R X dp held"
  shows "mplan M K G R" "traffic_ok M (dpl_QPartsStreams dp)" "dataplane_wf (dp, held)"
    "\<And>k. k \<in> K \<Longrightarrow> mreader pend M (Completions (dpl_completionStore dp)) (G k) (X k) (dpl_Streams dp k) (held k)"
    "seqs_ok M R (dpl_completionStore dp)"
  using assms by (simp_all add: multi_inv_def)

text \<open>The abstraction.\<close>

definition to_channel :: "traffic \<Rightarrow> (u64 \<Rightarrow> (int \<times> byte list) set) \<Rightarrow> ('addr, 'path, 's) QPartsDataplane \<Rightarrow> channel" where
  "to_channel M R dp = \<lparr>ch_pending = {q. R q \<noteq> parts_of M q}, ch_streams = dpl_QPartsStreams dp\<rparr>"

lemma in_parts_of: "x \<in> parts_of M q \<longleftrightarrow> (\<exists>sid parts. M q = Some (sid, parts) \<and> x \<in> set (indexed parts))"
  by (auto simp: parts_of_def split: option.splits)

text \<open>A step that changes the store only at the sequence \<open>q\<close> keeps the state of all others.\<close>

lemma seqs_ok_step:
  assumes "seqs_ok M R cs" "store_wf cs"
    and "\<And>p. p \<noteq> q \<Longrightarrow> R' p = R p"
    and "\<And>p. p \<noteq> q \<Longrightarrow> Completions cs' p = Completions cs p"
    and "\<And>p a. p \<noteq> q \<Longrightarrow> Completions cs p = Some a \<Longrightarrow> cs_objs cs' ! a = cs_objs cs ! a"
    and "\<And>sid parts. M q = Some (sid, parts) \<Longrightarrow> seq_state parts (R' q) (Completions cs' q) (cs_objs cs')"
  shows "seqs_ok M R' cs'"
  unfolding seqs_ok_def
proof (intro allI impI)
  fix p sid parts
  assume p: "M p = Some (sid, parts)"
  show "seq_state parts (R' p) (Completions cs' p) (cs_objs cs')"
  proof (cases "p = q")
    case True
    with p show ?thesis using assms(6) by simp
  next
    case False
    have "seq_state parts (R p) (Completions cs p) (cs_objs cs)"
      using assms(1) p unfolding seqs_ok_def by blast
    then show ?thesis using assms(3-5) [OF False] by (simp add: seq_state_def split: option.splits)
  qed
qed

lemma mreader_mono:
  assumes "mreader pend M C g x ost h" "\<And>p a. C p = Some a \<Longrightarrow> (\<exists>y ys. g = (p, y) # ys) \<Longrightarrow> C' p = Some a"
  shows "mreader pend M C' g x ost h"
  using assms unfolding mreader_def by (fastforce split: option.splits)

section \<open>The steps\<close>

text \<open>The completion that the header of an outstanding part finds or makes.\<close>

lemma mheader_store:
  assumes "seqs_ok M R cs" "store_wf cs" "M q = Some (sid, parts)" "sendable parts" "x \<notin> R q" "x \<in> set (indexed parts)"
  obtains a cs' where "GetOrCreateSequenceCompletion sid q (of_nat (length parts)) (of_nat (length (concat parts))) cs = Inr (a, cs')"
    "Completions cs' = (Completions cs)(q \<mapsto> a)" "seqs_ok M R cs'"
proof -
  have ne: "R q \<noteq> set (indexed parts)" using assms(5,6) by blast
  have st: "seq_state parts (R q) (Completions cs q) (cs_objs cs)" using assms(1,3) unfolding seqs_ok_def by blast
  show thesis
  proof (cases "Completions cs q")
    case (Some a)
    then have "(Completions cs)(q \<mapsto> a) = Completions cs" by auto
    with Some assms(1) show thesis using that [of a cs] by (simp add: GetOrCreateSequenceCompletion_def)
  next
    case None
    with st ne have R: "R q = {}" by (simp add: seq_state_def)
    have "length (concat parts) \<le> maxAlloc" using assms(4) by (simp add: sendable_def)
    then obtain cs' where cs': "GetOrCreateSequenceCompletion sid q (of_nat (length parts)) (of_nat (length (concat parts))) cs
        = Inr (length (cs_objs cs), cs')" "received parts {} (cs_objs cs' ! length (cs_objs cs))"
      "Completions cs' = (Completions cs)(q \<mapsto> length (cs_objs cs))" "\<exists>sc. cs_objs cs' = cs_objs cs @ [sc]"
      using fresh_received [OF sendable_transferable [OF assms(4)] _ None] by blast
    have old: "cs_objs cs' ! a = cs_objs cs ! a" if "Completions cs p = Some a" for p a
      using cs'(4) assms(2) that by (auto simp: store_wf_def nth_append)
    have "seqs_ok M R cs'"
    proof (rule seqs_ok_step [OF assms(1,2), of q])
      show "seq_state parts' (R q) (Completions cs' q) (cs_objs cs')" if "M q = Some (sid', parts')" for sid' parts'
        using that assms(3) R ne cs'(2,3) by (auto simp: seq_state_def)
    qed (use cs'(3) old in auto)
    with cs' show thesis by (intro that)
  qed
qed

lemma mheader_step:
  assumes "stream_delivers rd pend" "multi_inv pend M K G R X dp held" "k \<in> K" "held k = None"
    and "dpl_Streams dp k = Some st" "52 \<le> length (pend (ds_ssqc st))"
  shows "\<exists>dp' h. readLoop rd k (dp, held) = Goes (dp', held(k \<mapsto> h)) \<and> multi_inv pend M K G R X dp' (held(k \<mapsto> h))
     \<and> dpl_QPartsStreams dp' = dpl_QPartsStreams dp \<and> G k \<noteq> []"
proof -
  note inv = multi_invD [OF assms(2)]
  let ?cs = "dpl_completionStore dp"
  have bytes: "pend (ds_ssqc st) @ X k = mframes M (G k)"
    using inv(4) [OF assms(3)] assms(4,5) by (simp add: mreader_def)
  have "G k \<noteq> []" using bytes assms(6) by auto
  then obtain q i d rest where g: "G k = (q, i, d) # rest" by (cases "G k") auto
  note nxt = mplan_next [OF inv(1) assms(3) g]
  obtain sid parts where M: "M q = Some (sid, parts)" "(i, d) \<in> set (indexed parts)" using nxt(2) by (auto simp: in_parts_of)
  then have snd: "sendable parts" using inv(2) unfolding traffic_ok_def by blast
  let ?w = "dp_wire (part_header sid q parts i d)" and ?h = "wire_header sid q parts i d"
  have b: "pend (ds_ssqc st) @ X k = ?w @ d @ mframes M rest" using bytes g M(1) by simp
  have w: "take 52 (pend (ds_ssqc st)) = ?w" "drop 52 (pend (ds_ssqc st)) @ X k = d @ mframes M rest"
    using arg_cong [OF b, of "take 52"] arg_cong [OF b, of "drop 52"] assms(6) by simp_all
  obtain s1 where s1: "ReadAll rd (ds_ssqc st) 52 = Some (?w, None, s1)" "pend s1 @ X k = d @ mframes M rest"
    using ReadAll_delivers [OF assms(1), of 52 "ds_ssqc st"] w assms(6) by auto
  obtain a cs' where cs': "GetOrCreateSequenceCompletion sid q (of_nat (length parts)) (of_nat (length (concat parts))) ?cs
      = Inr (a, cs')" "Completions cs' = (Completions ?cs)(q \<mapsto> a)" "seqs_ok M R cs'"
    using mheader_store [OF inv(5) dataplane_wfD(1) [OF inv(3)] M(1) snd nxt(3) M(2)] by blast
  have same: "Completions ?cs q = Some b \<Longrightarrow> b = a" for b
    using cs'(1) by (auto simp: GetOrCreateSequenceCompletion_def)
  let ?dp' = "(set_ssqc k s1 dp)\<lparr>dpl_completionStore := cs'\<rparr>"
  have step: "readLoop rd k (dp, held) = Goes (?dp', held(k \<mapsto> (?h, a)))"
    using assms(4,5) s1(1) cs'(1) by (simp add: readLoop_def readLoop_header_def decode_frame_header Let_def dp_wire_nonempty)
  have "mreader pend M (Completions cs') (G j) (X j) (dpl_Streams ?dp' j) ((held(k \<mapsto> (?h, a))) j)" if "j \<in> K" for j
  proof (cases "j = k")
    case True
    then show ?thesis using assms(5) s1(2) g M(1) cs'(2) by (simp add: mreader_def set_ssqc_Streams)
  next
    case False
    have "mreader pend M (Completions cs') (G j) (X j) (dpl_Streams dp j) (held j)"
      by (rule mreader_mono [OF inv(4) [OF that]]) (use cs'(2) same in auto)
    with False assms(5) show ?thesis by (simp add: set_ssqc_Streams)
  qed
  then have "multi_inv pend M K G R X ?dp' (held(k \<mapsto> (?h, a)))"
    using inv(1,2) cs'(3) readLoop_wf [OF step inv(3)] by (simp add: multi_inv_def)
  moreover have "dpl_QPartsStreams ?dp' = dpl_QPartsStreams dp" by simp
  ultimately show ?thesis using step \<open>G k \<noteq> []\<close> by blast
qed

text \<open>The payload: the last part delivers the sequence.\<close>

lemma mpayload_step:
  assumes "stream_delivers rd pend" "multi_inv pend M K G R X dp held" "k \<in> K" "held k = Some h"
    and "dpl_Streams dp k = Some st" "unat (dp_PartSize (fst h)) \<le> length (pend (ds_ssqc st))"
  shows "\<exists>dp' q x rest. G k = (q, x) # rest \<and> readLoop rd k (dp, held) = Goes (dp', held(k := None))
     \<and> multi_inv pend M K (G(k := rest)) (R(q := insert x (R q))) X dp' (held(k := None))
     \<and> dpl_QPartsStreams dp' = (if insert x (R q) = parts_of M q then deliver M q (dpl_QPartsStreams dp) else dpl_QPartsStreams dp)"
proof -
  note inv = multi_invD [OF assms(2)]
  let ?cs = "dpl_completionStore dp"
  obtain q i d rest sid parts a where g: "G k = (q, i, d) # rest"
    and M: "M q = Some (sid, parts)" and a: "Completions ?cs q = Some a" and h: "h = (wire_header sid q parts i d, a)"
    and pend: "pend (ds_ssqc st) @ X k = d @ mframes M rest"
    using inv(4) [OF assms(3)] assms(4,5) by (cases h) (auto simp: mreader_def)
  let ?G = "G(k := rest)" and ?R = "R(q := insert (i, d) (R q))"
  note nxt = mplan_next [OF inv(1) assms(3) g]
  have x: "(i, d) \<in> set (indexed parts)" using nxt(2) M by (simp add: in_parts_of)
  have snd: "sendable parts" "dpl_QPartsStreams dp sid \<noteq> None" using inv(2) M unfolding traffic_ok_def by blast+
  then obtain s where s: "dpl_QPartsStreams dp sid = Some s" by blast
  note b = sendable_bounds [OF snd(1) x(1)]
  have len: "length d \<le> length (pend (ds_ssqc st))" using assms(6) h b(2) by simp
  have w: "take (length d) (pend (ds_ssqc st)) = d" "drop (length d) (pend (ds_ssqc st)) @ X k = mframes M rest"
    using arg_cong [OF pend, of "take (length d)"] arg_cong [OF pend, of "drop (length d)"] len by simp_all
  obtain s1 where s1: "ReadAll rd (ds_ssqc st) (length d) = Some (d, None, s1)" "pend s1 @ X k = mframes M rest"
    using ReadAll_delivers [OF assms(1) len] w by auto
  let ?R' = "insert (i, d) (R q)"
  have all: "parts_of M q = set (indexed parts)" using M by (simp add: parts_of_def)
  have "seq_state parts (R q) (Completions ?cs q) (cs_objs ?cs)" using inv(5) M unfolding seqs_ok_def by blast
  then have "received parts (R q) (cs_objs ?cs ! a)" using a by (simp add: seq_state_def)
  from AddPart_received [OF sendable_transferable [OF snd(1)] this x(1)] obtain sc where
    sc: "AddPart i d (cs_objs ?cs ! a) = Inr (?R' = set (indexed parts), sc)" "received parts ?R' sc"
    "?R' = set (indexed parts) \<longrightarrow> sc_Data sc = concat parts" by blast
  let ?done = "?R' = set (indexed parts)"
  let ?store = "update_obj a sc ?cs" and ?dp1 = "set_ssqc k s1 dp"
  let ?cs' = "if ?done then RemoveCompletion q ?store else ?store"
  let ?dp' = "?dp1\<lparr>dpl_completionStore := ?cs', dpl_QPartsStreams :=
    (if ?done then deliver M q (dpl_QPartsStreams dp) else dpl_QPartsStreams dp)\<rparr>"
  have copy: "go_copy (replicate (length d) 0) d = d" by (simp add: go_copy_full)
  have step: "readLoop rd k (dp, held) = Goes (?dp', held(k := None))"
    using assms(4,5) h s s1(1) b sc(1,3) copy M
    by (simp add: readLoop_def readLoop_payload_def go_make_def Let_def delivered_def deliver_def)
  have C: "Completions ?cs' p = (if p = q \<and> ?done then None else Completions ?cs p)" for p
    by (simp add: update_obj_def RemoveCompletion_def)
  have objs: "cs_objs ?cs' = (cs_objs ?cs)[a := sc]" by (simp add: update_obj_def RemoveCompletion_def)
  have wf: "store_wf ?cs" using dataplane_wfD(1) [OF inv(3)] .
  have mr: "mreader pend M (Completions ?cs') (?G j) (X j) (dpl_Streams ?dp' j) ((held(k := None)) j)" if "j \<in> K" for j
  proof (cases "j = k")
    case True
    then show ?thesis using assms(5) s1(2) by (simp add: mreader_def set_ssqc_Streams)
  next
    case False
    have "p \<noteq> q \<or> \<not> ?done" if "G j = (p, y) # ys" for p y ys
    proof -
      have "(p, y) \<in> set (?G j)" using that False by simp
      with nxt(1) \<open>j \<in> K\<close> have "y \<in> parts_of M p - ?R p" unfolding mplan_def by blast
      then show ?thesis using all by auto
    qed
    then have "mreader pend M (Completions ?cs') (G j) (X j) (dpl_Streams dp j) (held j)"
      by (intro mreader_mono [OF inv(4) [OF that]]) (auto simp only: C split: if_splits)
    with False assms(5) show ?thesis by (simp add: set_ssqc_Streams)
  qed
  have "seqs_ok M ?R ?cs'"
  proof (rule seqs_ok_step [OF inv(5) wf, of q])
    show "seq_state parts' (?R q) (Completions ?cs' q) (cs_objs ?cs')" if "M q = Some (sid', parts')" for sid' parts'
    proof -
      have "seq_state parts ?R' (Completions ?cs' q) (cs_objs ?cs')"
        unfolding seq_state_def C objs using sc(2) a wf by (auto simp: store_wf_def)
      with that M show ?thesis by (simp only: option.inject prod.inject fun_upd_same)
    qed
    show "cs_objs ?cs' ! b = cs_objs ?cs ! b" if "p \<noteq> q" "Completions ?cs p = Some b" for p b
    proof -
      have "b \<noteq> a" using that a wf unfolding store_wf_def by metis
      then show ?thesis by (simp add: objs)
    qed
    show "Completions ?cs' p = Completions ?cs p" if "p \<noteq> q" for p using that by (simp add: C)
  qed simp
  moreover have "traffic_ok M (dpl_QPartsStreams ?dp')"
    using inv(2) by (auto simp: traffic_ok_def deliver_def split: option.splits)
  ultimately have "multi_inv pend M K ?G ?R X ?dp' (held(k := None))"
    using nxt(1) readLoop_wf [OF step inv(3)] mr by (simp add: multi_inv_def)
  with step g all show ?thesis by (intro exI conjI) (assumption | simp)+
qed

text \<open>A turn of a read loop is a step of the channel or no step, and it is one unit of the loop's work
  unless bytes are missing.\<close>

lemma mreader_turn:
  assumes "stream_delivers rd pend" "stream_blocks rd pend" "multi_inv pend M K G R X dp held" "k \<in> K"
  shows "\<exists>dp' held' G' R'. (readLoop rd k (dp, held) = Goes (dp', held')
        \<or> readLoop rd k (dp, held) = Waits \<and> dp' = dp \<and> held' = held)
     \<and> multi_inv pend M K G' R' X dp' held'
     \<and> (channel_step M)\<^sup>=\<^sup>= (to_channel M R dp) (to_channel M R' dp')
     \<and> (\<forall>q. R q \<union> outstanding K G q = R' q \<union> outstanding K G' q)
     \<and> (X k = [] \<longrightarrow> work G' held' k = work G held k - 1) \<and> (\<forall>j. j \<noteq> k \<longrightarrow> work G' held' j = work G held j)
     \<and> (\<forall>j. length (G' j) \<le> length (G j))"
proof (cases "held k")
  case (Some h)
  note inv = multi_invD [OF assms(3)]
  obtain st q i d rest sid parts a where st: "dpl_Streams dp k = Some st" "G k = (q, i, d) # rest" "M q = Some (sid, parts)"
    "h = (wire_header sid q parts i d, a)" "pend (ds_ssqc st) @ X k = d @ mframes M rest"
    using inv(4) [OF assms(4)] Some by (cases h) (auto simp: mreader_def)
  note nxt = mplan_next [OF inv(1) assms(4) st(2)]
  have "(i, d) \<in> set (indexed parts)" "sendable parts" using nxt(2) st(3) inv(2) by (auto simp: in_parts_of traffic_ok_def)
  from sendable_bounds(2-4) [OF this(2,1)] have d: "unat (dp_PartSize (fst h)) = length d" "length d \<le> maxAlloc"
    using st(4) by simp_all
  show ?thesis
  proof (cases "length d \<le> length (pend (ds_ssqc st))")
    case False
    then have "ReadAll rd (ds_ssqc st) (length d) = None" by (intro ReadAll_waits [OF assms(1,2)]) simp
    then have "readLoop rd k (dp, held) = Waits"
      using Some st(1,4) d by (simp add: readLoop_def readLoop_payload_def go_make_def)
    moreover have "X k \<noteq> []" using False arg_cong [OF st(5), of length] by auto
    ultimately show ?thesis using assms(3) by blast
  next
    case True
    obtain dp' q x rest where s: "G k = (q, x) # rest" "readLoop rd k (dp, held) = Goes (dp', held(k := None))"
      "multi_inv pend M K (G(k := rest)) (R(q := insert x (R q))) X dp' (held(k := None))"
      "dpl_QPartsStreams dp' = (if insert x (R q) = parts_of M q then deliver M q (dpl_QPartsStreams dp) else dpl_QPartsStreams dp)"
      using mpayload_step [OF assms(1,3,4) Some st(1)] True d(1) by fastforce
    let ?G = "G(k := rest)" and ?R = "R(q := insert x (R q))"
    note nxt = mplan_next [OF inv(1) assms(4) s(1)]
    have "(channel_step M)\<^sup>=\<^sup>= (to_channel M R dp) (to_channel M ?R dp')"
    proof (cases "insert x (R q) = parts_of M q")
      case True
      then have "to_channel M ?R dp' = \<lparr>ch_pending = ch_pending (to_channel M R dp) - {q},
          ch_streams = deliver M q (ch_streams (to_channel M R dp))\<rparr>"
        using s(4) by (auto simp: to_channel_def)
      moreover have "q \<in> ch_pending (to_channel M R dp)" using nxt(2,3) by (auto simp: to_channel_def)
      ultimately show ?thesis using deliver_one by (metis sup2CI)
    next
      case False
      then have "to_channel M ?R dp' = to_channel M R dp"
        using nxt(2,3) s(4) by (auto simp: to_channel_def fun_eq_iff split: if_splits)
      then show ?thesis by simp
    qed
    moreover have "work ?G (held(k := None)) k = work G held k - 1" "\<forall>j. j \<noteq> k \<longrightarrow> work ?G (held(k := None)) j = work G held j"
      using s(1) Some by (auto simp: work_def)
    moreover have "R p \<union> outstanding K G p = ?R p \<union> outstanding K ?G p" for p
    proof -
      have "(p, y) \<in> set (G k) \<longleftrightarrow> (p, y) \<in> set rest \<or> p = q \<and> y = x" for p y using s(1) by auto
      from outstanding_upd [where G = G and p = p, OF assms(4) this] show ?thesis by auto
    qed
    ultimately show ?thesis
      using s(2,3) by (intro exI [of _ dp'] exI [of _ "held(k := None)"] exI [of _ ?G] exI [of _ ?R]) (simp add: s(1))
  qed
next
  case None
  note inv = multi_invD [OF assms(3)]
  obtain st where st: "dpl_Streams dp k = Some st" "pend (ds_ssqc st) @ X k = mframes M (G k)"
    using inv(4) [OF assms(4)] None by (auto simp: mreader_def)
  show ?thesis
  proof (cases "52 \<le> length (pend (ds_ssqc st))")
    case False
    then have "ReadAll rd (ds_ssqc st) 52 = None" by (intro ReadAll_waits [OF assms(1,2)]) simp
    then have "readLoop rd k (dp, held) = Waits" using None st(1) by (simp add: readLoop_def readLoop_header_def)
    moreover have "G k = []" if "X k = []"
    proof (cases "G k")
      case (Cons y ys)
      obtain q x where y: "y = (q, x)" by (cases y)
      have "x \<in> parts_of M q" using mplan_next(2) [OF inv(1) assms(4)] Cons y by blast
      then obtain sid parts where "M q = Some (sid, parts)" by (auto simp: in_parts_of)
      with st(2) Cons y that False show ?thesis by (cases x) auto
    qed simp
    then have "X k = [] \<longrightarrow> work G held k = work G held k - 1" by (simp add: work_def)
    ultimately show ?thesis using assms(3) by blast
  next
    case True
    obtain dp' h where s: "readLoop rd k (dp, held) = Goes (dp', held(k \<mapsto> h))"
      "multi_inv pend M K G R X dp' (held(k \<mapsto> h))" "dpl_QPartsStreams dp' = dpl_QPartsStreams dp" "G k \<noteq> []"
      using mheader_step [OF assms(1,3,4) None st(1) True] by blast
    have "to_channel M R dp' = to_channel M R dp" using s(3) by (simp add: to_channel_def)
    moreover have "work G (held(k \<mapsto> h)) k = work G held k - 1" "\<forall>j. j \<noteq> k \<longrightarrow> work G (held(k \<mapsto> h)) j = work G held j"
      using s(4) None by (cases "G k"; auto simp: work_def)+
    ultimately show ?thesis using s(1,2)
      by (intro exI [of _ dp'] exI [of _ "held(k \<mapsto> h)"] exI [of _ G] exI [of _ R]) simp
  qed
qed

lemma run_mreaders:
  assumes "stream_delivers rd pend" "stream_blocks rd pend" "set ks \<subseteq> K" "multi_inv pend M K G R X dp held"
  shows "\<exists>dp' held' G' R'. run_readers rd ks (dp, held) = Inr (dp', held') \<and> multi_inv pend M K G' R' X dp' held'
     \<and> (channel_step M)\<^sup>*\<^sup>* (to_channel M R dp) (to_channel M R' dp')
     \<and> (\<forall>q. R q \<union> outstanding K G q = R' q \<union> outstanding K G' q)
     \<and> (\<forall>k. X k = [] \<longrightarrow> work G' held' k = work G held k - count_list ks k)"
  using assms(3,4)
proof (induction ks arbitrary: dp held G R)
  case (Cons k ks)
  obtain dp1 held1 G1 R1 where s: "readLoop rd k (dp, held) = Goes (dp1, held1)
        \<or> readLoop rd k (dp, held) = Waits \<and> dp1 = dp \<and> held1 = held"
     "multi_inv pend M K G1 R1 X dp1 held1" "(channel_step M)\<^sup>=\<^sup>= (to_channel M R dp) (to_channel M R1 dp1)"
     "\<forall>q. R q \<union> outstanding K G q = R1 q \<union> outstanding K G1 q"
     "X k = [] \<longrightarrow> work G1 held1 k = work G held k - 1" "\<forall>j. j \<noteq> k \<longrightarrow> work G1 held1 j = work G held j"
  proof -
    have "k \<in> K" using Cons.prems(1) by simp
    from mreader_turn [OF assms(1,2) Cons.prems(2) this] show thesis by (elim exE conjE) (rule that)
  qed
  have "run_readers rd (k # ks) (dp, held) = run_readers rd ks (dp1, held1)" using s(1) by auto
  with Cons.IH [OF _ s(2)] Cons.prems(1) obtain dp' held' G' R' where
    r: "run_readers rd (k # ks) (dp, held) = Inr (dp', held')" "multi_inv pend M K G' R' X dp' held'"
    "(channel_step M)\<^sup>*\<^sup>* (to_channel M R1 dp1) (to_channel M R' dp')"
    "\<forall>q. R1 q \<union> outstanding K G1 q = R' q \<union> outstanding K G' q"
    "\<forall>j. X j = [] \<longrightarrow> work G' held' j = work G1 held1 j - count_list ks j" by auto
  have "X j = [] \<longrightarrow> work G' held' j = work G held j - count_list (k # ks) j" for j
    using r(5) s(5,6) by (cases "j = k") auto
  moreover have "(channel_step M)\<^sup>*\<^sup>* (to_channel M R dp) (to_channel M R' dp')"
    using s(3) r(3) by (auto intro: converse_rtranclp_into_rtranclp)
  moreover have "\<forall>q. R q \<union> outstanding K G q = R' q \<union> outstanding K G' q" using r(4) s(4) by simp
  ultimately show ?case using r(1,2)
    by (intro exI [of _ dp'] exI [of _ held'] exI [of _ G'] exI [of _ R']) (simp del: run_readers.simps count_list.simps)
qed auto

text \<open>A loop with no work left waits for a header and has nothing outstanding.\<close>

lemma work_done:
  assumes "multi_inv pend M K G R X dp held" "k \<in> K" "work G held k = 0"
  shows "G k = [] \<and> held k = None"
proof -
  have "held k \<noteq> None \<Longrightarrow> G k \<noteq> []" using multi_invD(4) [OF assms(1,2)] by (auto simp: mreader_def)
  with assms(3) show ?thesis by (cases "held k"; cases "G k") (auto simp: work_def)
qed

lemma all_delivered:
  assumes "multi_inv pend M K G R X dp held" "R = parts_of M"
  shows "\<forall>q \<in> dom M. Completions (dpl_completionStore dp) q = None"
proof
  fix q assume "q \<in> dom M"
  then obtain sid parts where M: "M q = Some (sid, parts)" by auto
  have "seq_state parts (parts_of M q) (Completions (dpl_completionStore dp) q) (cs_objs (dpl_completionStore dp))"
    using multi_invD(5) [OF assms(1), unfolded seqs_ok_def, rule_format, OF M] by (simp only: assms(2))
  then show "Completions (dpl_completionStore dp) q = None"
    using M by (simp add: seq_state_def parts_of_def split: option.splits)
qed

section \<open>The refinement\<close>

text \<open>All frames of the traffic are on the streams, in any order and any distribution; no sequence has
  been opened yet.\<close>

definition arriving ::
  "('s \<Rightarrow> byte list) \<Rightarrow> traffic \<Rightarrow> u64 set \<Rightarrow> (u64 \<Rightarrow> (u64 \<times> int \<times> byte list) list)
     \<Rightarrow> ('addr, 'path, 's) QPartsDataplane \<Rightarrow> bool" where
  "arriving pend M K G dp \<longleftrightarrow> mplan M K G (\<lambda>_. {}) \<and> (\<forall>q. outstanding K G q = parts_of M q)
     \<and> traffic_ok M (dpl_QPartsStreams dp) \<and> dataplane_wf (dp, Map.empty)
     \<and> (\<forall>q \<in> dom M. Completions (dpl_completionStore dp) q = None)
     \<and> (\<forall>k \<in> K. \<exists>st. dpl_Streams dp k = Some st \<and> pend (ds_ssqc st) = mframes M (G k))"

lemma arriving_inv: "arriving pend M K G dp \<Longrightarrow> multi_inv pend M K G (\<lambda>_. {}) (\<lambda>_. []) dp Map.empty"
  by (auto simp: arriving_def multi_inv_def mreader_def seqs_ok_def seq_state_def domI split: option.splits)

lemma fresh_channel:
  assumes "traffic_ok M (dpl_QPartsStreams dp)"
  shows "to_channel M (\<lambda>_. {}) dp = \<lparr>ch_pending = dom M, ch_streams = dpl_QPartsStreams dp\<rparr>"
proof -
  have "parts_of M q \<noteq> {}" if "M q = Some (sid, parts)" for q sid parts
  proof -
    have "sendable parts" using assms that unfolding traffic_ok_def by blast
    then show ?thesis using that by (simp add: parts_of_def indexed_def sendable_def)
  qed
  then have "({} \<noteq> parts_of M q) = (q \<in> dom M)" for q by (auto simp: parts_of_def split: option.splits)
  then show ?thesis by (auto simp: to_channel_def)
qed

lemma receivers_run:
  assumes "stream_delivers rd pend" "stream_blocks rd pend" "set ks \<subseteq> K" "arriving pend M K G dp"
  shows "\<exists>dp' held' c. run_readers rd ks (dp, Map.empty) = Inr (dp', held')
     \<and> (channel_step M)\<^sup>*\<^sup>* \<lparr>ch_pending = dom M, ch_streams = dpl_QPartsStreams dp\<rparr> c
     \<and> dpl_QPartsStreams dp' = ch_streams c
     \<and> ((\<forall>k \<in> K. 2 * length (G k) \<le> count_list ks k) \<longrightarrow> ch_pending c = {}
          \<and> (\<forall>q \<in> dom M. Completions (dpl_completionStore dp') q = None) \<and> (\<forall>k \<in> K. held' k = None))"
proof -
  have a: "traffic_ok M (dpl_QPartsStreams dp)" "\<And>q. outstanding K G q = parts_of M q"
    using assms(4) by (simp_all add: arriving_def)
  obtain dp' held' G' R where r: "run_readers rd ks (dp, Map.empty) = Inr (dp', held')" "multi_inv pend M K G' R (\<lambda>_. []) dp' held'"
    "(channel_step M)\<^sup>*\<^sup>* (to_channel M (\<lambda>_. {}) dp) (to_channel M R dp')"
    "\<And>q. parts_of M q = R q \<union> outstanding K G' q"
    "\<forall>k. work G' held' k = work G Map.empty k - count_list ks k"
    using run_mreaders [OF assms(1-3) arriving_inv [OF assms(4)]] unfolding a(2) by auto
  have "ch_pending (to_channel M R dp') = {} \<and> (\<forall>q \<in> dom M. Completions (dpl_completionStore dp') q = None)
      \<and> (\<forall>k \<in> K. held' k = None)" if enough: "\<forall>k \<in> K. 2 * length (G k) \<le> count_list ks k"
  proof -
    have fin: "G' k = [] \<and> held' k = None" if "k \<in> K" for k
    proof (rule work_done [OF r(2) that])
      show "work G' held' k = 0" using spec [OF r(5), of k] bspec [OF enough that] by (simp add: work_def)
    qed
    then have "outstanding K G' q = {}" for q by (simp add: outstanding_def)
    with r(4) have "R = parts_of M" by (simp add: fun_eq_iff)
    with all_delivered [OF r(2)] fin show ?thesis by (simp add: to_channel_def)
  qed
  with r(1,3) fresh_channel [OF a(1)] show ?thesis
    by (intro exI [of _ dp'] exI [of _ held'] exI [of _ "to_channel M R dp'"] conjI impI) (simp_all add: to_channel_def)
qed

text \<open>The receiving side refines a channel that delivers whole sequences: any number of sequences,
  whose frames are spread over the data plane streams and mixed on each of them in any way, and any
  schedule of the read loops.  At every moment the streams of the application are those of a channel that
  has delivered some of the sequences in some order, each once, as the concatenation of its parts, and
  has shown nothing of the others; no loop panics.  Once every loop has had two turns for each of its
  frames, every sequence is delivered, no completion is left in the store, and no loop is inside a frame.\<close>

theorem receivers_refine_channel:
  assumes "stream_delivers rd pend" "stream_blocks rd pend" "set ks \<subseteq> K" "arriving pend M K G dp"
  shows "\<exists>dp' held' c. run_readers rd ks (dp, Map.empty) = Inr (dp', held')
     \<and> (channel_step M)\<^sup>*\<^sup>* \<lparr>ch_pending = dom M, ch_streams = dpl_QPartsStreams dp\<rparr> c
     \<and> dpl_QPartsStreams dp' = ch_streams c
     \<and> ((\<forall>k \<in> K. 2 * length (G k) \<le> count_list ks k) \<longrightarrow> ch_pending c = {}
          \<and> (\<forall>q \<in> dom M. Completions (dpl_completionStore dp') q = None) \<and> (\<forall>k \<in> K. held' k = None))"
  by (rule receivers_run [OF assms])

lemma orders_of_two:
  assumes "distinct order" "set order = {a, b}" "a \<noteq> b"
  shows "order = [a, b] \<or> order = [b, a]"
proof -
  have "length order = 2" using distinct_card [OF assms(1)] assms(2,3) by simp
  then obtain x y where "order = [x, y]" by (metis (no_types) One_nat_def Suc_1 length_0_conv length_Suc_conv)
  with assms(2) show ?thesis by (simp only: list.set doubleton_eq_iff list.inject simp_thms)
qed

text \<open>Two sequences of two parts, mixed on two streams.\<close>

definition mixed_traffic :: traffic where
  "mixed_traffic = [77 \<mapsto> (9, [[1], [2]]), 78 \<mapsto> (9, [[3], [4]])]"

definition mixed_frames :: "u64 \<Rightarrow> (u64 \<times> int \<times> byte list) list" where
  "mixed_frames k = (if k = 1 then [(77, 0, [1]), (78, 1, [4])] else if k = 2 then [(78, 0, [3]), (77, 1, [2])] else [])"

definition mixed :: "(nat, nat, byte list) QPartsDataplane" where
  "mixed = AddListenStream 2 (mframes mixed_traffic (mixed_frames 2))
     (AddListenStream 1 (mframes mixed_traffic (mixed_frames 1)) (NewQPartsDataplane [9 \<mapsto> NewPartsStream 9]))"

lemma mixed_arriving: "arriving id mixed_traffic {1, 2} mixed_frames mixed"
proof -
  have ix: "indexed [a, b] = [(0, a), (1, b :: byte list)]" for a b by (simp add: indexed_def)
  have m: "outstanding {1, 2} mixed_frames q = parts_of mixed_traffic q" for q
    by (auto simp: outstanding_def parts_of_def mixed_traffic_def mixed_frames_def ix)
  have "mplan mixed_traffic {1, 2} mixed_frames (\<lambda>_. {})"
    by (auto simp: mplan_def mixed_frames_def parts_of_def mixed_traffic_def ix)
  moreover have "traffic_ok mixed_traffic (dpl_QPartsStreams mixed)"
    by (auto simp: traffic_ok_def mixed_traffic_def mixed_def AddListenStream_def NewQPartsDataplane_def
        sendable_def maxAlloc_def split: if_splits)
  ultimately show ?thesis using m
    by (auto simp: arriving_def mixed_def AddListenStream_def NewQPartsDataplane_def NewCompletionStore_def
        dataplane_wf.simps store_wf_def queues_wf_def held_wf_def NewQueue_def)
qed

theorem receivers_refine_channel_witness:
  "\<exists>dp' held'. run_readers memory_read [1, 2, 2, 1, 1, 2, 1, 2] (mixed, Map.empty) = Inr (dp', held')
     \<and> pb_buffer (ps_ReadBuffer (the (dpl_QPartsStreams dp' 9))) \<in> {[1, 2, 3, 4], [3, 4, 1, 2]}"
proof -
  obtain dp' held' c where r: "run_readers memory_read [1, 2, 2, 1, 1, 2, 1, 2] (mixed, Map.empty) = Inr (dp', held')"
    "(channel_step mixed_traffic)\<^sup>*\<^sup>* \<lparr>ch_pending = dom mixed_traffic, ch_streams = dpl_QPartsStreams mixed\<rparr> c"
    "dpl_QPartsStreams dp' = ch_streams c" "ch_pending c = {}"
    using receivers_refine_channel [OF memory_read _ mixed_arriving, of "[1, 2, 2, 1, 1, 2, 1, 2]"]
    by (auto simp: mixed_frames_def simp del: run_readers.simps)
  have dom: "dom mixed_traffic = {77, 78}" by (auto simp: mixed_traffic_def)
  obtain order where o: "distinct order" "set order \<subseteq> {77, 78}" "{} = {77, 78} - set order"
    "ch_streams c = fold (deliver mixed_traffic) order (dpl_QPartsStreams mixed)"
    using channel_run [OF r(2)] r(4) dom by auto
  have "set order = {77, 78}" using o(2,3) by blast
  then have "order = [77, 78] \<or> order = [78, 77]" using orders_of_two [OF o(1)] by simp
  moreover have "dpl_QPartsStreams mixed = [9 \<mapsto> NewPartsStream 9]"
    by (simp add: mixed_def AddListenStream_def NewQPartsDataplane_def)
  ultimately have "pb_buffer (ps_ReadBuffer (the (dpl_QPartsStreams dp' 9))) \<in> {[1, 2, 3, 4], [3, 4, 1, 2]}"
    unfolding r(3) o(4) by (elim disjE)
      (simp_all add: deliver_def mixed_traffic_def NewPartsStream_def delivered_def pb_Append_def NewPacketBuffer_def)
  with r(1) show ?thesis by blast
qed

end
