(* ===== verification/Writers.thy ===== *)
theory Writers
  imports Channel
begin

text \<open>
  The sending side with any number of concurrent calls of \<^verbatim>\<open>WriteForStream\<close>: every call is cut at its
  calls of \<^verbatim>\<open>Queue.Add\<close>, and the calls and the write loops are interleaved in any way.
\<close>

section \<open>Calls of WriteForStream in progress\<close>

text \<open>The local variables of a call: its completion and where it is on the heap, the assignments of
  the decision and the number of those that are in the queues already.\<close>

record 'addr call =
  ca_sid :: u64
  ca_compl :: QPartsSequenceCompletion
  ca_obj :: nat
  ca_parts :: "'addr DataAssignment list"
  ca_next :: nat

abbreviation ca_seq :: "'addr call \<Rightarrow> u64" where
  "ca_seq c \<equiv> sc_SequenceId (ca_compl c)"

abbreviation ca_data :: "'addr call \<Rightarrow> byte list list" where
  "ca_data c \<equiv> map da_Data (ca_parts c)"

datatype 'addr sender_action =
  Enters u64 u64 "'addr DataAssignment list"
| Adds nat
| Sends u64

fun write_action ::
  "'s qwrite \<Rightarrow> 'addr sender_action \<Rightarrow> ('addr, 'path, 's) QPartsDataplane \<times> 'addr call list
     \<Rightarrow> (('addr, 'path, 's) QPartsDataplane \<times> 'addr call list) go" where
  "write_action wr (Enters sid rnd das) (dp, calls) =
     (let compl = NewSequenceCompletionFromSchedulingDecision sid \<lparr>Assignments = das\<rparr> rnd;
          (a, store) = cs_alloc compl (dpl_completionStore dp)
      in Inr (dp\<lparr>dpl_completionStore := AddCompletion a store\<rparr>,
              calls @ [\<lparr>ca_sid = sid, ca_compl = compl, ca_obj = a, ca_parts = das, ca_next = 0\<rparr>]))"
| "write_action wr (Adds n) (dp, calls) =
     (if n < length calls \<and> ca_next (calls ! n) < length (ca_parts (calls ! n)) then
        let c = calls ! n; i = ca_next c in
        go_bind (enqueue_parts [ca_parts c ! i] i (length (ca_parts c)) (ca_compl c) (ca_sid c) 0 dp)
          (\<lambda>(_, dp'). Inr (dp', calls[n := c\<lparr>ca_next := i + 1\<rparr>]))
      else Inr (dp, calls))"
| "write_action wr (Sends k) (dp, calls) =
     (case writeLoop wr k dp of
        Waits \<Rightarrow> Inr (dp, calls)
      | Panics e \<Rightarrow> Inl e
      | Goes dp' \<Rightarrow> Inr (dp', calls))"

fun run_write_actions ::
  "'s qwrite \<Rightarrow> 'addr sender_action list \<Rightarrow> ('addr, 'path, 's) QPartsDataplane \<times> 'addr call list
     \<Rightarrow> (('addr, 'path, 's) QPartsDataplane \<times> 'addr call list) go" where
  "run_write_actions wr [] s = Inr s"
| "run_write_actions wr (x # xs) s = go_bind (write_action wr x s) (run_write_actions wr xs)"

lemma run_write_actions_append:
  "run_write_actions wr (xs @ ys) s = go_bind (run_write_actions wr xs s) (run_write_actions wr ys)"
  by (induction xs arbitrary: s) (auto simp: go_bind_def split: sum.splits)

lemma run_write_actions_Sends:
  "run_write_actions wr (map Sends ks) (dp, calls) = go_bind (run_writers wr ks dp) (\<lambda>dp'. Inr (dp', calls))"
  by (induction ks arbitrary: dp) (auto simp: go_bind_def split: loop_result.splits)

section \<open>The cut call is the call\<close>

lemma enqueue_one:
  assumes "da_DataplaneStream da = Some k" "dpl_Streams dp k = Some st"
  shows "enqueue_parts [da] i num compl sid n dp
    = Inr (n + length (da_Data da), set_stream k (extend_queue [number_part num compl sid (i, da)] st) dp)"
  using assms by (simp add: number_part_def extend_queue_def Queue_Add_def)

text \<open>\<open>n\<close> only counts the bytes.\<close>

lemma enqueue_count:
  fixes dp :: "('addr, 'path, 's) QPartsDataplane"
  shows "enqueue_parts das i num compl sid n dp
     = go_bind (enqueue_parts das i num compl sid 0 dp) (\<lambda>(m, dp'). Inr (n + m, dp'))"
proof (induction das arbitrary: i n dp)
  case (Cons da das)
  have "enqueue_parts das (Suc i) num compl sid (n + length (da_Data da)) dp1
      = go_bind (enqueue_parts das (Suc i) num compl sid (length (da_Data da)) dp1) (\<lambda>(m, dp'). Inr (n + m, dp'))"
    for dp1 :: "('addr, 'path, 's) QPartsDataplane"
    by (simp only: Cons.IH [of "Suc i" "n + length (da_Data da)"] Cons.IH [of "Suc i" "length (da_Data da)"]) (auto simp: go_bind_def split: sum.splits)
  then show ?case by (simp add: Let_def split: option.split)
qed simp

text \<open>The turns of one call without the others are \<^verbatim>\<open>WriteForStream\<close>.\<close>

lemma run_Adds:
  assumes "n < length calls" "calls ! n = c" "ca_next c = i" "drop i (ca_parts c) = das"
  shows "run_write_actions wr (replicate (length das) (Adds n)) (dp, calls)
    = go_bind (enqueue_parts das i (length (ca_parts c)) (ca_compl c) (ca_sid c) 0 dp)
        (\<lambda>(_, dp'). Inr (dp', calls[n := c\<lparr>ca_next := i + length das\<rparr>]))"
  using assms
proof (induction das arbitrary: i c calls dp)
  case Nil
  then show ?case by (metis (no_types, lifting) add.right_neutral call.surjective call.update_convs(5)
    case_prod_conv enqueue_parts.simps(1) go_bind_Inr list.size(3) list_update_id replicate_0 run_write_actions.simps(1))
next
  case (Cons da das)
  have i: "i < length (ca_parts c)" "ca_parts c ! i = da" "drop (Suc i) (ca_parts c) = das"
    using Cons.prems(4) by (metis drop_eq_Nil2 linorder_not_less list.distinct(1), metis nth_via_drop,
      metis drop_Suc list.sel(3) tl_drop)
  show ?case
  proof (cases "da_DataplaneStream da")
    case None
    then show ?thesis using Cons.prems i by simp
  next
    case (Some k)
    show ?thesis
    proof (cases "dpl_Streams dp k")
      case None
      with Some show ?thesis using Cons.prems i by simp
    next
      case (Some st)
      note k = \<open>da_DataplaneStream da = Some k\<close> Some
      let ?dp = "set_stream k (extend_queue [number_part (length (ca_parts c)) (ca_compl c) (ca_sid c) (i, da)] st) dp"
      let ?c = "c\<lparr>ca_next := Suc i\<rparr>"
      have "run_write_actions wr (replicate (length das) (Adds n)) (?dp, calls[n := ?c])
        = go_bind (enqueue_parts das (Suc i) (length (ca_parts c)) (ca_compl c) (ca_sid c) 0 ?dp)
            (\<lambda>(_, dp'). Inr (dp', calls[n := c\<lparr>ca_next := Suc i + length das\<rparr>]))"
        using Cons.IH [of "calls[n := ?c]" ?c "Suc i" ?dp] Cons.prems(1) i(3) by simp
      moreover have "enqueue_parts (da # das) i (length (ca_parts c)) (ca_compl c) (ca_sid c) 0 dp
        = enqueue_parts das (Suc i) (length (ca_parts c)) (ca_compl c) (ca_sid c) (length (da_Data da)) ?dp"
        using k by (simp add: number_part_def extend_queue_def Queue_Add_def)
      ultimately show ?thesis
        using Cons.prems i k enqueue_count [of das "Suc i" _ _ _ "length (da_Data da)" ?dp]
        by (auto simp: enqueue_one go_bind_def Let_def simp del: enqueue_parts.simps split: sum.splits)
    qed
  qed
qed

text \<open>Cutting a call of \<^verbatim>\<open>WriteForStream\<close> at its calls of \<^verbatim>\<open>Queue.Add\<close> does not change it: entering
  it and adding its parts one by one, without steps of others in between, is \<^verbatim>\<open>WriteForStream\<close> up to its
  wait, with the same data plane, the same completion and the same panics.\<close>

lemma WriteForStream_cut:
  "run_write_actions wr (Enters sid rnd das # replicate (length das) (Adds (length calls))) (dp, calls)
     = go_bind (WriteForStream \<lparr>Assignments = das\<rparr> sid rnd dp) (\<lambda>(a, n, dp'). Inr (dp', calls @
         [\<lparr>ca_sid = sid, ca_compl = NewSequenceCompletionFromSchedulingDecision sid \<lparr>Assignments = das\<rparr> rnd,
           ca_obj = a, ca_parts = das, ca_next = length das\<rparr>]))"
proof -
  let ?compl = "NewSequenceCompletionFromSchedulingDecision sid \<lparr>Assignments = das\<rparr> rnd"
  obtain a store where a: "cs_alloc ?compl (dpl_completionStore dp) = (a, store)" by (rule prod.exhaust)
  let ?c = "\<lparr>ca_sid = sid, ca_compl = ?compl, ca_obj = a, ca_parts = das, ca_next = 0\<rparr>"
  let ?dp = "dp\<lparr>dpl_completionStore := AddCompletion a store\<rparr>"
  have "run_write_actions wr (replicate (length das) (Adds (length calls))) (?dp, calls @ [?c])
      = go_bind (enqueue_parts das 0 (length das) ?compl sid 0 ?dp)
          (\<lambda>(_, dp'). Inr (dp', (calls @ [?c])[length calls := ?c\<lparr>ca_next := 0 + length das\<rparr>]))"
    using run_Adds [of "length calls" "calls @ [?c]" ?c 0 das wr ?dp] by simp
  with a show ?thesis
    by (auto simp: WriteForStream_def Let_def go_bind_def split: sum.splits)
qed

section \<open>The invariant\<close>

definition entry_of :: "'addr DataAssignment \<Rightarrow> u64 \<times> int \<times> byte list" where
  "entry_of da = (da_SequenceId da, part_of da)"

definition waiting :: "u64 \<Rightarrow> ('addr, 'path, 's) QPartsDataplaneStream option \<Rightarrow> nat" where
  "waiting q ost = (case ost of None \<Rightarrow> 0
     | Some st \<Rightarrow> length (filter (\<lambda>da. da_SequenceId da = q) (entries (ds_Queue st))))"

text \<open>The parts of a call that have not been sent: those not added yet and those in a queue.\<close>

definition unsent :: "u64 set \<Rightarrow> (u64 \<rightharpoonup> ('addr, 'path, 's) QPartsDataplaneStream) \<Rightarrow> 'addr call \<Rightarrow> nat" where
  "unsent K X c = (length (ca_parts c) - ca_next c) + (\<Sum>k \<in> K. waiting (ca_seq c) (X k))"

definition call_ok :: "traffic \<Rightarrow> u64 set \<Rightarrow> 'addr call \<Rightarrow> bool" where
  "call_ok M K c \<longleftrightarrow> M (ca_seq c) = Some (ca_sid c, ca_data c) \<and> sendable (ca_data c) \<and> placed (ca_parts c) K
     \<and> ca_next c \<le> length (ca_parts c) \<and> sc_SequenceSize (ca_compl c) = of_nat (length (concat (ca_data c)))"

definition calls_ok :: "traffic \<Rightarrow> u64 set \<Rightarrow> 'addr call list \<Rightarrow> bool" where
  "calls_ok M K calls \<longleftrightarrow> (\<forall>n < length calls. call_ok M K (calls ! n))
     \<and> (\<forall>n < length calls. \<forall>m < length calls. ca_seq (calls ! n) = ca_seq (calls ! m) \<longrightarrow> n = m)"

definition queued_by :: "'addr call list \<Rightarrow> u64 \<Rightarrow> 'addr DataAssignment \<Rightarrow> bool" where
  "queued_by calls k da \<longleftrightarrow> (\<exists>n < length calls. numbered (ca_sid (calls ! n)) (ca_seq (calls ! n)) (ca_data (calls ! n)) k da)"

definition stream_ok ::
  "('s \<Rightarrow> byte list) \<Rightarrow> traffic \<Rightarrow> 'addr call list \<Rightarrow> byte list \<Rightarrow> u64 \<Rightarrow> (u64 \<times> int \<times> byte list) list
     \<Rightarrow> ('addr, 'path, 's) QPartsDataplaneStream option \<Rightarrow> bool" where
  "stream_ok sent M calls z k g ost \<longleftrightarrow> (\<exists>st. ost = Some st
     \<and> sent (ds_ssqc st) @ mframes M (map entry_of (entries (ds_Queue st))) = z @ mframes M g
     \<and> (\<forall>da \<in> set (entries (ds_Queue st)). queued_by calls k da))"

text \<open>\<open>F k\<close>: the frames of all parts ever added to the queue of stream \<open>k\<close>.\<close>

definition added_by :: "'addr call \<Rightarrow> u64 \<Rightarrow> (u64 \<times> int \<times> byte list) set" where
  "added_by c k = {(ca_seq c, int j, da_Data (ca_parts c ! j)) | j.
     j < ca_next c \<and> da_DataplaneStream (ca_parts c ! j) = Some k}"

definition added :: "'addr call list \<Rightarrow> u64 \<Rightarrow> (u64 \<times> int \<times> byte list) set" where
  "added calls k = (\<Union>c \<in> set calls. added_by c k)"

definition frames_ok :: "u64 set \<Rightarrow> 'addr call list \<Rightarrow> (u64 \<Rightarrow> (u64 \<times> int \<times> byte list) list) \<Rightarrow> bool" where
  "frames_ok K calls F \<longleftrightarrow> (\<forall>k \<in> K. distinct (F k) \<and> length (F k) \<le> sum_list (map ca_next calls) \<and> set (F k) = added calls k)"

definition object_ok :: "'addr call \<Rightarrow> nat \<Rightarrow> CompletionStore \<Rightarrow> bool" where
  "object_ok c r cs \<longleftrightarrow> ca_obj c < length (cs_objs cs)
     \<and> sender_object (ca_seq c) (ca_data c) r (cs_objs cs ! ca_obj c)
     \<and> Completions cs (ca_seq c) = (if r = 0 then None else Some (ca_obj c))"

definition objects_ok ::
  "u64 set \<Rightarrow> 'addr call list \<Rightarrow> (u64 \<rightharpoonup> ('addr, 'path, 's) QPartsDataplaneStream) \<Rightarrow> CompletionStore \<Rightarrow> bool" where
  "objects_ok K calls X cs \<longleftrightarrow> (\<forall>c \<in> set calls. object_ok c (unsent K X c) cs)"

definition senders_inv ::
  "('s \<Rightarrow> byte list) \<Rightarrow> traffic \<Rightarrow> u64 set \<Rightarrow> (u64 \<Rightarrow> byte list) \<Rightarrow> (u64 \<Rightarrow> (u64 \<times> int \<times> byte list) list)
     \<Rightarrow> ('addr, 'path, 's) QPartsDataplane \<Rightarrow> 'addr call list \<Rightarrow> bool" where
  "senders_inv sent M K Z F dp calls \<longleftrightarrow> finite K \<and> dom (dpl_Streams dp) = K \<and> calls_ok M K calls
     \<and> (\<forall>k \<in> K. stream_ok sent M calls (Z k) k (F k) (dpl_Streams dp k))
     \<and> frames_ok K calls F \<and> objects_ok K calls (dpl_Streams dp) (dpl_completionStore dp)"

lemma senders_invD:
  assumes "senders_inv sent M K Z F dp calls"
  shows "finite K" "dom (dpl_Streams dp) = K" "calls_ok M K calls"
    "\<And>k. k \<in> K \<Longrightarrow> stream_ok sent M calls (Z k) k (F k) (dpl_Streams dp k)"
    "frames_ok K calls F" "objects_ok K calls (dpl_Streams dp) (dpl_completionStore dp)"
  using assms by (simp_all add: senders_inv_def)

lemma queued_by_mono:
  assumes "queued_by calls k da" "\<And>n. n < length calls \<Longrightarrow> n < length calls'
    \<and> (ca_sid (calls' ! n), ca_seq (calls' ! n), ca_data (calls' ! n)) = (ca_sid (calls ! n), ca_seq (calls ! n), ca_data (calls ! n))"
  shows "queued_by calls' k da"
  using assms unfolding queued_by_def by (metis prod.inject)

lemma stream_ok_mono:
  assumes "stream_ok sent M calls z k g ost" "\<And>da. queued_by calls k da \<Longrightarrow> queued_by calls' k da"
  shows "stream_ok sent M calls' z k g ost"
  using assms unfolding stream_ok_def by blast

lemma sum_waiting:
  assumes "finite K" "k \<in> K"
  shows "(\<Sum>j \<in> K. waiting q ((X(k \<mapsto> st)) j)) + waiting q (X k) = (\<Sum>j \<in> K. waiting q (X j)) + waiting q (Some st)"
  using assms by (simp add: sum.remove [OF assms])

lemma unsent_same_queues:
  "(\<And>k. waiting (ca_seq c) (X' k) = waiting (ca_seq c) (X k)) \<Longrightarrow> unsent K X' c = unsent K X c"
  by (simp add: unsent_def)

text \<open>What a step of the sending side does to the streams: at most one new frame, and bytes are only
  appended.\<close>

definition frame_added :: "traffic \<Rightarrow> u64 set \<Rightarrow> (u64 \<Rightarrow> (u64 \<times> int \<times> byte list) list) \<Rightarrow> (u64 \<Rightarrow> (u64 \<times> int \<times> byte list) list) \<Rightarrow> bool" where
  "frame_added M K F F' \<longleftrightarrow> F' = F \<or> (\<exists>k \<in> K. \<exists>q x. F' = F(k := F k @ [(q, x)]) \<and> x \<in> parts_of M q
     \<and> (\<forall>j \<in> K. (q, x) \<notin> set (F j)))"

definition sent_grows ::
  "('s \<Rightarrow> byte list) \<Rightarrow> ('addr, 'path, 's) QPartsDataplane \<Rightarrow> ('addr, 'path, 's) QPartsDataplane \<Rightarrow> bool" where
  "sent_grows sent dp dp' \<longleftrightarrow> (\<forall>k st st'. dpl_Streams dp k = Some st \<longrightarrow> dpl_Streams dp' k = Some st' \<longrightarrow>
     (\<exists>bs. sent (ds_ssqc st') = sent (ds_ssqc st) @ bs))"

lemma sent_grows_same: "dpl_Streams dp' = dpl_Streams dp \<Longrightarrow> sent_grows sent dp dp'"
  by (simp add: sent_grows_def)

lemma sent_grows_upd:
  "dpl_Streams dp k = Some st \<Longrightarrow> dpl_Streams dp' = (dpl_Streams dp)(k \<mapsto> st') \<Longrightarrow> sent (ds_ssqc st') = sent (ds_ssqc st) @ bs
     \<Longrightarrow> sent_grows sent dp dp'"
  by (auto simp: sent_grows_def)

section \<open>A call enters\<close>

lemma enters_step:
  assumes "senders_inv sent M K Z F dp calls" "M rnd = Some (sid, map da_Data das)" "rnd \<notin> ca_seq ` set calls"
    "sendable (map da_Data das)" "placed das K"
  shows "\<exists>dp' c. write_action wr (Enters sid rnd das) (dp, calls) = Inr (dp', calls @ [c])
     \<and> senders_inv sent M K Z F dp' (calls @ [c]) \<and> ca_seq c = rnd \<and> sent_grows sent dp dp'"
proof -
  note inv = senders_invD [OF assms(1)]
  let ?compl = "NewSequenceCompletionFromSchedulingDecision sid \<lparr>Assignments = das\<rparr> rnd" and ?cs = "dpl_completionStore dp"
  let ?a = "length (cs_objs ?cs)"
  let ?cs' = "AddCompletion ?a (?cs\<lparr>cs_objs := cs_objs ?cs @ [?compl]\<rparr>)"
  let ?dp' = "dp\<lparr>dpl_completionStore := ?cs'\<rparr>"
  let ?c = "\<lparr>ca_sid = sid, ca_compl = ?compl, ca_obj = ?a, ca_parts = das, ca_next = 0\<rparr>"
  let ?calls = "calls @ [?c]"
  have act: "write_action wr (Enters sid rnd das) (dp, calls) = Inr (?dp', ?calls)"
    by (simp add: cs_alloc_def Let_def)
  have size: "sum_list (map (length \<circ> da_Data) das) = length (concat (map da_Data das))"
    by (simp add: length_concat)
  have compl: "sc_SequenceId ?compl = rnd" "sc_SequenceSize ?compl = of_nat (length (concat (map da_Data das)))"
    using size by (simp_all add: NewSequenceCompletionFromSchedulingDecision_def new_completion_def decision_size_def comp_def)
  have ok: "call_ok M K ?c" using assms(2,4,5) compl by (simp add: call_ok_def)
  have "calls_ok M K ?calls"
    using inv(3) ok assms(3) compl(1) by (auto simp: calls_ok_def nth_append less_Suc_eq image_iff)
  moreover have "stream_ok sent M ?calls (Z k) k (F k) (dpl_Streams ?dp' k)" if "k \<in> K" for k
    using inv(4) [OF that] by (auto elim!: stream_ok_mono queued_by_mono simp: nth_append)
  moreover have "added ?calls k = added calls k" for k by (auto simp: added_def added_by_def)
  then have "frames_ok K ?calls F" using inv(5) by (simp add: frames_ok_def)
  moreover have "objects_ok K ?calls (dpl_Streams ?dp') ?cs'"
  proof -
    have "waiting rnd (dpl_Streams dp k) = 0" if "k \<in> K" for k
    proof -
      have "da_SequenceId da \<noteq> rnd" if "queued_by calls k da" for da
        using that assms(3) by (auto simp: queued_by_def numbered_def)
      then show ?thesis using inv(4) [OF that] by (auto simp: stream_ok_def waiting_def)
    qed
    then have new: "unsent K (dpl_Streams dp) ?c = length das" using compl(1) by (simp add: unsent_def)
    have ne: "das \<noteq> []" using assms(4) by (auto simp: sendable_def)
    then have obj: "sender_object rnd (map da_Data das) (length das) ?compl"
      using compl by (simp add: sender_object_def NewSequenceCompletionFromSchedulingDecision_def new_completion_def)
    have "ca_seq d \<noteq> rnd" if "d \<in> set calls" for d using assms(3) that by auto
    then show ?thesis using inv(6) new obj ne compl(1)
      by (auto simp: objects_ok_def object_ok_def AddCompletion_def nth_append)
  qed
  ultimately have "senders_inv sent M K Z F ?dp' ?calls" using inv(1,2) by (simp add: senders_inv_def)
  then show ?thesis using compl(1) by (intro exI [of _ ?dp'] exI [of _ ?c] conjI act sent_grows_same) simp_all
qed

section \<open>A call adds a part\<close>

lemma in_set_update:
  "n < length xs \<Longrightarrow> y \<in> set (xs[n := x]) \<longleftrightarrow> y = x \<or> (\<exists>m < length xs. m \<noteq> n \<and> y = xs ! m)"
  by (auto simp: in_set_conv_nth nth_list_update)

lemma mframes_append: "mframes M (xs @ ys) = mframes M xs @ mframes M ys"
  by (simp add: mframes_def)

lemma calls_ok_same:
  assumes "calls_ok M K calls" "c \<in> set calls" "d \<in> set calls" "ca_seq c = ca_seq d"
  shows "c = d"
  using assms unfolding calls_ok_def in_set_conv_nth by metis

lemma added_next:
  assumes "calls_ok M K calls" "n < length calls" "c = calls ! n"
  shows "added (calls[n := c\<lparr>ca_next := Suc (ca_next c)\<rparr>]) k = added calls k
    \<union> (if da_DataplaneStream (ca_parts c ! ca_next c) = Some k
       then {(ca_seq c, int (ca_next c), da_Data (ca_parts c ! ca_next c))} else {})"
proof -
  let ?c = "c\<lparr>ca_next := Suc (ca_next c)\<rparr>" and ?rest = "\<Union>m \<in> {..<length calls} - {n}. added_by (calls ! m) k"
  have "added (calls[n := x]) k = added_by x k \<union> ?rest" for x
    unfolding added_def using in_set_update [OF assms(2)] by auto
  from this [of ?c] this [of c] have "added (calls[n := ?c]) k = added_by ?c k \<union> ?rest" "added calls k = added_by c k \<union> ?rest"
    using assms(3) by simp_all
  moreover have "added_by ?c k = added_by c k \<union> (if da_DataplaneStream (ca_parts c ! ca_next c) = Some k
       then {(ca_seq c, int (ca_next c), da_Data (ca_parts c ! ca_next c))} else {})"
    by (auto simp: added_by_def less_Suc_eq)
  ultimately show ?thesis by blast
qed

lemma added_fresh:
  assumes "calls_ok M K calls" "c \<in> set calls"
  shows "(ca_seq c, int (ca_next c), d) \<notin> added calls k"
  using calls_ok_same [OF assms(1) _ assms(2)] by (auto simp: added_def added_by_def)

lemma adds_step:
  fixes dp :: "('addr, 'path, 's) QPartsDataplane"
  assumes "senders_inv sent M K Z F dp calls" "n < length calls" "ca_next (calls ! n) < length (ca_parts (calls ! n))"
  shows "\<exists>dp' F'. write_action wr (Adds n) (dp, calls)
       = Inr (dp', calls[n := (calls ! n)\<lparr>ca_next := Suc (ca_next (calls ! n))\<rparr>])
     \<and> senders_inv sent M K Z F' dp' (calls[n := (calls ! n)\<lparr>ca_next := Suc (ca_next (calls ! n))\<rparr>])
     \<and> frame_added M K F F' \<and> sent_grows sent dp dp'"
proof -
  note inv = senders_invD [OF assms(1)]
  define c where "c = calls ! n"
  define i where "i = ca_next c"
  define da where "da = ca_parts c ! i"
  let ?c = "c\<lparr>ca_next := Suc i\<rparr>"
  let ?calls = "calls[n := ?c]"
  have c: "call_ok M K c" "c \<in> set calls" "i < length (ca_parts c)" "n < length calls"
    using inv(3) assms(2,3) by (auto simp: calls_ok_def c_def i_def)
  then have da: "da \<in> set (ca_parts c)" by (simp add: da_def)
  then obtain k where k: "k \<in> K" "da_DataplaneStream da = Some k" using c(1) by (auto simp: call_ok_def placed_def)
  obtain st where st: "dpl_Streams dp k = Some st"
      "sent (ds_ssqc st) @ mframes M (map entry_of (entries (ds_Queue st))) = Z k @ mframes M (F k)"
      "\<forall>da \<in> set (entries (ds_Queue st)). queued_by calls k da"
    using inv(4) [OF k(1)] by (auto simp: stream_ok_def)
  define da' where "da' = number_part (length (ca_parts c)) (ca_compl c) (ca_sid c) (i, da)"
  let ?st = "extend_queue [da'] st" and ?x = "(ca_seq c, int i, da_Data da)"
  let ?dp' = "set_stream k ?st dp" and ?F = "F(k := F k @ [?x])"
  have act: "write_action wr (Adds n) (dp, calls) = Inr (?dp', ?calls)"
    using c k st(1) by (simp add: c_def [symmetric] i_def [symmetric] da_def [symmetric] enqueue_one da'_def Let_def
        del: enqueue_parts.simps)
  have i: "sint (of_nat i :: u64) = int i"
    using c(1,3) length_le_concat [of "ca_data c"] by (intro sint_of_nat_small) (simp add: call_ok_def sendable_def maxAlloc_def)
  then have entry: "entry_of da' = ?x" "da_SequenceId da' = ca_seq c"
    by (simp_all add: entry_of_def part_of_def da'_def number_part_def)
  have num: "numbered (ca_sid c) (ca_seq c) (ca_data c) k da'"
    using c(1) da k(2) by (auto simp: numbered_def da'_def number_part_def call_ok_def sendable_def image_iff)
  have streams: "dpl_Streams ?dp' = (dpl_Streams dp)(k \<mapsto> ?st)" "dpl_completionStore ?dp' = dpl_completionStore dp"
    by (simp_all add: set_stream_def)
  have mono: "queued_by ?calls j d" if "queued_by calls j d" for j d
    using that by (rule queued_by_mono) (use c(4) in \<open>simp add: nth_list_update c_def\<close>)
  have "queued_by ?calls k da'" unfolding queued_by_def using num c(4) by (intro exI [of _ n]) simp
  moreover have "sent (ds_ssqc ?st) @ mframes M (map entry_of (entries (ds_Queue ?st))) = Z k @ mframes M (F k @ [?x])"
    using st(2) entry(1) by (simp add: extend_queue_def mframes_append)
  ultimately have "stream_ok sent M ?calls (Z k) k (F k @ [?x]) (Some ?st)"
    unfolding stream_ok_def using st(3) mono by (auto simp: extend_queue_def)
  then have "stream_ok sent M ?calls (Z j) j (?F j) (dpl_Streams ?dp' j)" if "j \<in> K" for j
    using stream_ok_mono [OF inv(4) [OF that] mono] unfolding streams(1) by simp
  moreover have "calls_ok M K ?calls"
    using inv(3) c by (auto simp: calls_ok_def nth_list_update call_ok_def c_def [symmetric])
  moreover have "frames_ok K ?calls ?F"
  proof -
    have "sum_list (map ca_next ?calls) = Suc (sum_list (map ca_next calls))"
      using c(4) member_le_sum_list [of i "map ca_next calls"] c(2) by (simp add: map_update sum_list_update c_def [symmetric] i_def [symmetric])
    then show ?thesis
      using inv(5) added_next [OF inv(3) c(4) c_def] added_fresh [OF inv(3) c(2)] k(2)
      by (auto simp: frames_ok_def i_def da_def)
  qed
  moreover have "objects_ok K ?calls (dpl_Streams ?dp') (dpl_completionStore ?dp')"
  proof -
    have w: "waiting q (Some ?st) = waiting q (Some st) + (if q = ca_seq c then 1 else 0)" for q
      using entry(2) by (simp add: waiting_def extend_queue_def)
    have sum: "(\<Sum>j \<in> K. waiting q (dpl_Streams ?dp' j)) = (\<Sum>j \<in> K. waiting q (dpl_Streams dp j)) + (if q = ca_seq c then 1 else 0)" for q
      using sum_waiting [OF inv(1) k(1), of q "dpl_Streams dp" ?st] w [of q] st(1) streams(1) by simp
    then have "unsent K (dpl_Streams ?dp') ?c = unsent K (dpl_Streams dp) c"
      using c(3) by (simp add: unsent_def i_def)
    moreover have "unsent K (dpl_Streams ?dp') d = unsent K (dpl_Streams dp) d" if "ca_seq d \<noteq> ca_seq c" for d
      using sum that by (simp add: unsent_def)
    moreover have "ca_seq (calls ! m) \<noteq> ca_seq c" if "m < length calls" "m \<noteq> n" for m
      using inv(3) that c(4) unfolding calls_ok_def c_def by blast
    moreover have "object_ok d (unsent K (dpl_Streams dp) d) (dpl_completionStore dp)" if "d \<in> set calls" for d
      using inv(6) that unfolding objects_ok_def by blast
    moreover have "object_ok ?c r cs = object_ok c r cs" for r cs by (simp add: object_ok_def)
    ultimately show ?thesis
      unfolding objects_ok_def Ball_def in_set_update [OF c(4)] streams(2) using c(2) by (metis nth_mem)
  qed
  ultimately have "senders_inv sent M K Z ?F ?dp' ?calls"
    using inv(1,2) k(1) by (auto simp: senders_inv_def streams(1))
  moreover have "frame_added M K F ?F"
  proof -
    have "(int i, da_Data da) \<in> parts_of M (ca_seq c)"
      using c(1,3) by (auto simp: in_parts_of call_ok_def in_indexed da_def)
    moreover have "?x \<notin> set (F j)" if "j \<in> K" for j
      using inv(5) added_fresh [OF inv(3) c(2)] that by (simp add: frames_ok_def i_def)
    ultimately show ?thesis using k(1) unfolding frame_added_def by blast
  qed
  moreover have "sent_grows sent dp ?dp'"
    by (rule sent_grows_upd [OF st(1) streams(1), of sent "[]"]) (simp add: extend_queue_def)
  ultimately show ?thesis using act unfolding c_def i_def by blast
qed

section \<open>A write loop takes a turn\<close>

definition queue_len :: "('addr, 'path, 's) QPartsDataplane \<Rightarrow> u64 \<Rightarrow> nat" where
  "queue_len dp k = (case dpl_Streams dp k of None \<Rightarrow> 0 | Some st \<Rightarrow> length (entries (ds_Queue st)))"

text \<open>Only the object of the call whose part was sent changes.\<close>

lemma objects_ok_finish:
  assumes "objects_ok K calls X cs" "calls_ok M K calls" "c \<in> set calls"
    and "\<And>q. (\<Sum>k \<in> K. waiting q (X k)) = (\<Sum>k \<in> K. waiting q (X' k)) + (if q = ca_seq c then 1 else 0)"
  shows "\<exists>r sc. unsent K X c = Suc r \<and> AddSendingPart (cs_objs cs ! ca_obj c) = (r = 0, sc) \<and> sc_SequenceId sc = ca_seq c
     \<and> objects_ok K calls X' (if r = 0 then RemoveCompletion (ca_seq c) (update_obj (ca_obj c) (sc\<lparr>sc_CompleteChan := True\<rparr>) cs)
         else update_obj (ca_obj c) sc cs)"
proof -
  define r where "r = unsent K X' c"
  have un: "unsent K X c = Suc r" using assms(4) by (simp add: unsent_def r_def)
  have obj: "ca_obj c < length (cs_objs cs)" "sender_object (ca_seq c) (ca_data c) (Suc r) (cs_objs cs ! ca_obj c)"
    "Completions cs (ca_seq c) = Some (ca_obj c)"
    using assms(1,3) un unfolding objects_ok_def object_ok_def by auto
  have "call_ok M K c" using assms(2,3) by (auto simp: calls_ok_def in_set_conv_nth)
  then have "length (ca_data c) < 2 ^ 64"
    using length_le_concat [of "ca_data c"] by (simp add: call_ok_def sendable_def maxAlloc_def)
  from AddSendingPart_object [OF obj(2) this] obtain sc where
    sc: "AddSendingPart (cs_objs cs ! ca_obj c) = (r = 0, sc)" "sc_CompleteChan sc = False" "sc_SequenceId sc = ca_seq c"
      "sender_object (ca_seq c) (ca_data c) r (sc\<lparr>sc_CompleteChan := (r = 0)\<rparr>)" by blast
  have so: "sender_object (ca_seq c) (ca_data c) r (if r = 0 then sc\<lparr>sc_CompleteChan := True\<rparr> else sc)"
    using sc(2,4) by (cases sc) (auto split: if_splits)
  let ?cs' = "if r = 0 then RemoveCompletion (ca_seq c) (update_obj (ca_obj c) (sc\<lparr>sc_CompleteChan := True\<rparr>) cs)
         else update_obj (ca_obj c) sc cs"
  have cs': "cs_objs ?cs' = (cs_objs cs)[ca_obj c := (if r = 0 then sc\<lparr>sc_CompleteChan := True\<rparr> else sc)]"
    "Completions ?cs' = (if r = 0 then (Completions cs)(ca_seq c := None) else Completions cs)"
    by (simp_all add: RemoveCompletion_def update_obj_def)
  have "object_ok d (unsent K X' d) ?cs'" if d: "d \<in> set calls" for d
  proof (cases "d = c")
    case True
    with so obj show ?thesis unfolding object_ok_def cs' by (auto simp: r_def)
  next
    case False
    then have ne: "ca_seq d \<noteq> ca_seq c" using calls_ok_same [OF assms(2) d assms(3)] by blast
    then have same: "unsent K X' d = unsent K X d" using assms(4) [of "ca_seq d"] by (simp add: unsent_def)
    have o: "ca_obj d < length (cs_objs cs)" "sender_object (ca_seq d) (ca_data d) (unsent K X d) (cs_objs cs ! ca_obj d)"
      "Completions cs (ca_seq d) = (if unsent K X d = 0 then None else Some (ca_obj d))"
      using assms(1) d unfolding objects_ok_def object_ok_def by blast+
    have "ca_obj d \<noteq> ca_obj c" using o(2) obj(2) ne by (auto simp: sender_object_def)
    with o ne show ?thesis unfolding object_ok_def cs' same by simp
  qed
  then have "objects_ok K calls X' ?cs'" unfolding objects_ok_def by blast
  with un sc(1,3) show ?thesis by blast
qed

lemma sends_step:
  fixes dp :: "('addr, 'path, 's) QPartsDataplane"
  assumes "stream_accepts wr sent" "senders_inv sent M K Z F dp calls" "k \<in> K"
  shows "\<exists>dp'. write_action wr (Sends k) (dp, calls) = Inr (dp', calls) \<and> senders_inv sent M K Z F dp' calls
     \<and> (\<forall>j. queue_len dp' j = queue_len dp j - (if j = k then 1 else 0)) \<and> sent_grows sent dp dp'"
proof -
  note inv = senders_invD [OF assms(2)]
  obtain st where st: "dpl_Streams dp k = Some st"
      "sent (ds_ssqc st) @ mframes M (map entry_of (entries (ds_Queue st))) = Z k @ mframes M (F k)"
      "\<forall>da \<in> set (entries (ds_Queue st)). queued_by calls k da"
    using inv(4) [OF assms(3)] by (auto simp: stream_ok_def)
  show ?thesis
  proof (cases "entries (ds_Queue st)")
    case Nil
    then have "writeLoop wr k dp = Waits" using st by (simp add: writeLoop_def Queue_Get_def)
    with Nil st(1) assms(2) show ?thesis by (auto simp: queue_len_def sent_grows_same)
  next
    case (Cons da rest)
    let ?cs = "dpl_completionStore dp" and ?st = "st\<lparr>ds_Queue := (ds_Queue st)\<lparr>entries := rest\<rparr>\<rparr>"
    obtain n where n: "n < length calls" "numbered (ca_sid (calls ! n)) (ca_seq (calls ! n)) (ca_data (calls ! n)) k da"
      using st(3) Cons by (auto simp: queued_by_def)
    define c where "c = calls ! n"
    have c: "c \<in> set calls" "numbered (ca_sid c) (ca_seq c) (ca_data c) k da" using n by (simp_all add: c_def)
    then have "call_ok M K c" using inv(3) by (auto simp: calls_ok_def in_set_conv_nth)
    then have M: "M (ca_seq c) = Some (ca_sid c, ca_data c)" by (simp add: call_ok_def)
    have seq: "da_SequenceId da = ca_seq c" "da_DataplaneStream da = Some k" "da_Data da \<noteq> []"
      using c(2) by (simp_all add: numbered_def)
    let ?w = "dp_wire (part_header (ca_sid c) (ca_seq c) (ca_data c) (fst (part_of da)) (snd (part_of da)))"
    obtain s1 where s1: "WriteAll wr (ds_ssqc st) ?w = Some (52, None, s1)" "sent s1 = sent (ds_ssqc st) @ ?w"
      using WriteAll_accepts [OF assms(1), of "ds_ssqc st" ?w] by auto
    obtain s2 where s2: "WriteAll wr s1 (da_Data da) = Some (length (da_Data da), None, s2)"
      "sent s2 = sent s1 @ da_Data da"
      using WriteAll_accepts [OF assms(1), of s1 "da_Data da"] by auto
    let ?st2 = "?st\<lparr>ds_ssqc := s2\<rparr>" and ?dp1 = "set_ssqc k s2 (set_stream k ?st dp)"
    let ?X = "(dpl_Streams dp)(k \<mapsto> ?st2)"
    have w: "waiting q (Some st) = waiting q (Some ?st2) + (if q = ca_seq c then 1 else 0)" for q
      using Cons seq(1) by (simp add: waiting_def)
    have "(\<Sum>j \<in> K. waiting q (dpl_Streams dp j)) = (\<Sum>j \<in> K. waiting q (?X j)) + (if q = ca_seq c then 1 else 0)" for q
      using sum_waiting [OF inv(1) assms(3), of q "dpl_Streams dp" ?st2] w [of q] st(1) by simp
    from objects_ok_finish [OF inv(6,3) c(1) this] obtain r sc where
      sc: "unsent K (dpl_Streams dp) c = Suc r" "AddSendingPart (cs_objs ?cs ! ca_obj c) = (r = 0, sc)"
        "sc_SequenceId sc = ca_seq c" and objs: "objects_ok K calls ?X (if r = 0
          then RemoveCompletion (ca_seq c) (update_obj (ca_obj c) (sc\<lparr>sc_CompleteChan := True\<rparr>) ?cs)
          else update_obj (ca_obj c) sc ?cs)" by blast
    have obj: "sender_object (ca_seq c) (ca_data c) (Suc r) (cs_objs ?cs ! ca_obj c)"
      "Completions ?cs (ca_seq c) = Some (ca_obj c)"
      using inv(6) c(1) sc(1) unfolding objects_ok_def object_ok_def by auto
    let ?dp' = "finish_part (ca_obj c) ?dp1"
    have "writeLoop wr k dp = Goes ?dp'"
      using st(1) Cons seq obj(2) data_header_part [OF c(2) obj(1)] s1(1) s2(1)
      by (simp add: writeLoop_def Queue_Get_def Let_def GetOrCreateSendingSequenceCompletion_def set_stream_def)
    moreover have dp': "dpl_Streams ?dp' = ?X" "dpl_completionStore ?dp' = (if r = 0
          then RemoveCompletion (ca_seq c) (update_obj (ca_obj c) (sc\<lparr>sc_CompleteChan := True\<rparr>) ?cs)
          else update_obj (ca_obj c) sc ?cs)"
      using sc(2,3) by (auto simp: finish_part_def set_ssqc_def set_stream_def Let_def)
    moreover have "stream_ok sent M calls (Z j) j (F j) (?X j)" if "j \<in> K" for j
    proof (cases "j = k")
      case True
      have "sent s2 @ mframes M (map entry_of rest) = Z k @ mframes M (F k)"
        using st(2) s1(2) s2(2) Cons seq(1) M by (cases "part_of da") (auto simp: part_of_def entry_of_def)
      with True st(3) Cons show ?thesis by (simp add: stream_ok_def)
    qed (use inv(4) [OF that] in simp)
    moreover have "queue_len ?dp' j = queue_len dp j - (if j = k then 1 else 0)" for j
      unfolding queue_len_def dp'(1) using st(1) Cons by simp
    moreover have "dom ?X = K" using inv(2) assms(3) by auto
    moreover have "sent_grows sent dp ?dp'" by (rule sent_grows_upd [OF st(1) dp'(1)]) (simp add: s1(2) s2(2))
    ultimately show ?thesis using inv objs unfolding senders_inv_def by (intro exI [of _ ?dp']) simp
  qed
qed

section \<open>Any interleaving\<close>

definition entered :: "'addr sender_action list \<Rightarrow> u64 list" where
  "entered acts = concat (map (\<lambda>x. case x of Enters sid rnd das \<Rightarrow> [rnd] | _ \<Rightarrow> []) acts)"

text \<open>The calls of the actions carry the traffic: their random sequence numbers differ, no part is empty,
  and every part is assigned to a stream of the data plane.\<close>

definition acts_ok :: "traffic \<Rightarrow> u64 set \<Rightarrow> 'addr sender_action list \<Rightarrow> bool" where
  "acts_ok M K acts \<longleftrightarrow> distinct (entered acts)
     \<and> (\<forall>sid rnd das. Enters sid rnd das \<in> set acts \<longrightarrow>
          M rnd = Some (sid, map da_Data das) \<and> sendable (map da_Data das) \<and> placed das K)"

lemma entered_simps [simp]:
  "entered [] = []" "entered (Enters sid rnd das # acts) = rnd # entered acts"
  "entered (Adds n # acts) = entered acts" "entered (Sends k # acts) = entered acts"
  by (simp_all add: entered_def)

lemma acts_ok_Cons: "acts_ok M K (x # acts) \<Longrightarrow> acts_ok M K acts"
  by (cases x) (auto simp: acts_ok_def)

lemma write_action_inv:
  assumes "stream_accepts wr sent" "senders_inv sent M K Z F dp calls" "acts_ok M K (x # acts)"
    and "ca_seq ` set calls \<inter> set (entered (x # acts)) = {}"
  shows "\<exists>dp' calls' F'. write_action wr x (dp, calls) = Inr (dp', calls') \<and> senders_inv sent M K Z F' dp' calls'
     \<and> map ca_seq calls' @ entered acts = map ca_seq calls @ entered (x # acts)
     \<and> frame_added M K F F' \<and> sent_grows sent dp dp'"
proof (cases x)
  case (Enters sid rnd das)
  then have "M rnd = Some (sid, map da_Data das)" "sendable (map da_Data das)" "placed das K" "rnd \<notin> ca_seq ` set calls"
    using assms(3,4) by (auto simp: acts_ok_def)
  from enters_step [OF assms(2) this(1,4,2,3), of wr] obtain dp' c where
    "write_action wr (Enters sid rnd das) (dp, calls) = Inr (dp', calls @ [c])" "senders_inv sent M K Z F dp' (calls @ [c])"
    "ca_seq c = rnd" "sent_grows sent dp dp'" by blast
  with Enters show ?thesis
    by (intro exI [of _ dp'] exI [of _ "calls @ [c]"] exI [of _ F]) (simp add: frame_added_def del: write_action.simps)
next
  case (Adds n)
  show ?thesis
  proof (cases "n < length calls \<and> ca_next (calls ! n) < length (ca_parts (calls ! n))")
    case True
    let ?calls = "calls[n := (calls ! n)\<lparr>ca_next := Suc (ca_next (calls ! n))\<rparr>]"
    have "map ca_seq ?calls = map ca_seq calls"
      by (rule nth_equalityI) (use True in \<open>auto simp: nth_list_update\<close>)
    moreover obtain dp' F' where "write_action wr (Adds n) (dp, calls) = Inr (dp', ?calls)" "senders_inv sent M K Z F' dp' ?calls"
      "frame_added M K F F'" "sent_grows sent dp dp'"
      using adds_step [OF assms(2), of n wr] True by blast
    ultimately show ?thesis using Adds by (intro exI [of _ dp'] exI [of _ ?calls] exI [of _ F']) simp
  next
    case False
    then have "write_action wr x (dp, calls) = Inr (dp, calls)"
      unfolding Adds write_action.simps by (rule if_not_P)
    then show ?thesis using Adds assms(2)
      by (intro exI [of _ dp] exI [of _ calls] exI [of _ F]) (simp add: frame_added_def sent_grows_same)
  qed
next
  case (Sends k)
  show ?thesis
  proof (cases "k \<in> K")
    case True
    obtain dp' where "write_action wr (Sends k) (dp, calls) = Inr (dp', calls)" "senders_inv sent M K Z F dp' calls"
      "sent_grows sent dp dp'" using sends_step [OF assms(1,2) True] by blast
    with Sends show ?thesis by (intro exI [of _ dp'] exI [of _ calls] exI [of _ F]) (simp add: frame_added_def)
  next
    case False
    then have "dpl_Streams dp k = None" using senders_invD(2) [OF assms(2)] by blast
    then show ?thesis using Sends assms(2)
      by (intro exI [of _ dp] exI [of _ calls] exI [of _ F]) (simp add: writeLoop_def frame_added_def sent_grows_same)
  qed
qed

lemma run_write_actions_inv:
  assumes "stream_accepts wr sent" "senders_inv sent M K Z F dp calls" "acts_ok M K acts"
    and "ca_seq ` set calls \<inter> set (entered acts) = {}"
  shows "\<exists>dp' calls' F'. run_write_actions wr acts (dp, calls) = Inr (dp', calls') \<and> senders_inv sent M K Z F' dp' calls'
     \<and> map ca_seq calls' = map ca_seq calls @ entered acts"
  using assms(2-)
proof (induction acts arbitrary: dp calls F)
  case (Cons x acts)
  obtain dp1 calls1 F1 where s: "write_action wr x (dp, calls) = Inr (dp1, calls1)" "senders_inv sent M K Z F1 dp1 calls1"
    "map ca_seq calls1 @ entered acts = map ca_seq calls @ entered (x # acts)"
    using write_action_inv [OF assms(1) Cons.prems] by blast
  have "distinct (entered (x # acts))" using Cons.prems(2) by (simp add: acts_ok_def)
  moreover have "distinct (map ca_seq calls)"
    using senders_invD(3) [OF Cons.prems(1)] by (auto simp: calls_ok_def distinct_conv_nth)
  ultimately have "distinct (map ca_seq calls1 @ entered acts)" using Cons.prems(3) unfolding s(3) by auto
  then have "ca_seq ` set calls1 \<inter> set (entered acts) = {}" by auto
  from Cons.IH [OF s(2) acts_ok_Cons [OF Cons.prems(2)] this] s(1,3) show ?case by auto
qed auto

lemma senders_start:
  assumes "finite (dom (dpl_Streams dp))" "idle dp"
  shows "senders_inv sent M (dom (dpl_Streams dp)) (\<lambda>k. sent (ds_ssqc (the (dpl_Streams dp k)))) (\<lambda>_. []) dp []"
proof -
  have "stream_ok sent M [] (sent (ds_ssqc (the (dpl_Streams dp k)))) k [] (dpl_Streams dp k)" if "k \<in> dom (dpl_Streams dp)" for k
    using assms(2) that by (auto simp: stream_ok_def idle_iff)
  then show ?thesis using assms(1) by (simp add: senders_inv_def calls_ok_def frames_ok_def added_def objects_ok_def)
qed

section \<open>What the calls have sent\<close>

lemma returns_iff:
  assumes "senders_inv sent M K Z F dp calls" "c \<in> set calls"
  shows "WriteForStream_returns (ca_obj c) dp \<longleftrightarrow> unsent K (dpl_Streams dp) c = 0"
  using senders_invD(6) [OF assms(1)] assms(2)
  by (simp add: objects_ok_def object_ok_def sender_object_def WriteForStream_returns_def)

lemma unsent_iff:
  assumes "senders_inv sent M K Z F dp calls" "c \<in> set calls"
  shows "unsent K (dpl_Streams dp) c = 0 \<longleftrightarrow> ca_next c = length (ca_parts c)
     \<and> (\<forall>k st. dpl_Streams dp k = Some st \<longrightarrow> ca_seq c \<notin> da_SequenceId ` set (entries (ds_Queue st)))"
proof -
  note inv = senders_invD [OF assms(1)]
  have "call_ok M K c" using inv(3) assms(2) by (auto simp: calls_ok_def in_set_conv_nth)
  then have "ca_next c \<le> length (ca_parts c)" by (simp add: call_ok_def)
  moreover have "waiting (ca_seq c) (dpl_Streams dp k) = 0
      \<longleftrightarrow> (\<forall>st. dpl_Streams dp k = Some st \<longrightarrow> ca_seq c \<notin> da_SequenceId ` set (entries (ds_Queue st)))" for k
    by (auto simp: waiting_def filter_empty_conv image_iff split: option.splits)
  moreover have "waiting (ca_seq c) (dpl_Streams dp k) = 0" if "k \<notin> K" for k
    using that inv(2) by (auto simp: waiting_def split: option.splits)
  moreover have "unsent K (dpl_Streams dp) c = 0
      \<longleftrightarrow> length (ca_parts c) \<le> ca_next c \<and> (\<forall>k \<in> K. waiting (ca_seq c) (dpl_Streams dp k) = 0)"
    using inv(1) by (simp add: unsent_def)
  ultimately show ?thesis by (metis dual_order.antisym order_refl)
qed

lemma all_sent:
  assumes "senders_inv sent M K Z F dp calls" "\<forall>c \<in> set calls. unsent K (dpl_Streams dp) c = 0" "dom M = ca_seq ` set calls"
  shows "mplan M K F (\<lambda>_. {})" "outstanding K F q = parts_of M q"
    "k \<in> K \<Longrightarrow> \<exists>st. dpl_Streams dp k = Some st \<and> sent (ds_ssqc st) = Z k @ mframes M (F k)"
    "k \<in> K \<Longrightarrow> length (F k) \<le> sum_list (map (length \<circ> ca_parts) calls)"
proof -
  note inv = senders_invD [OF assms(1)]
  have ok: "call_ok M K c" if "c \<in> set calls" for c using inv(3) that by (auto simp: calls_ok_def in_set_conv_nth)
  have fin: "ca_next c = length (ca_parts c)" if "c \<in> set calls" for c
    using unsent_iff [OF assms(1) that] bspec [OF assms(2) that] by (rule iffD1 [THEN conjunct1])
  have F: "set (F k) = added calls k" "distinct (F k)" "length (F k) \<le> sum_list (map ca_next calls)" if "k \<in> K" for k
    using inv(5) that by (auto simp: frames_ok_def)
  have part: "(q, x) \<in> added calls k \<longleftrightarrow> (\<exists>c \<in> set calls. q = ca_seq c \<and> (\<exists>j < length (ca_parts c).
      x = (int j, da_Data (ca_parts c ! j)) \<and> da_DataplaneStream (ca_parts c ! j) = Some k))" for q x k
    unfolding added_def added_by_def using fin by auto
  have all: "outstanding K F q = parts_of M q" for q
  proof (cases "M q")
    case None
    then have "q \<notin> ca_seq ` set calls" using assms(3) by blast
    then have "outstanding K F q = {}" using F(1) part by (auto simp: outstanding_def)
    with None show ?thesis by (simp add: parts_of_def)
  next
    case (Some p)
    then obtain c where c: "c \<in> set calls" "q = ca_seq c" using assms(3) by blast
    have M: "M q = Some (ca_sid c, ca_data c)" "placed (ca_parts c) K" using ok [OF c(1)] c(2) by (simp_all add: call_ok_def)
    have "d = c" if "d \<in> set calls" "q = ca_seq d" for d using calls_ok_same [OF inv(3) that(1) c(1)] that(2) c(2) by simp
    then have "outstanding K F q = {(int j, da_Data (ca_parts c ! j)) | j. j < length (ca_parts c)
        \<and> (\<exists>k \<in> K. da_DataplaneStream (ca_parts c ! j) = Some k)}"
      unfolding outstanding_def using F(1) part c by auto
    also have "\<dots> = set (indexed (ca_data c))" using M(2) by (auto simp: in_indexed placed_def)
    finally show ?thesis using M(1) by (simp add: parts_of_def)
  qed
  then show "outstanding K F q = parts_of M q" .
  have "set (F k) \<inter> set (F j) = {}" if "k \<in> K" "j \<in> K" "k \<noteq> j" for k j
  proof -
    have "k = j" if "(q, x) \<in> added calls k" "(q, x) \<in> added calls j" for q x
      using that calls_ok_same [OF inv(3)] unfolding part by (metis Pair_inject of_nat_eq_iff option.inject)
    then show ?thesis using F(1) that by fastforce
  qed
  moreover have "x \<in> parts_of M q" if "k \<in> K" "(q, x) \<in> set (F k)" for k q x
    using all [of q] that by (auto simp: outstanding_def)
  ultimately show "mplan M K F (\<lambda>_. {})" using F(2) by (simp add: mplan_def)
  show "\<exists>st. dpl_Streams dp k = Some st \<and> sent (ds_ssqc st) = Z k @ mframes M (F k)" if k: "k \<in> K"
  proof -
    obtain st where st: "dpl_Streams dp k = Some st"
      "sent (ds_ssqc st) @ mframes M (map entry_of (entries (ds_Queue st))) = Z k @ mframes M (F k)"
      "\<forall>da \<in> set (entries (ds_Queue st)). queued_by calls k da"
      using inv(4) [OF k] by (auto simp: stream_ok_def)
    have "da \<notin> set (entries (ds_Queue st))" for da
    proof
      assume da: "da \<in> set (entries (ds_Queue st))"
      then obtain c where "c \<in> set calls" "da_SequenceId da = ca_seq c"
        using bspec [OF st(3) da] unfolding queued_by_def numbered_def by (metis nth_mem)
      with da st(1) unsent_iff [OF assms(1)] assms(2) show False by (metis image_eqI)
    qed
    then have "entries (ds_Queue st) = []" using list.set_sel(1) by blast
    with st show ?thesis by simp
  qed
  show "length (F k) \<le> sum_list (map (length \<circ> ca_parts) calls)" if "k \<in> K"
  proof -
    have "map ca_next calls = map (length \<circ> ca_parts) calls" using fin by simp
    with F(3) [OF that] show ?thesis by simp
  qed
qed

section \<open>What the peer sees of a channel\<close>

text \<open>What a channel has delivered to one stream.\<close>

definition payload :: "traffic \<Rightarrow> u64 \<Rightarrow> byte list" where
  "payload M q = (case M q of None \<Rightarrow> [] | Some (sid, parts) \<Rightarrow> concat parts)"

definition is_for :: "traffic \<Rightarrow> u64 \<Rightarrow> u64 \<Rightarrow> bool" where
  "is_for M sid q \<longleftrightarrow> map_option fst (M q) = Some sid"

lemma fold_deliver:
  "S sid = Some s \<Longrightarrow> fold (deliver M) order S sid
     = Some (delivered s (concat (map (payload M) (filter (is_for M sid) order))))"
proof (induction order arbitrary: S s)
  case Nil
  then show ?case by (simp add: delivered_def pb_Append_def)
next
  case (Cons q order)
  show ?case
  proof (cases "is_for M sid q")
    case True
    then obtain parts where "M q = Some (sid, parts)" by (auto simp: is_for_def)
    then have "deliver M q S sid = Some (delivered s (payload M q))" using Cons.prems by (simp add: deliver_def payload_def)
    with Cons.IH [of "deliver M q S", OF this] True show ?thesis by (simp add: delivered_def pb_Append_def)
  next
    case False
    then have "deliver M q S sid = Some s"
      using Cons.prems by (auto simp: deliver_def is_for_def split: option.splits)
    with Cons.IH [of "deliver M q S", OF this] False show ?thesis by simp
  qed
qed

text \<open>Once no call adds parts any more, the turns of the write loops empty the queues.\<close>

lemma run_sends:
  assumes "stream_accepts wr sent" "senders_inv sent M K Z F dp calls"
  shows "\<exists>dp'. run_writers wr ks dp = Inr dp' \<and> senders_inv sent M K Z F dp' calls
     \<and> (\<forall>k. queue_len dp' k = queue_len dp k - count_list ks k)"
  using assms(2)
proof (induction ks arbitrary: dp)
  case (Cons k ks)
  have "\<exists>dp1. run_writers wr (k # ks) dp = run_writers wr ks dp1 \<and> senders_inv sent M K Z F dp1 calls
      \<and> (\<forall>j. queue_len dp1 j = queue_len dp j - (if j = k then 1 else 0))"
  proof (cases "k \<in> K")
    case True
    obtain dp1 where s: "write_action wr (Sends k) (dp, calls) = Inr (dp1, calls)" "senders_inv sent M K Z F dp1 calls"
      "\<forall>j. queue_len dp1 j = queue_len dp j - (if j = k then 1 else 0)"
      using sends_step [OF assms(1) Cons.prems True] by blast
    have "run_writers wr (k # ks) dp = run_writers wr ks dp1" using s(1) by (auto split: loop_result.splits)
    with s(2,3) show ?thesis by blast
  next
    case False
    then have none: "dpl_Streams dp k = None" using senders_invD(2) [OF Cons.prems] by blast
    then have "run_writers wr (k # ks) dp = run_writers wr ks dp" by (simp add: writeLoop_def)
    moreover have "queue_len dp k = 0" using none by (simp add: queue_len_def)
    ultimately show ?thesis using Cons.prems by (intro exI [of _ dp]) simp
  qed
  then obtain dp1 where s: "run_writers wr (k # ks) dp = run_writers wr ks dp1" "senders_inv sent M K Z F dp1 calls"
    "\<forall>j. queue_len dp1 j = queue_len dp j - (if j = k then 1 else 0)" by blast
  from Cons.IH [OF s(2)] obtain dp' where "run_writers wr ks dp1 = Inr dp'" "senders_inv sent M K Z F dp' calls"
    "\<forall>j. queue_len dp' j = queue_len dp1 j - count_list ks j" by blast
  with s(1,3) show ?case by (intro exI [of _ dp']) simp
qed auto

lemma all_return:
  assumes "senders_inv sent M K Z F dp calls" "\<forall>c \<in> set calls. ca_next c = length (ca_parts c)" "\<forall>k. queue_len dp k = 0"
  shows "\<forall>c \<in> set calls. WriteForStream_returns (ca_obj c) dp"
proof
  fix c assume c: "c \<in> set calls"
  have "entries (ds_Queue st) = []" if "dpl_Streams dp k = Some st" for k st
    using spec [OF assms(3), of k] that by (simp add: queue_len_def)
  then show "WriteForStream_returns (ca_obj c) dp"
    using returns_iff [OF assms(1) c] unsent_iff [OF assms(1) c] assms(2) c by simp
qed

text \<open>Two calls, each of two parts on two streams.\<close>

definition two_queues :: "(nat, nat, byte list) QPartsDataplane" where
  "two_queues = AddListenStream 2 [] (AddListenStream 1 [] (NewQPartsDataplane Map.empty))"

definition part_on :: "u64 \<Rightarrow> byte list \<Rightarrow> nat DataAssignment" where
  "part_on k d = zero_DataAssignment\<lparr>da_DataplaneStream := Some k, da_Data := d\<rparr>"

definition two_calls :: "nat sender_action list" where
  "two_calls = [Enters 9 77 [part_on 1 [1], part_on 2 [2]], Enters 9 78 [part_on 2 [3], part_on 1 [4]],
     Adds 0, Adds 1, Adds 1, Adds 0]"

lemma two_calls_run:
  "\<exists>dp calls. run_write_actions memory_write two_calls (two_queues, []) = Inr (dp, calls)
     \<and> (\<forall>c \<in> set calls. ca_next c = length (ca_parts c)) \<and> (\<forall>k. queue_len dp k \<le> count_list [1, 2, 2, 1] k)
     \<and> sum_list (map (length \<circ> ca_parts) calls) = 4"
  by (simp add: two_calls_def two_queues_def part_on_def cs_alloc_def Let_def AddListenStream_def NewQPartsDataplane_def
      set_stream_def Queue_Add_def NewQueue_def queue_len_def)

lemma two_queues:
  "dom (dpl_Streams two_queues) = {1, 2}" "idle two_queues" "acts_ok mixed_traffic {1, 2} two_calls" "entered two_calls = [77, 78]"
proof -
  show "dom (dpl_Streams two_queues) = {1, 2}" "idle two_queues"
    by (auto simp: two_queues_def AddListenStream_def NewQPartsDataplane_def idle_iff NewQueue_def split: if_splits)
  show "acts_ok mixed_traffic {1, 2} two_calls" "entered two_calls = [77, 78]"
    by (auto simp: acts_ok_def two_calls_def part_on_def mixed_traffic_def sendable_def maxAlloc_def placed_def)
qed

text \<open>C5: \<^verbatim>\<open>WriteForStream\<close> returns exactly when everything is sent, for any number of concurrent calls:
  in any interleaving of their steps and of the turns of the write loops, stopped at any point, nothing
  panics, and a call has returned if and only if it has added all its parts and none of them is left in a
  queue.  Once all parts have been added, every call returns as soon as each write loop has had a turn for
  each part in its queue.\<close>

theorem concurrent_calls_return:
  fixes dp :: "('addr, 'path, 's) QPartsDataplane"
  assumes "stream_accepts wr sent" "finite (dom (dpl_Streams dp))" "idle dp" "acts_ok M (dom (dpl_Streams dp)) acts"
  shows "\<exists>dp1 calls. run_write_actions wr acts (dp, []) = Inr (dp1, calls) \<and> map ca_seq calls = entered acts
     \<and> (\<forall>c \<in> set calls. WriteForStream_returns (ca_obj c) dp1 \<longleftrightarrow> ca_next c = length (ca_parts c)
          \<and> (\<forall>k st. dpl_Streams dp1 k = Some st \<longrightarrow> ca_seq c \<notin> da_SequenceId ` set (entries (ds_Queue st))))
     \<and> (\<forall>ks. (\<forall>c \<in> set calls. ca_next c = length (ca_parts c)) \<and> (\<forall>k. queue_len dp1 k \<le> count_list ks k) \<longrightarrow>
          (\<exists>dp2. run_writers wr ks dp1 = Inr dp2 \<and> (\<forall>c \<in> set calls. WriteForStream_returns (ca_obj c) dp2)))"
proof -
  let ?K = "dom (dpl_Streams dp)" and ?Z = "\<lambda>k. sent (ds_ssqc (the (dpl_Streams dp k)))"
  obtain dp1 calls F where r: "run_write_actions wr acts (dp, []) = Inr (dp1, calls)"
    "senders_inv sent M ?K ?Z F dp1 calls" "map ca_seq calls = entered acts"
    using run_write_actions_inv [OF assms(1) senders_start [OF assms(2,3)] assms(4)] by auto
  have "\<exists>dp2. run_writers wr ks dp1 = Inr dp2 \<and> (\<forall>c \<in> set calls. WriteForStream_returns (ca_obj c) dp2)"
    if all: "\<forall>c \<in> set calls. ca_next c = length (ca_parts c)" "\<forall>k. queue_len dp1 k \<le> count_list ks k" for ks
  proof -
    obtain dp2 where "run_writers wr ks dp1 = Inr dp2" "senders_inv sent M ?K ?Z F dp2 calls" "\<forall>k. queue_len dp2 k = 0"
      using run_sends [OF assms(1) r(2), of ks] all(2) by auto
    with all_return all(1) show ?thesis by blast
  qed
  with r(1,3) returns_iff [OF r(2)] unsent_iff [OF r(2)] show ?thesis by (intro exI [of _ dp1] exI [of _ calls]) simp
qed

theorem concurrent_calls_return_witness:
  "\<exists>dp1 dp2 c d. run_write_actions memory_write two_calls (two_queues, []) = Inr (dp1, [c, d])
     \<and> run_writers memory_write [1, 2, 2, 1] dp1 = Inr dp2
     \<and> WriteForStream_returns (ca_obj c) dp2 \<and> WriteForStream_returns (ca_obj d) dp2"
proof -
  have "finite (dom (dpl_Streams two_queues))" "acts_ok mixed_traffic (dom (dpl_Streams two_queues)) two_calls"
    by (simp_all add: two_queues)
  from concurrent_calls_return [OF memory_write this(1) two_queues(2) this(2)] obtain dp1 calls where
    r: "run_write_actions memory_write two_calls (two_queues, []) = Inr (dp1, calls)" "map ca_seq calls = [77, 78]"
    "\<forall>ks. (\<forall>c \<in> set calls. ca_next c = length (ca_parts c)) \<and> (\<forall>k. queue_len dp1 k \<le> count_list ks k) \<longrightarrow>
       (\<exists>dp2. run_writers memory_write ks dp1 = Inr dp2 \<and> (\<forall>c \<in> set calls. WriteForStream_returns (ca_obj c) dp2))"
    unfolding two_queues(4) by (elim exE conjE) (rule that)
  from r(1) two_calls_run have all: "\<forall>c \<in> set calls. ca_next c = length (ca_parts c)"
    "\<forall>k. queue_len dp1 k \<le> count_list [1, 2, 2, 1] k" by auto
  obtain dp2 where dp2: "run_writers memory_write [1, 2, 2, 1] dp1 = Inr dp2"
    "\<forall>c \<in> set calls. WriteForStream_returns (ca_obj c) dp2" using r(3) all by blast
  obtain c d where "calls = [c, d]" using r(2) by auto
  with r(1) dp2 show ?thesis by (metis list.set_intros(1) list.set_intros(2))
qed

definition fresh_peer :: "('addr, 'path, 's) QPartsDataplane \<Rightarrow> ('addr, 'path, 's) QPartsDataplane" where
  "fresh_peer dp = dp\<lparr>dpl_QPartsStreams := [9 \<mapsto> NewPartsStream 9], dpl_completionStore := NewCompletionStore\<rparr>"

text \<open>Calls that have added all their parts, sent.\<close>

lemma calls_then_sends:
  fixes dp :: "('addr, 'path, 's) QPartsDataplane"
  assumes "stream_accepts wr sent" "dom (dpl_Streams dp) = K" "finite K" "idle dp" "acts_ok M K acts"
    and "run_write_actions wr acts (dp, []) = Inr (dp1, calls)" "\<forall>c \<in> set calls. ca_next c = length (ca_parts c)"
    and "\<forall>k. queue_len dp1 k \<le> count_list ks k"
  obtains dp2 F where "run_write_actions wr (acts @ map Sends ks) (dp, []) = Inr (dp2, calls)"
    "senders_inv sent M K (\<lambda>k. sent (ds_ssqc (the (dpl_Streams dp k)))) F dp2 calls"
    "\<forall>c \<in> set calls. WriteForStream_returns (ca_obj c) dp2"
proof -
  let ?Z = "\<lambda>k. sent (ds_ssqc (the (dpl_Streams dp k)))"
  have fin: "finite (dom (dpl_Streams dp))" using assms(2,3) by simp
  have start: "ca_seq ` set [] \<inter> set (entered acts) = {}" by simp
  obtain F where inv: "senders_inv sent M K ?Z F dp1 calls"
    using run_write_actions_inv [OF assms(1) senders_start [OF fin assms(4)] _ start, of M] assms(5,6)
    unfolding assms(2) by auto
  obtain dp2 where dp2: "run_writers wr ks dp1 = Inr dp2" "senders_inv sent M K ?Z F dp2 calls" "\<forall>k. queue_len dp2 k = 0"
    using run_sends [OF assms(1) inv, of ks] assms(8) by auto
  have "run_write_actions wr (acts @ map Sends ks) (dp, []) = Inr (dp2, calls)"
    unfolding run_write_actions_append assms(6) go_bind_Inr run_write_actions_Sends dp2(1) ..
  from that [OF this dp2(2) all_return [OF dp2(2) assms(7) dp2(3)]] show thesis .
qed

lemma two_calls_sent:
  obtains dp calls F where
    "run_write_actions memory_write (two_calls @ map Sends [1, 2, 2, 1]) (two_queues, []) = Inr (dp, calls)"
    "senders_inv id mixed_traffic {1, 2} (\<lambda>k. id (ds_ssqc (the (dpl_Streams two_queues k)))) F dp calls"
    "\<forall>c \<in> set calls. WriteForStream_returns (ca_obj c) dp" "sum_list (map (length \<circ> ca_parts) calls) = 4"
proof -
  obtain dp1 calls where r: "run_write_actions memory_write two_calls (two_queues, []) = Inr (dp1, calls)"
    "\<forall>c \<in> set calls. ca_next c = length (ca_parts c)" "\<forall>k. queue_len dp1 k \<le> count_list [1, 2, 2, 1] k"
    "sum_list (map (length \<circ> ca_parts) calls) = 4"
    using two_calls_run by blast
  have "finite {1, 2 :: u64}" by simp
  then show thesis
    by (rule calls_then_sends [OF memory_write two_queues(1) _ two_queues(2,3) r(1-3)]) (rule that [OF _ _ _ r(4)])
qed

end
