(* ===== verification/Connection.thy ===== *)
theory Connection
  imports Writers
begin

text \<open>
  The data path of a connection in one direction, everything at once: concurrent calls of
  \<^verbatim>\<open>WriteForStream\<close> and the write loops on one host, the QUIC streams that transport their bytes in pieces of
  any size, and the read loops on the other host, interleaved in any way.  It refines a channel that
  delivers whole writes.
\<close>

section \<open>Both hosts and the streams between them\<close>

text \<open>\<open>co_carried k\<close>: how many bytes of the data plane stream \<open>k\<close> have reached the peer, whose stream is
  \<open>peer k\<close>.\<close>

record ('addr, 'path, 's, 't) connection =
  co_dp :: "('addr, 'path, 's) QPartsDataplane"
  co_calls :: "'addr call list"
  co_carried :: "u64 \<Rightarrow> nat"
  co_peer :: "('addr, 'path, 't) QPartsDataplane"
  co_held :: held

datatype 'addr event = Writes "'addr sender_action" | Carries u64 nat | Receives u64

text \<open>\<open>feed\<close> appends bytes to what a stream hands out.\<close>

definition stream_feeds :: "('t \<Rightarrow> byte list \<Rightarrow> 't) \<Rightarrow> ('t \<Rightarrow> byte list) \<Rightarrow> bool" where
  "stream_feeds feed pend \<longleftrightarrow> (\<forall>s bs. pend (feed s bs) = pend s @ bs)"

definition transport ::
  "('s \<Rightarrow> byte list) \<Rightarrow> ('t \<Rightarrow> byte list \<Rightarrow> 't) \<Rightarrow> (u64 \<Rightarrow> u64) \<Rightarrow> u64 \<Rightarrow> nat
     \<Rightarrow> ('addr, 'path, 's, 't) connection \<Rightarrow> ('addr, 'path, 's, 't) connection" where
  "transport sent feed peer k n c =
     (case (dpl_Streams (co_dp c) k, dpl_Streams (co_peer c) (peer k)) of
        (Some st, Some rst) \<Rightarrow>
          let bs = take n (drop (co_carried c k) (sent (ds_ssqc st))) in
          c\<lparr>co_carried := (co_carried c)(k := co_carried c k + length bs),
            co_peer := set_ssqc (peer k) (feed (ds_ssqc rst) bs) (co_peer c)\<rparr>
      | _ \<Rightarrow> c)"

fun event_step ::
  "'s qwrite \<Rightarrow> 't qread \<Rightarrow> ('s \<Rightarrow> byte list) \<Rightarrow> ('t \<Rightarrow> byte list \<Rightarrow> 't) \<Rightarrow> (u64 \<Rightarrow> u64) \<Rightarrow> 'addr event
     \<Rightarrow> ('addr, 'path, 's, 't) connection \<Rightarrow> ('addr, 'path, 's, 't) connection go" where
  "event_step wr rd sent feed peer (Writes x) c =
     go_bind (write_action wr x (co_dp c, co_calls c)) (\<lambda>(dp, calls). Inr (c\<lparr>co_dp := dp, co_calls := calls\<rparr>))"
| "event_step wr rd sent feed peer (Carries k n) c = Inr (transport sent feed peer k n c)"
| "event_step wr rd sent feed peer (Receives k) c =
     (case readLoop rd (peer k) (co_peer c, co_held c) of
        Waits \<Rightarrow> Inr c
      | Panics e \<Rightarrow> Inl e
      | Goes (dp, held) \<Rightarrow> Inr (c\<lparr>co_peer := dp, co_held := held\<rparr>))"

fun run_events ::
  "'s qwrite \<Rightarrow> 't qread \<Rightarrow> ('s \<Rightarrow> byte list) \<Rightarrow> ('t \<Rightarrow> byte list \<Rightarrow> 't) \<Rightarrow> (u64 \<Rightarrow> u64) \<Rightarrow> 'addr event list
     \<Rightarrow> ('addr, 'path, 's, 't) connection \<Rightarrow> ('addr, 'path, 's, 't) connection go" where
  "run_events wr rd sent feed peer [] c = Inr c"
| "run_events wr rd sent feed peer (e # es) c =
     go_bind (event_step wr rd sent feed peer e c) (run_events wr rd sent feed peer es)"

definition writes_of :: "'addr event list \<Rightarrow> 'addr sender_action list" where
  "writes_of es = concat (map (\<lambda>e. case e of Writes x \<Rightarrow> [x] | _ \<Rightarrow> []) es)"

lemma writes_of_simps [simp]:
  "writes_of [] = []" "writes_of (Writes x # es) = x # writes_of es"
  "writes_of (Carries k n # es) = writes_of es" "writes_of (Receives k # es) = writes_of es"
  by (simp_all add: writes_of_def)

definition events_ok :: "traffic \<Rightarrow> u64 set \<Rightarrow> 'addr event list \<Rightarrow> bool" where
  "events_ok M K es \<longleftrightarrow> acts_ok M K (writes_of es) \<and> (\<forall>k. Receives k \<in> set es \<longrightarrow> k \<in> K)"

lemma events_ok_Cons:
  "events_ok M K (e # es) \<Longrightarrow> events_ok M K es"
  by (cases e) (auto simp: events_ok_def intro: acts_ok_Cons)

section \<open>The invariant\<close>

text \<open>What is still to come on stream \<open>k\<close>: everything that has been or will be sent, without the bytes
  that have arrived.\<close>

definition rest_of :: "traffic \<Rightarrow> (u64 \<Rightarrow> byte list) \<Rightarrow> (u64 \<Rightarrow> (u64 \<times> int \<times> byte list) list) \<Rightarrow> (u64 \<Rightarrow> nat) \<Rightarrow> u64 \<Rightarrow> byte list" where
  "rest_of M Z F n k = drop (n k) (Z k @ mframes M (F k))"

definition carried_ok :: "('s \<Rightarrow> byte list) \<Rightarrow> ('addr, 'path, 's) QPartsDataplane \<Rightarrow> (u64 \<Rightarrow> nat) \<Rightarrow> bool" where
  "carried_ok sent dp n \<longleftrightarrow> (\<forall>k st. dpl_Streams dp k = Some st \<longrightarrow> n k \<le> length (sent (ds_ssqc st)))"

definition connection_inv ::
  "('s \<Rightarrow> byte list) \<Rightarrow> ('t \<Rightarrow> byte list) \<Rightarrow> (u64 \<Rightarrow> u64) \<Rightarrow> traffic \<Rightarrow> u64 set \<Rightarrow> (u64 \<Rightarrow> byte list)
     \<Rightarrow> (u64 \<Rightarrow> (u64 \<times> int \<times> byte list) list) \<Rightarrow> (u64 \<Rightarrow> (u64 \<times> int \<times> byte list) list) \<Rightarrow> (u64 \<Rightarrow> (int \<times> byte list) set)
     \<Rightarrow> ('addr, 'path, 's, 't) connection \<Rightarrow> bool" where
  "connection_inv sent pend peer M K Z F G R c \<longleftrightarrow> inj_on peer K
     \<and> senders_inv sent M K Z F (co_dp c) (co_calls c)
     \<and> multi_inv pend M (peer ` K) G R (\<lambda>j. rest_of M Z F (co_carried c) (inv_into K peer j)) (co_peer c) (co_held c)
     \<and> (\<forall>q. R q \<union> outstanding (peer ` K) G q = outstanding K F q)
     \<and> (\<forall>k \<in> K. length (G (peer k)) \<le> length (F k)) \<and> carried_ok sent (co_dp c) (co_carried c)"

lemma connection_invD:
  assumes "connection_inv sent pend peer M K Z F G R c"
  shows "inj_on peer K" "senders_inv sent M K Z F (co_dp c) (co_calls c)"
    "multi_inv pend M (peer ` K) G R (\<lambda>j. rest_of M Z F (co_carried c) (inv_into K peer j)) (co_peer c) (co_held c)"
    "\<And>q. R q \<union> outstanding (peer ` K) G q = outstanding K F q"
    "\<And>k. k \<in> K \<Longrightarrow> length (G (peer k)) \<le> length (F k)" "carried_ok sent (co_dp c) (co_carried c)"
  using assms by (simp_all add: connection_inv_def)

text \<open>The readers only depend on what is still to come.\<close>

lemma multi_inv_cong:
  assumes "multi_inv pend M K G R X dp held" "\<And>k. k \<in> K \<Longrightarrow> X' k = X k"
  shows "multi_inv pend M K G R X' dp held"
  using assms by (simp add: multi_inv_def)

lemma mreader_extend:
  assumes "mreader pend M C g x ost h"
  shows "mreader pend M C (g @ f) (x @ mframes M f) ost h"
proof (cases h)
  case None
  with assms show ?thesis by (auto simp: mreader_def mframes_append simp flip: append_assoc)
next
  case (Some pa)
  obtain pkt a where "pa = (pkt, a)" by (cases pa)
  with Some assms obtain st q i d rest sid parts where "ost = Some st" "g = (q, i, d) # rest" "M q = Some (sid, parts)" "C q = Some a"
    "pkt = wire_header sid q parts i d" "pend (ds_ssqc st) @ x = d @ mframes M rest" by (auto simp: mreader_def)
  moreover from this(6) have "pend (ds_ssqc st) @ x @ mframes M f = d @ mframes M (rest @ f)"
    unfolding mframes_append by (metis append.assoc)
  ultimately show ?thesis using Some \<open>pa = (pkt, a)\<close> by (simp add: mreader_def)
qed

lemma mplanD:
  assumes "mplan M K G R"
  shows "\<And>j p y. j \<in> K \<Longrightarrow> (p, y) \<in> set (G j) \<Longrightarrow> y \<in> parts_of M p - R p" "\<And>p. R p \<subseteq> parts_of M p"
    "\<And>i j. i \<in> K \<Longrightarrow> j \<in> K \<Longrightarrow> i \<noteq> j \<Longrightarrow> set (G i) \<inter> set (G j) = {}"
  using assms unfolding mplan_def by blast+

text \<open>A frame is added at the end of one stream.\<close>

lemma multi_inv_extend:
  assumes "multi_inv pend M K G R X dp held" "k \<in> K" "x \<in> parts_of M q" "x \<notin> R q \<union> outstanding K G q"
  shows "multi_inv pend M K (G(k := G k @ [(q, x)])) R (X(k := X k @ mframes M [(q, x)])) dp held"
proof -
  note inv = multi_invD [OF assms(1)]
  let ?G = "G(k := G k @ [(q, x)])"
  have new: "(q, x) \<notin> set (G j)" if "j \<in> K" for j using assms(4) that by (auto simp: outstanding_def)
  have "set (?G i) \<inter> set (?G j) = {}" if "i \<in> K" "j \<in> K" "i \<noteq> j" for i j
  proof -
    have "set (G i) \<inter> set (G j) = {}" by (rule mplanD(3) [OF inv(1) that])
    then show ?thesis using new [OF that(1)] new [OF that(2)] that(3) by auto
  qed
  moreover have "distinct (?G j)" if "j \<in> K" for j
    using inv(1) new [OF that] that by (cases "j = k") (simp_all add: mplan_def)
  moreover have "y \<in> parts_of M p - R p" if "j \<in> K" "(p, y) \<in> set (?G j)" for j p y
  proof (cases "(p, y) = (q, x)")
    case True
    then show ?thesis using assms(3,4) by simp
  next
    case False
    then have "(p, y) \<in> set (G j)" using that(2) by (auto split: if_splits)
    then show ?thesis by (rule mplanD(1) [OF inv(1) that(1)])
  qed
  moreover have "R p \<subseteq> parts_of M p" for p using mplanD(2) [OF inv(1)] .
  ultimately have "mplan M K ?G R" unfolding mplan_def by blast
  then show ?thesis using inv mreader_extend [OF inv(4) [OF assms(2)]] by (simp add: multi_inv_def)
qed

text \<open>Bytes move from what is to come to what is pending.\<close>

lemma multi_inv_feed:
  assumes "multi_inv pend M K G R X dp held" "j \<in> K" "dpl_Streams dp j = Some rst" "stream_feeds feed pend" "X j = bs @ x"
  shows "multi_inv pend M K G R (X(j := x)) (set_ssqc j (feed (ds_ssqc rst) bs) dp) held"
proof -
  note inv = multi_invD [OF assms(1)]
  let ?dp = "set_ssqc j (feed (ds_ssqc rst) bs) dp"
  have streams: "dpl_Streams ?dp = (dpl_Streams dp)(j \<mapsto> rst\<lparr>ds_ssqc := feed (ds_ssqc rst) bs\<rparr>)"
    using assms(3) by (rule set_ssqc_Streams)
  have p: "pend (feed (ds_ssqc rst) bs) @ x = pend (ds_ssqc rst) @ X j"
    using assms(4,5) by (simp add: stream_feeds_def)
  have "mreader pend M (Completions (dpl_completionStore dp)) (G i) ((X(j := x)) i) (dpl_Streams ?dp i) (held i)" if "i \<in> K" for i
    using inv(4) [OF that] assms(3) p unfolding streams by (cases "i = j"; cases "held i") (auto simp: mreader_def)
  then show ?thesis using inv dataplane_wf_set_ssqc [OF inv(3)] by (simp add: multi_inv_def)
qed

lemma outstanding_add:
  assumes "k \<in> K"
  shows "outstanding K (G(k := G k @ [(q, x)])) p = outstanding K G p \<union> (if p = q then {x} else {})"
proof -
  have "(p, y) \<in> set ((G(k := G k @ [(q, x)])) k) \<longleftrightarrow> (p, y) \<in> set (G k) \<or> p = q \<and> y = x" for p y by auto
  from outstanding_upd [where G = "G(k := G k @ [(q, x)])" and p = p, OF assms this] show ?thesis by simp
qed

section \<open>The steps\<close>

text \<open>The bytes that the stream has been given are the beginning of all its bytes.\<close>

lemma sent_prefix:
  assumes "senders_inv sent M K Z F dp calls" "k \<in> K"
  obtains st bs where "dpl_Streams dp k = Some st" "Z k @ mframes M (F k) = sent (ds_ssqc st) @ bs"
  using senders_invD(4) [OF assms] unfolding stream_ok_def by metis

lemma rest_of_grows:
  assumes "senders_inv sent M K Z F dp calls" "carried_ok sent dp n" "k \<in> K"
  shows "rest_of M Z (F(k := F k @ f)) n k = rest_of M Z F n k @ mframes M f"
proof -
  obtain st bs where st: "dpl_Streams dp k = Some st" "Z k @ mframes M (F k) = sent (ds_ssqc st) @ bs"
    using sent_prefix [OF assms(1,3)] .
  have "n k \<le> length (sent (ds_ssqc st))" using assms(2) st(1) by (simp add: carried_ok_def)
  also have "\<dots> \<le> length (Z k @ mframes M (F k))" unfolding st(2) by simp
  finally have "drop (n k) ((Z k @ mframes M (F k)) @ mframes M f) = drop (n k) (Z k @ mframes M (F k)) @ mframes M f"
    by (simp only: drop_append) simp
  then show ?thesis by (simp add: rest_of_def mframes_append)
qed

lemma writes_step:
  fixes c :: "('addr, 'path, 's, 't) connection"
  assumes "stream_accepts wr sent" "connection_inv sent pend peer M K Z F G R c" "acts_ok M K (x # acts)"
    and "ca_seq ` set (co_calls c) \<inter> set (entered (x # acts)) = {}"
  shows "\<exists>c' F' G'. event_step wr rd sent feed peer (Writes x) c = Inr c' \<and> connection_inv sent pend peer M K Z F' G' R c'
     \<and> co_peer c' = co_peer c \<and> map ca_seq (co_calls c') @ entered acts = map ca_seq (co_calls c) @ entered (x # acts)"
proof -
  note inv = connection_invD [OF assms(2)]
  let ?X = "\<lambda>F j. rest_of M Z F (co_carried c) (inv_into K peer j)"
  obtain dp' calls' F' where w: "write_action wr x (co_dp c, co_calls c) = Inr (dp', calls')" "senders_inv sent M K Z F' dp' calls'"
    "map ca_seq calls' @ entered acts = map ca_seq (co_calls c) @ entered (x # acts)"
    "frame_added M K F F'" "sent_grows sent (co_dp c) dp'"
    using write_action_inv [OF assms(1) inv(2) assms(3,4)] by blast
  let ?c = "c\<lparr>co_dp := dp', co_calls := calls'\<rparr>"
  have car: "carried_ok sent dp' (co_carried c)"
  proof -
    have "co_carried c k \<le> length (sent (ds_ssqc st'))" if st': "dpl_Streams dp' k = Some st'" for k st'
    proof -
      have "k \<in> dom (dpl_Streams (co_dp c))" using senders_invD(2) [OF w(2)] senders_invD(2) [OF inv(2)] st' by blast
      then obtain st where st: "dpl_Streams (co_dp c) k = Some st" by blast
      then obtain bs where "sent (ds_ssqc st') = sent (ds_ssqc st) @ bs" using w(5) st' unfolding sent_grows_def by blast
      moreover have "co_carried c k \<le> length (sent (ds_ssqc st))" using inv(6) st unfolding carried_ok_def by blast
      ultimately show ?thesis by simp
    qed
    then show ?thesis unfolding carried_ok_def by blast
  qed
  have "\<exists>G'. multi_inv pend M (peer ` K) G' R (?X F') (co_peer c) (co_held c)
      \<and> (\<forall>q. R q \<union> outstanding (peer ` K) G' q = outstanding K F' q) \<and> (\<forall>k \<in> K. length (G' (peer k)) \<le> length (F' k))"
    using w(4) unfolding frame_added_def
  proof (elim disjE bexE exE conjE)
    assume "F' = F"
    then show ?thesis using inv(3-5) by blast
  next
    fix k q x
    assume k: "k \<in> K" and F': "F' = F(k := F k @ [(q, x)])" and x: "x \<in> parts_of M q" and new: "\<forall>j \<in> K. (q, x) \<notin> set (F j)"
    let ?G = "G(peer k := G (peer k) @ [(q, x)])"
    have pk: "peer k \<in> peer ` K" using k by blast
    have "x \<notin> R q \<union> outstanding (peer ` K) G q" unfolding inv(4) using new by (simp add: outstanding_def)
    from multi_inv_extend [OF inv(3) pk x this]
    have "multi_inv pend M (peer ` K) ?G R (?X F') (co_peer c) (co_held c)"
    proof (rule multi_inv_cong)
      fix j assume "j \<in> peer ` K"
      then obtain i where i: "i \<in> K" "j = peer i" by blast
      then have inv_i: "inv_into K peer j = i" "inv_into K peer (peer k) = k" using inv(1) k by (simp_all add: inv_into_f_f)
      show "?X F' j = ((?X F)(peer k := ?X F (peer k) @ mframes M [(q, x)])) j"
      proof (cases "i = k")
        case True
        then show ?thesis using i(2) inv_i rest_of_grows [OF inv(2,6) k] by (simp add: F')
      next
        case False
        then have "peer i \<noteq> peer k" using inv(1) i(1) k by (meson inj_onD)
        then show ?thesis using i(2) inv_i False by (simp add: F' rest_of_def)
      qed
    qed
    moreover have "R p \<union> outstanding (peer ` K) ?G p = outstanding K F' p" for p
      unfolding F' outstanding_add [OF k] outstanding_add [OF pk] using inv(4) [of p] by blast
    moreover have "length (?G (peer i)) \<le> length (F' i)" if "i \<in> K" for i
      using inv(1,5) that k by (auto simp: F' dest: inj_onD)
    ultimately show ?thesis by blast
  qed
  then obtain G' where "connection_inv sent pend peer M K Z F' G' R ?c"
    using inv(1) w(2) car by (auto simp: connection_inv_def)
  then show ?thesis using w(1,3) by (intro exI [of _ ?c] exI [of _ F'] exI [of _ G']) simp
qed

lemma transport_step:
  assumes "connection_inv sent pend peer M K Z F G R c" "stream_feeds feed pend"
  shows "connection_inv sent pend peer M K Z F G R (transport sent feed peer k n c)
     \<and> co_calls (transport sent feed peer k n c) = co_calls c
     \<and> dpl_QPartsStreams (co_peer (transport sent feed peer k n c)) = dpl_QPartsStreams (co_peer c)"
proof (cases "k \<in> K")
  case False
  then have "dpl_Streams (co_dp c) k = None" using senders_invD(2) [OF connection_invD(2) [OF assms(1)]] by blast
  then show ?thesis using assms(1) by (simp add: transport_def)
next
  case True
  note inv = connection_invD [OF assms(1)]
  let ?X = "\<lambda>m j. rest_of M Z F m (inv_into K peer j)" and ?m = "co_carried c k"
  obtain st bs where st: "dpl_Streams (co_dp c) k = Some st" "Z k @ mframes M (F k) = sent (ds_ssqc st) @ bs"
    using sent_prefix [OF inv(2) True] .
  obtain rst where rst: "dpl_Streams (co_peer c) (peer k) = Some rst"
    using multi_invD(4) [OF inv(3), of "peer k"] True by (auto simp: mreader_def)
  have m: "?m \<le> length (sent (ds_ssqc st))" using inv(6) st(1) by (simp add: carried_ok_def)
  define b where "b = take n (drop ?m (sent (ds_ssqc st)))"
  let ?n = "(co_carried c)(k := ?m + length b)" and ?dp = "set_ssqc (peer k) (feed (ds_ssqc rst) b) (co_peer c)"
  have c': "transport sent feed peer k n c = c\<lparr>co_carried := ?n, co_peer := ?dp\<rparr>"
    using st(1) rst by (simp add: transport_def b_def Let_def)
  have b: "?m + length b \<le> length (sent (ds_ssqc st))" "b @ drop (?m + length b) (sent (ds_ssqc st)) = drop ?m (sent (ds_ssqc st))"
    using m by (auto simp: b_def min_def) (metis add.commute append_take_drop_id drop_drop)+
  have split: "rest_of M Z F (co_carried c) k = b @ rest_of M Z F ?n k"
    unfolding rest_of_def st(2) using m b by simp
  have k: "inv_into K peer (peer k) = k" using inv(1) True by (simp add: inv_into_f_f)
  have "multi_inv pend M (peer ` K) G R ((?X (co_carried c))(peer k := rest_of M Z F ?n k)) ?dp (co_held c)"
    by (rule multi_inv_feed [OF inv(3) _ rst assms(2)]) (use True split k in simp_all)
  then have "multi_inv pend M (peer ` K) G R (?X ?n) ?dp (co_held c)"
  proof (rule multi_inv_cong)
    fix j assume "j \<in> peer ` K"
    then obtain i where i: "i \<in> K" "j = peer i" by blast
    then have "inv_into K peer j = i" using inv(1) by (simp add: inv_into_f_f)
    then show "?X ?n j = ((?X (co_carried c))(peer k := rest_of M Z F ?n k)) j"
      using i inv(1) True by (cases "i = k") (auto simp: rest_of_def dest: inj_onD)
  qed
  moreover have "carried_ok sent (co_dp c) ?n" using inv(6) st(1) b(1) by (simp add: carried_ok_def)
  ultimately show ?thesis using inv(1,2,4,5) unfolding c' by (simp add: connection_inv_def)
qed

lemma receives_step:
  assumes "stream_delivers rd pend" "stream_blocks rd pend" "connection_inv sent pend peer M K Z F G R c" "k \<in> K"
  shows "\<exists>c' G' R'. event_step wr rd sent feed peer (Receives k) c = Inr c' \<and> connection_inv sent pend peer M K Z F G' R' c'
     \<and> co_calls c' = co_calls c \<and> (channel_step M)\<^sup>=\<^sup>= (to_channel M R (co_peer c)) (to_channel M R' (co_peer c'))"
proof -
  note inv = connection_invD [OF assms(3)]
  have pk: "peer k \<in> peer ` K" using assms(4) by blast
  obtain dp' held' G' R' where s: "readLoop rd (peer k) (co_peer c, co_held c) = Goes (dp', held')
        \<or> readLoop rd (peer k) (co_peer c, co_held c) = Waits \<and> dp' = co_peer c \<and> held' = co_held c"
    "multi_inv pend M (peer ` K) G' R' (\<lambda>j. rest_of M Z F (co_carried c) (inv_into K peer j)) dp' held'"
    "(channel_step M)\<^sup>=\<^sup>= (to_channel M R (co_peer c)) (to_channel M R' dp')"
    "\<forall>q. R q \<union> outstanding (peer ` K) G q = R' q \<union> outstanding (peer ` K) G' q" "\<forall>j. length (G' j) \<le> length (G j)"
    using mreader_turn [OF assms(1,2) inv(3) pk] by (elim exE conjE) (rule that)
  let ?c = "c\<lparr>co_peer := dp', co_held := held'\<rparr>"
  have "length (G' (peer i)) \<le> length (F i)" if "i \<in> K" for i
    using spec [OF s(5), of "peer i"] inv(5) [OF that] by simp
  then have "connection_inv sent pend peer M K Z F G' R' ?c"
    using inv(1,2,4,6) s(2,4) by (simp add: connection_inv_def)
  moreover have "event_step wr rd sent feed peer (Receives k) c = Inr ?c" using s(1) by auto
  ultimately show ?thesis using s(3) by (intro exI [of _ ?c] exI [of _ G'] exI [of _ R']) simp
qed

text \<open>Any event keeps the invariant and is a step of the channel or no step.\<close>

lemma event_step_inv:
  fixes c :: "('addr, 'path, 's, 't) connection"
  assumes "stream_accepts wr sent" "stream_delivers rd pend" "stream_blocks rd pend" "stream_feeds feed pend"
    and "connection_inv sent pend peer M K Z F G R c" "events_ok M K (e # es)"
    and "ca_seq ` set (co_calls c) \<inter> set (entered (writes_of (e # es))) = {}"
  shows "\<exists>c' F' G' R'. event_step wr rd sent feed peer e c = Inr c' \<and> connection_inv sent pend peer M K Z F' G' R' c'
     \<and> map ca_seq (co_calls c') @ entered (writes_of es) = map ca_seq (co_calls c) @ entered (writes_of (e # es))
     \<and> (channel_step M)\<^sup>=\<^sup>= (to_channel M R (co_peer c)) (to_channel M R' (co_peer c'))"
proof (cases e)
  case (Writes x)
  have "acts_ok M K (x # writes_of es)" "ca_seq ` set (co_calls c) \<inter> set (entered (x # writes_of es)) = {}"
    using assms(6,7) Writes by (simp_all add: events_ok_def)
  from writes_step [OF assms(1,5) this, of rd feed] obtain c' F' G' where
    "event_step wr rd sent feed peer (Writes x) c = Inr c'" "connection_inv sent pend peer M K Z F' G' R c'"
    "co_peer c' = co_peer c" "map ca_seq (co_calls c') @ entered (writes_of es) = map ca_seq (co_calls c) @ entered (x # writes_of es)"
    by blast
  with Writes show ?thesis by (intro exI [of _ c'] exI [of _ F'] exI [of _ G'] exI [of _ R]) simp
next
  case (Carries k n)
  note s = transport_step [OF assms(5,4), of k n]
  then have "to_channel M R (co_peer (transport sent feed peer k n c)) = to_channel M R (co_peer c)" by (simp add: to_channel_def)
  with s Carries show ?thesis
    by (intro exI [of _ "transport sent feed peer k n c"] exI [of _ F] exI [of _ G] exI [of _ R]) simp
next
  case (Receives k)
  then have "k \<in> K" using assms(6) by (simp add: events_ok_def)
  from receives_step [OF assms(2,3,5) this, of wr feed] obtain c' G' R' where
    "event_step wr rd sent feed peer (Receives k) c = Inr c'" "connection_inv sent pend peer M K Z F G' R' c'"
    "co_calls c' = co_calls c" "(channel_step M)\<^sup>=\<^sup>= (to_channel M R (co_peer c)) (to_channel M R' (co_peer c'))" by blast
  with Receives show ?thesis by (intro exI [of _ c'] exI [of _ F] exI [of _ G'] exI [of _ R']) simp
qed

lemma run_events_inv:
  fixes c :: "('addr, 'path, 's, 't) connection"
  assumes "stream_accepts wr sent" "stream_delivers rd pend" "stream_blocks rd pend" "stream_feeds feed pend"
    and "connection_inv sent pend peer M K Z F G R c" "events_ok M K es"
    and "ca_seq ` set (co_calls c) \<inter> set (entered (writes_of es)) = {}"
  shows "\<exists>c' F' G' R'. run_events wr rd sent feed peer es c = Inr c' \<and> connection_inv sent pend peer M K Z F' G' R' c'
     \<and> map ca_seq (co_calls c') = map ca_seq (co_calls c) @ entered (writes_of es)
     \<and> (channel_step M)\<^sup>*\<^sup>* (to_channel M R (co_peer c)) (to_channel M R' (co_peer c'))"
  using assms(5-)
proof (induction es arbitrary: c F G R)
  case (Cons e es)
  obtain c1 F1 G1 R1 where s: "event_step wr rd sent feed peer e c = Inr c1" "connection_inv sent pend peer M K Z F1 G1 R1 c1"
    "map ca_seq (co_calls c1) @ entered (writes_of es) = map ca_seq (co_calls c) @ entered (writes_of (e # es))"
    "(channel_step M)\<^sup>=\<^sup>= (to_channel M R (co_peer c)) (to_channel M R1 (co_peer c1))"
    using event_step_inv [OF assms(1-4) Cons.prems] by blast
  have "distinct (entered (writes_of (e # es)))" using Cons.prems(2) by (simp add: events_ok_def acts_ok_def)
  moreover have "distinct (map ca_seq (co_calls c))"
    using senders_invD(3) [OF connection_invD(2) [OF Cons.prems(1)]] by (auto simp: calls_ok_def distinct_conv_nth)
  ultimately have "distinct (map ca_seq (co_calls c1) @ entered (writes_of es))" using Cons.prems(3) unfolding s(3) by auto
  then have "ca_seq ` set (co_calls c1) \<inter> set (entered (writes_of es)) = {}" by auto
  from Cons.IH [OF s(2) events_ok_Cons [OF Cons.prems(2)] this] obtain c' F' G' R' where
    r: "run_events wr rd sent feed peer es c1 = Inr c'" "connection_inv sent pend peer M K Z F' G' R' c'"
    "map ca_seq (co_calls c') = map ca_seq (co_calls c1) @ entered (writes_of es)"
    "(channel_step M)\<^sup>*\<^sup>* (to_channel M R1 (co_peer c1)) (to_channel M R' (co_peer c'))" by blast
  have "(channel_step M)\<^sup>*\<^sup>* (to_channel M R (co_peer c)) (to_channel M R' (co_peer c'))"
    using s(4) r(4) by (auto intro: converse_rtranclp_into_rtranclp)
  with r(1-3) s(1,3) show ?case
    by (intro exI [of _ c'] exI [of _ F'] exI [of _ G'] exI [of _ R']) simp
qed auto

section \<open>From a fresh connection\<close>

text \<open>Nothing is queued, in flight or pending; the peer has the streams that the writes are for.\<close>

definition fresh_connection ::
  "('s \<Rightarrow> byte list) \<Rightarrow> ('t \<Rightarrow> byte list) \<Rightarrow> (u64 \<Rightarrow> u64) \<Rightarrow> traffic \<Rightarrow> ('addr, 'path, 's, 't) connection \<Rightarrow> bool" where
  "fresh_connection sent pend peer M c \<longleftrightarrow> finite (dom (dpl_Streams (co_dp c))) \<and> idle (co_dp c) \<and> co_calls c = []
     \<and> inj_on peer (dom (dpl_Streams (co_dp c)))
     \<and> (\<forall>k st. dpl_Streams (co_dp c) k = Some st \<longrightarrow> co_carried c k = length (sent (ds_ssqc st))
          \<and> (\<exists>rst. dpl_Streams (co_peer c) (peer k) = Some rst \<and> pend (ds_ssqc rst) = []))
     \<and> co_held c = Map.empty \<and> dataplane_wf (co_peer c, Map.empty)
     \<and> (\<forall>q \<in> dom M. Completions (dpl_completionStore (co_peer c)) q = None) \<and> traffic_ok M (dpl_QPartsStreams (co_peer c))"

lemma fresh_inv:
  fixes c :: "('addr, 'path, 's, 't) connection"
  assumes "fresh_connection sent pend peer M c"
  shows "connection_inv sent pend peer M (dom (dpl_Streams (co_dp c))) (\<lambda>k. sent (ds_ssqc (the (dpl_Streams (co_dp c) k))))
    (\<lambda>_. []) (\<lambda>_. []) (\<lambda>_. {}) c"
proof -
  let ?K = "dom (dpl_Streams (co_dp c))" and ?Z = "\<lambda>k. sent (ds_ssqc (the (dpl_Streams (co_dp c) k)))"
  have f: "finite ?K" "idle (co_dp c)" "co_calls c = []" "inj_on peer ?K" "co_held c = Map.empty" "dataplane_wf (co_peer c, Map.empty)"
    "\<forall>q \<in> dom M. Completions (dpl_completionStore (co_peer c)) q = None" "traffic_ok M (dpl_QPartsStreams (co_peer c))"
    and st: "\<And>k st. dpl_Streams (co_dp c) k = Some st \<Longrightarrow> co_carried c k = length (sent (ds_ssqc st))
          \<and> (\<exists>rst. dpl_Streams (co_peer c) (peer k) = Some rst \<and> pend (ds_ssqc rst) = [])"
    using assms by (simp_all add: fresh_connection_def)
  have "mreader pend M C [] (rest_of M ?Z (\<lambda>_. []) (co_carried c) (inv_into ?K peer j)) (dpl_Streams (co_peer c) j) None"
    if "j \<in> peer ` ?K" for j C
  proof -
    from that obtain k where k: "k \<in> ?K" "j = peer k" by blast
    then obtain st' where st': "dpl_Streams (co_dp c) k = Some st'" by blast
    have "inv_into ?K peer j = k" using f(4) k by (simp add: inv_into_f_f)
    then show ?thesis using st [OF st'] st' k(2) by (auto simp: mreader_def rest_of_def)
  qed
  then have "multi_inv pend M (peer ` ?K) (\<lambda>_. []) (\<lambda>_. {}) (\<lambda>j. rest_of M ?Z (\<lambda>_. []) (co_carried c) (inv_into ?K peer j))
      (co_peer c) (co_held c)"
    using f(5-8) by (auto simp: multi_inv_def mplan_def seqs_ok_def seq_state_def domI)
  then show ?thesis using f(4) senders_start [OF f(1,2)] f(3) st
    by (auto simp: connection_inv_def outstanding_def carried_ok_def)
qed

lemma fresh_run:
  fixes c :: "('addr, 'path, 's, 't) connection"
  assumes "stream_accepts wr sent" "stream_delivers rd pend" "stream_blocks rd pend" "stream_feeds feed pend"
    and "fresh_connection sent pend peer M c" "events_ok M (dom (dpl_Streams (co_dp c))) es"
  obtains c' F G R where "run_events wr rd sent feed peer es c = Inr c'"
    "connection_inv sent pend peer M (dom (dpl_Streams (co_dp c))) (\<lambda>k. sent (ds_ssqc (the (dpl_Streams (co_dp c) k)))) F G R c'"
    "map ca_seq (co_calls c') = entered (writes_of es)"
    "(channel_step M)\<^sup>*\<^sup>* \<lparr>ch_pending = dom M, ch_streams = dpl_QPartsStreams (co_peer c)\<rparr> (to_channel M R (co_peer c'))"
proof -
  have f: "co_calls c = []" "traffic_ok M (dpl_QPartsStreams (co_peer c))" using assms(5) by (simp_all add: fresh_connection_def)
  have "ca_seq ` set (co_calls c) \<inter> set (entered (writes_of es)) = {}" using f(1) by simp
  from run_events_inv [OF assms(1-4) fresh_inv [OF assms(5)] assms(6) this] show thesis
    unfolding fresh_channel [OF f(2)] f(1) list.map append_Nil using that by blast
qed

lemma run_events_Receives:
  "run_events wr rd sent feed peer (map Receives rs) c
     = go_bind (run_readers rd (map peer rs) (co_peer c, co_held c)) (\<lambda>(dp, held). Inr (c\<lparr>co_peer := dp, co_held := held\<rparr>))"
proof (induction rs arbitrary: c)
  case (Cons k rs)
  then show ?case by (auto simp: go_bind_def split: loop_result.splits sum.splits prod.splits)
qed simp

lemma count_list_image: "count_list xs x \<le> count_list (map f xs) (f x)"
  by (induction xs) auto

text \<open>When everything has been sent and carried, enough turns of the read loops deliver everything.\<close>

lemma connection_drains:
  fixes c :: "('addr, 'path, 's, 't) connection"
  assumes "stream_delivers rd pend" "stream_blocks rd pend" "connection_inv sent pend peer M K Z F G R c"
    and "\<forall>d \<in> set (co_calls c). WriteForStream_returns (ca_obj d) (co_dp c)" "dom M = ca_seq ` set (co_calls c)"
    and "\<forall>k st. dpl_Streams (co_dp c) k = Some st \<longrightarrow> co_carried c k = length (sent (ds_ssqc st))"
    and "turns n K rs" "2 * sum_list (map (length \<circ> ca_parts) (co_calls c)) \<le> n"
  shows "\<exists>c'. run_events wr rd sent feed peer (map Receives rs) c = Inr c'
     \<and> (channel_step M)\<^sup>*\<^sup>* (to_channel M R (co_peer c)) \<lparr>ch_pending = {}, ch_streams = dpl_QPartsStreams (co_peer c')\<rparr>"
proof -
  note inv = connection_invD [OF assms(3)]
  have "\<forall>d \<in> set (co_calls c). unsent K (dpl_Streams (co_dp c)) d = 0" using assms(4) returns_iff [OF inv(2)] by blast
  note sent = all_sent [OF inv(2) this assms(5)]
  have rest: "rest_of M Z F (co_carried c) k = []" if "k \<in> K" for k
    using sent(3) [OF that] assms(6) by (auto simp: rest_of_def)
  then have m: "multi_inv pend M (peer ` K) G R (\<lambda>_. []) (co_peer c) (co_held c)"
    by (intro multi_inv_cong [OF inv(3)]) (simp add: inv_into_into)
  have "set (map peer rs) \<subseteq> peer ` K" using assms(7) by (auto simp: turns_def)
  from run_mreaders [OF assms(1,2) this m] obtain dp' held' G' R' where
    r: "run_readers rd (map peer rs) (co_peer c, co_held c) = Inr (dp', held')"
    "multi_inv pend M (peer ` K) G' R' (\<lambda>_. []) dp' held'"
    "(channel_step M)\<^sup>*\<^sup>* (to_channel M R (co_peer c)) (to_channel M R' dp')"
    "\<forall>q. R q \<union> outstanding (peer ` K) G q = R' q \<union> outstanding (peer ` K) G' q"
    "\<forall>k. work G' held' k = work G (co_held c) k - count_list (map peer rs) k"
    by auto
  have "G' (peer k) = []" if "k \<in> K" for k
  proof -
    have "work G (co_held c) (peer k) \<le> 2 * length (G (peer k))" by (simp add: work_def)
    also have "\<dots> \<le> 2 * sum_list (map (length \<circ> ca_parts) (co_calls c))" using inv(5) [OF that] sent(4) [OF that] by simp
    also have "\<dots> \<le> count_list rs k" using assms(7,8) that by (force simp: turns_def)
    also have "\<dots> \<le> count_list (map peer rs) (peer k)" by (rule count_list_image)
    finally have "work G' held' (peer k) = 0" using r(5) by simp
    then show ?thesis using work_done [OF r(2)] that by blast
  qed
  then have "outstanding (peer ` K) G' q = {}" for q by (auto simp: outstanding_def)
  then have "R' = parts_of M" using r(4) inv(4) sent(2) by (auto simp: fun_eq_iff)
  then have "to_channel M R' dp' = \<lparr>ch_pending = {}, ch_streams = dpl_QPartsStreams dp'\<rparr>" by (simp add: to_channel_def)
  with r(1,3) show ?thesis
    by (intro exI [of _ "c\<lparr>co_peer := dp', co_held := held'\<rparr>"]) (simp add: run_events_Receives)
qed

text \<open>C1: The data path of a connection refines a channel that delivers whole writes.  Whatever the
  interleaving of any number of concurrent calls of \<^verbatim>\<open>WriteForStream\<close>, the write loops, the transport of
  their bytes in pieces of any size and the read loops of the peer, stopped at any point: nothing panics,
  and the streams of the peer's application are those of a channel that has delivered some of the writes
  called so far in some order, each once, as its complete data, and has shown nothing of the others.\<close>

theorem connection_refines_channel:
  fixes c :: "('addr, 'path, 's, 't) connection"
  assumes "stream_accepts wr sent" "stream_delivers rd pend" "stream_blocks rd pend" "stream_feeds feed pend"
    and "fresh_connection sent pend peer M c" "events_ok M (dom (dpl_Streams (co_dp c))) es"
    and "dom M = set (entered (writes_of es))"
  shows "\<exists>c' ch. run_events wr rd sent feed peer es c = Inr c' \<and> map ca_seq (co_calls c') = entered (writes_of es)
     \<and> (channel_step M)\<^sup>*\<^sup>* \<lparr>ch_pending = dom M, ch_streams = dpl_QPartsStreams (co_peer c)\<rparr> ch
     \<and> dpl_QPartsStreams (co_peer c') = ch_streams ch"
  by (rule fresh_run [OF assms(1-6)]) (auto simp: to_channel_def)

text \<open>And it delivers everything: when, after any such interleaving, all calls have returned and the
  bytes sent have been carried to the peer, then any schedule of the peer's read loops with enough turns
  for each extends the read buffer of every stream by the complete data of all writes to this stream,
  each once, in some order, and by nothing else.\<close>

theorem connection_delivers:
  fixes c :: "('addr, 'path, 's, 't) connection"
  assumes "stream_accepts wr sent" "stream_delivers rd pend" "stream_blocks rd pend" "stream_feeds feed pend"
    and "fresh_connection sent pend peer M c" "events_ok M (dom (dpl_Streams (co_dp c))) es"
    and "dom M = set (entered (writes_of es))"
    and "run_events wr rd sent feed peer es c = Inr c'" "\<forall>d \<in> set (co_calls c'). WriteForStream_returns (ca_obj d) (co_dp c')"
    and "\<forall>k st. dpl_Streams (co_dp c') k = Some st \<longrightarrow> co_carried c' k = length (sent (ds_ssqc st))"
    and "turns n (dom (dpl_Streams (co_dp c))) rs" "2 * sum_list (map (length \<circ> ca_parts) (co_calls c')) \<le> n"
  shows "\<exists>c'' order. run_events wr rd sent feed peer (map Receives rs) c' = Inr c'' \<and> distinct order \<and> set order = dom M
     \<and> (\<forall>sid s. dpl_QPartsStreams (co_peer c) sid = Some s \<longrightarrow> (\<exists>s'. dpl_QPartsStreams (co_peer c'') sid = Some s' \<and>
          pb_buffer (ps_ReadBuffer s') = pb_buffer (ps_ReadBuffer s) @ concat (map (payload M) (filter (is_for M sid) order))))"
proof -
  let ?ch = "\<lparr>ch_pending = dom M, ch_streams = dpl_QPartsStreams (co_peer c)\<rparr>"
  obtain F G R where inv: "connection_inv sent pend peer M (dom (dpl_Streams (co_dp c)))
      (\<lambda>k. sent (ds_ssqc (the (dpl_Streams (co_dp c) k)))) F G R c'"
    and seqs: "map ca_seq (co_calls c') = entered (writes_of es)" and ch: "(channel_step M)\<^sup>*\<^sup>* ?ch (to_channel M R (co_peer c'))"
    using fresh_run [OF assms(1-6)] assms(8) by (metis sum.inject(2))
  have "dom M = ca_seq ` set (co_calls c')" using assms(7) seqs by (metis list.set_map)
  from connection_drains [OF assms(2,3) inv assms(9) this assms(10-12), of wr feed] obtain c'' where
    c'': "run_events wr rd sent feed peer (map Receives rs) c' = Inr c''"
    "(channel_step M)\<^sup>*\<^sup>* (to_channel M R (co_peer c')) \<lparr>ch_pending = {}, ch_streams = dpl_QPartsStreams (co_peer c'')\<rparr>"
    by blast
  obtain order where o: "distinct order" "set order \<subseteq> dom M" "{} = dom M - set order"
    "dpl_QPartsStreams (co_peer c'') = fold (deliver M) order (dpl_QPartsStreams (co_peer c))"
    using channel_run [OF rtranclp_trans [OF ch c''(2)]] by auto
  have "\<exists>s'. dpl_QPartsStreams (co_peer c'') sid = Some s' \<and> pb_buffer (ps_ReadBuffer s')
      = pb_buffer (ps_ReadBuffer s) @ concat (map (payload M) (filter (is_for M sid) order))"
    if "dpl_QPartsStreams (co_peer c) sid = Some s" for sid s
    unfolding o(4) fold_deliver [where S = "dpl_QPartsStreams (co_peer c)", OF that] by (simp add: delivered_def pb_Append_def)
  then show ?thesis using c''(1) o(1-3) by blast
qed

text \<open>Two hosts with two streams between them.\<close>

definition two_hosts :: "(nat, nat, byte list, byte list) connection" where
  "two_hosts = \<lparr>co_dp = two_queues, co_calls = [], co_carried = (\<lambda>_. 0), co_peer = fresh_peer two_queues, co_held = Map.empty\<rparr>"

lemma memory_feeds: "stream_feeds (@) id"
  by (simp add: stream_feeds_def)

lemma two_hosts_fresh: "fresh_connection id id id mixed_traffic two_hosts"
proof -
  have empty: "ds_ssqc st = []" "entries (ds_Queue st) = []" if "dpl_Streams two_queues k = Some st" for k st
    using that by (auto simp: two_queues_def AddListenStream_def NewQPartsDataplane_def NewQueue_def split: if_splits)
  have "sendable [[1], [2]]" "sendable [[3], [4]]" by (simp_all add: sendable_def maxAlloc_def)
  then have "traffic_ok mixed_traffic (dpl_QPartsStreams (fresh_peer two_queues))"
    by (auto simp: traffic_ok_def mixed_traffic_def fresh_peer_def split: if_splits)
  then show ?thesis using empty two_queues(1,2)
    by (auto simp: fresh_connection_def two_hosts_def fresh_peer_def mixed_traffic_def dataplane_wf.simps store_wf_def
        queues_wf_def held_wf_def NewCompletionStore_def)
qed

text \<open>A run in which the second call enters and the peer reads while the first one still adds its parts.\<close>

definition mixed_events :: "nat event list" where
  "mixed_events = [Writes (Enters 9 77 [part_on 1 [1], part_on 2 [2]]), Writes (Adds 0), Writes (Sends 1), Carries 1 30,
     Receives 1, Writes (Enters 9 78 [part_on 2 [3], part_on 1 [4]]), Writes (Adds 1), Writes (Adds 0), Carries 1 30,
     Receives 1, Writes (Sends 2), Carries 2 60, Receives 2, Receives 1, Writes (Sends 2), Carries 2 60, Receives 2]"

theorem connection_refines_channel_witness:
  "\<exists>c' order. run_events memory_write memory_read id (@) id mixed_events two_hosts = Inr c'
     \<and> distinct order \<and> set order \<subseteq> {77, 78}
     \<and> dpl_QPartsStreams (co_peer c') = fold (deliver mixed_traffic) order [9 \<mapsto> NewPartsStream 9]"
proof -
  have "events_ok mixed_traffic (dom (dpl_Streams (co_dp two_hosts))) mixed_events" "dom mixed_traffic = set (entered (writes_of mixed_events))"
    by (auto simp: events_ok_def acts_ok_def mixed_events_def two_hosts_def two_queues part_on_def mixed_traffic_def
        sendable_def maxAlloc_def placed_def)
  from connection_refines_channel [OF memory_write memory_read memory_feeds two_hosts_fresh this]
  obtain c' ch where c: "run_events memory_write memory_read id (@) id mixed_events two_hosts = Inr c'"
    "(channel_step mixed_traffic)\<^sup>*\<^sup>* \<lparr>ch_pending = dom mixed_traffic, ch_streams = dpl_QPartsStreams (co_peer two_hosts)\<rparr> ch"
    "dpl_QPartsStreams (co_peer c') = ch_streams ch" by blast
  have "dom mixed_traffic = {77, 78}" "dpl_QPartsStreams (co_peer two_hosts) = [9 \<mapsto> NewPartsStream 9]"
    by (auto simp: mixed_traffic_def two_hosts_def fresh_peer_def)
  with channel_run [OF c(2)] c(1,3) show ?thesis by auto
qed

lemma run_events_append:
  "run_events wr rd sent feed peer (xs @ ys) c = go_bind (run_events wr rd sent feed peer xs c) (run_events wr rd sent feed peer ys)"
  by (induction xs arbitrary: c) (auto simp: go_bind_def split: sum.splits)

lemma run_events_Writes:
  "run_events wr rd sent feed peer (map Writes xs) c
     = go_bind (run_write_actions wr xs (co_dp c, co_calls c)) (\<lambda>(dp, calls). Inr (c\<lparr>co_dp := dp, co_calls := calls\<rparr>))"
  by (induction xs arbitrary: c) (auto simp: go_bind_def split: sum.splits prod.splits)

lemma writes_of_append [simp]: "writes_of (xs @ ys) = writes_of xs @ writes_of ys"
  by (simp add: writes_of_def)

lemma writes_of_Writes [simp]: "writes_of (map Writes xs) = xs"
  by (induction xs) simp_all

text \<open>Everything that the two streams were given is carried.\<close>

lemma two_hosts_carried:
  assumes "dom (dpl_Streams dp) = {1, 2}"
  obtains n m c' where "run_events memory_write memory_read id (@) id [Carries 1 n, Carries 2 m]
      (two_hosts\<lparr>co_dp := dp, co_calls := calls\<rparr>) = Inr c'" "co_dp c' = dp" "co_calls c' = calls"
    "\<forall>k st. dpl_Streams dp k = Some st \<longrightarrow> co_carried c' k = length (id (ds_ssqc st))"
proof -
  from assms obtain st1 st2 where st: "dpl_Streams dp 1 = Some st1" "dpl_Streams dp 2 = Some st2" by blast
  let ?n = "length (ds_ssqc st1)" and ?m = "length (ds_ssqc st2)"
  let ?c = "two_hosts\<lparr>co_dp := dp, co_calls := calls\<rparr>"
  let ?c' = "transport id (@) id 2 ?m (transport id (@) id 1 ?n ?c)"
  have run: "run_events memory_write memory_read id (@) id [Carries 1 ?n, Carries 2 ?m] ?c = Inr ?c'" by simp
  obtain r1 r2 where r: "dpl_Streams (fresh_peer two_queues) 1 = Some r1" "dpl_Streams (fresh_peer two_queues) 2 = Some r2"
    by (simp add: fresh_peer_def two_queues_def AddListenStream_def)
  have c': "co_dp ?c' = dp" "co_calls ?c' = calls" "co_carried ?c' = (\<lambda>_. 0)(1 := ?n, 2 := ?m)"
    using st r by (simp_all add: transport_def two_hosts_def set_ssqc_def Let_def)
  have "co_carried ?c' k = length (id (ds_ssqc s))" if "dpl_Streams dp k = Some s" for k s
  proof -
    have "k = 1 \<or> k = 2" using that assms by auto
    then show ?thesis using that st unfolding c' by auto
  qed
  with that [OF run c'(1,2)] show thesis by blast
qed

lemma two_hosts_writes:
  assumes "run_write_actions memory_write acts (two_queues, []) = Inr (dp, calls)"
  shows "run_events memory_write memory_read id (@) id (map Writes acts @ es) two_hosts
    = run_events memory_write memory_read id (@) id es (two_hosts\<lparr>co_dp := dp, co_calls := calls\<rparr>)"
  unfolding run_events_append run_events_Writes using assms by (simp add: two_hosts_def)

theorem connection_delivers_witness:
  "\<exists>n m c' c'' s. run_events memory_write memory_read id (@) id
       (map Writes (two_calls @ map Sends [1, 2, 2, 1]) @ [Carries 1 n, Carries 2 m]) two_hosts = Inr c'
     \<and> run_events memory_write memory_read id (@) id (map Receives (concat (replicate 8 [2, 1]))) c' = Inr c''
     \<and> dpl_QPartsStreams (co_peer c'') 9 = Some s \<and> pb_buffer (ps_ReadBuffer s) \<in> {[1, 2, 3, 4], [3, 4, 1, 2]}"
proof -
  let ?acts = "two_calls @ map Sends [1, 2, 2, 1 :: u64]"
  obtain dp calls F where w: "run_write_actions memory_write ?acts (two_queues, []) = Inr (dp, calls)"
    "senders_inv id mixed_traffic {1, 2} (\<lambda>k. id (ds_ssqc (the (dpl_Streams two_queues k)))) F dp calls"
    "\<forall>c \<in> set calls. WriteForStream_returns (ca_obj c) dp" "sum_list (map (length \<circ> ca_parts) calls) = 4"
    using two_calls_sent .
  obtain n m c' where c: "run_events memory_write memory_read id (@) id [Carries 1 n, Carries 2 m]
      (two_hosts\<lparr>co_dp := dp, co_calls := calls\<rparr>) = Inr c'" "co_dp c' = dp" "co_calls c' = calls"
    "\<forall>k st. dpl_Streams dp k = Some st \<longrightarrow> co_carried c' k = length (id (ds_ssqc st))"
    by (rule two_hosts_carried [OF senders_invD(2) [OF w(2)]])
  let ?es = "map Writes ?acts @ [Carries 1 n, Carries 2 m]"
  have run: "run_events memory_write memory_read id (@) id ?es two_hosts = Inr c'"
    unfolding two_hosts_writes [OF w(1)] by (rule c(1))
  have "writes_of ?es = ?acts" by (simp del: map_append)
  moreover have "acts_ok mixed_traffic {1, 2} ?acts" "dom mixed_traffic = set (entered ?acts)"
    using two_queues(3,4) by (auto simp: acts_ok_def entered_def mixed_traffic_def)
  moreover have "dom (dpl_Streams (co_dp two_hosts)) = {1, 2}" by (simp add: two_hosts_def two_queues)
  ultimately have ev: "events_ok mixed_traffic (dom (dpl_Streams (co_dp two_hosts))) ?es" "dom mixed_traffic = set (entered (writes_of ?es))"
    by (auto simp: events_ok_def)
  have carried: "\<forall>k st. dpl_Streams (co_dp c') k = Some st \<longrightarrow> co_carried c' k = length (id (ds_ssqc st))"
    using c(4) unfolding c(2) .
  have turns: "turns 8 (dom (dpl_Streams (co_dp two_hosts))) (concat (replicate 8 [2, 1]))"
    by (simp add: two_hosts_def two_queues turns_def numeral_eq_Suc)
  have ret: "\<forall>d \<in> set (co_calls c'). WriteForStream_returns (ca_obj d) (co_dp c')"
    "2 * sum_list (map (length \<circ> ca_parts) (co_calls c')) \<le> 8"
    unfolding c(2,3) w(4) using w(3) by simp_all
  obtain c'' order where o: "run_events memory_write memory_read id (@) id (map Receives (concat (replicate 8 [2, 1]))) c' = Inr c''"
    "distinct order" "set order = dom mixed_traffic"
    "\<forall>sid s. dpl_QPartsStreams (co_peer two_hosts) sid = Some s \<longrightarrow> (\<exists>s'. dpl_QPartsStreams (co_peer c'') sid = Some s' \<and>
          pb_buffer (ps_ReadBuffer s') = pb_buffer (ps_ReadBuffer s)
            @ concat (map (payload mixed_traffic) (filter (is_for mixed_traffic sid) order)))"
    using connection_delivers [OF memory_write memory_read memory_feeds two_hosts_fresh ev run ret(1) carried turns ret(2)] by blast
  have "set order = {77, 78}" using o(3) by (auto simp: mixed_traffic_def)
  then have "order = [77, 78] \<or> order = [78, 77]" using orders_of_two [OF o(2)] by simp
  moreover obtain s where s: "dpl_QPartsStreams (co_peer c'') 9 = Some s"
    "pb_buffer (ps_ReadBuffer s) = concat (map (payload mixed_traffic) (filter (is_for mixed_traffic 9) order))"
    using spec [OF spec [OF o(4), of 9], of "NewPartsStream 9"]
    by (auto simp: two_hosts_def fresh_peer_def NewPartsStream_def NewPacketBuffer_def)
  moreover have "payload mixed_traffic 77 = [1, 2]" "payload mixed_traffic 78 = [3, 4]"
    "is_for mixed_traffic 9 77" "is_for mixed_traffic 9 78"
    by (simp_all add: payload_def is_for_def mixed_traffic_def)
  ultimately have "pb_buffer (ps_ReadBuffer s) \<in> {[1, 2, 3, 4], [3, 4, 1, 2]}" by (elim disjE) simp_all
  with run o(1) s(1) show ?thesis by blast
qed

end
