(* ===== verification/SortSlice.thy ===== *)
theory SortSlice
  imports Main "HOL-Library.Multiset"
begin

text \<open>
  \<^verbatim>\<open>sort.Slice\<close> of the Go library, as \<^verbatim>\<open>pkg/qpscion/paths.go\<close> uses it: up to twelve elements are sorted by
  insertion, every element sinking from the right end of the sorted part while it is less than its left
  neighbour.  The locale \<open>slice_order\<close> is what a caller has to know of its \<^verbatim>\<open>less\<close> function, and gives it
  the stable sort of the library.
\<close>

section \<open>Insertion\<close>

text \<open>The sorted part is held in reverse, so that its right end is the head.\<close>

fun sink :: "('a \<Rightarrow> 'a \<Rightarrow> bool) \<Rightarrow> 'a \<Rightarrow> 'a list \<Rightarrow> 'a list" where
  "sink lt x [] = [x]"
| "sink lt x (y # ys) = (if lt x y then y # sink lt x ys else x # y # ys)"

definition sort_Slice :: "('a \<Rightarrow> 'a \<Rightarrow> bool) \<Rightarrow> 'a list \<Rightarrow> 'a list" where
  "sort_Slice lt xs = rev (foldl (\<lambda>ys x. sink lt x ys) [] xs)"

lemma sort_Slice_single [simp]: "sort_Slice lt [] = []" "sort_Slice lt [x] = [x]"
  by (simp_all add: sort_Slice_def)

lemma mset_sink [simp]: "mset (sink lt x ys) = add_mset x (mset ys)"
  by (induction ys) auto

lemma set_sink [simp]: "set (sink lt x ys) = insert x (set ys)"
  by (induction ys) auto

lemma mset_sort_Slice [simp]: "mset (sort_Slice lt xs) = mset xs"
proof -
  have "mset (foldl (\<lambda>ys x. sink lt x ys) ys xs) = mset ys + mset xs" for ys
    by (induction xs arbitrary: ys) auto
  then show ?thesis by (simp add: sort_Slice_def)
qed

lemma set_sort_Slice [simp]: "set (sort_Slice lt xs) = set xs"
  by (rule mset_eq_setD) simp

text \<open>A sort through a function, for instance of pointers by what they point to.\<close>

lemma sink_map: "sink lt (f x) (map f ys) = map f (sink (\<lambda>a b. lt (f a) (f b)) x ys)"
  by (induction ys) auto

lemma sort_Slice_map: "sort_Slice lt (map f xs) = map f (sort_Slice (\<lambda>a b. lt (f a) (f b)) xs)"
proof -
  have "foldl (\<lambda>ys x. sink lt x ys) (map f ys) (map f xs)
      = map f (foldl (\<lambda>ys x. sink (\<lambda>a b. lt (f a) (f b)) x ys) ys xs)" for ys
    by (induction xs arbitrary: ys) (simp_all add: sink_map)
  from this [of "[]"] show ?thesis by (simp add: sort_Slice_def rev_map)
qed

section \<open>Comparison by a key\<close>

locale slice_order =
  fixes lt :: "'a \<Rightarrow> 'a \<Rightarrow> bool"
    and key :: "'a \<Rightarrow> 'k :: linorder"
  assumes less_key: "lt a b \<longleftrightarrow> key a < key b"
begin

lemma sink_sorted: "sorted (map key (rev ys)) \<Longrightarrow> sorted (map key (rev (sink lt x ys)))"
  by (induction ys) (auto simp: less_key sorted_append)

lemma sink_stable:
  "filter (\<lambda>y. key z = key y) (rev (sink lt x ys)) = filter (\<lambda>y. key z = key y) (rev ys @ [x])"
  by (induction ys) (auto simp: less_key)

lemma insertion_sorted:
  "sorted (map key (rev ys)) \<Longrightarrow> sorted (map key (rev (foldl (\<lambda>ys x. sink lt x ys) ys xs)))"
  by (induction xs arbitrary: ys) (simp_all add: sink_sorted)

lemma insertion_stable:
  "filter (\<lambda>y. key z = key y) (rev (foldl (\<lambda>ys x. sink lt x ys) ys xs)) = filter (\<lambda>y. key z = key y) (rev ys @ xs)"
proof (induction xs arbitrary: ys)
  case (Cons x xs)
  then show ?case using sink_stable [of z x ys] by simp
qed simp

lemma sort_Slice_stable: "sort_Slice lt xs = sort_key key xs"
proof (rule sym, rule properties_for_sort_key)
  show "filter (\<lambda>y. key z = key y) (sort_Slice lt xs) = filter (\<lambda>y. key z = key y) xs" for z
    using insertion_stable [of z "[]" xs] by (simp add: sort_Slice_def)
  show "sorted (map key (sort_Slice lt xs))" using insertion_sorted [of "[]" xs] by (simp add: sort_Slice_def)
qed simp

lemma sort_Slice_sorted: "sorted (map key (sort_Slice lt xs))"
  by (simp add: sort_Slice_stable)

text \<open>With different keys every sorting algorithm gives this result.\<close>

lemma sort_Slice_unique:
  assumes "mset ys = mset xs" "sorted_wrt (\<lambda>a b. \<not> lt b a) ys" "inj_on key (set xs)"
  shows "ys = sort_Slice lt xs"
proof -
  have set: "set ys = set xs" using assms(1) by (rule mset_eq_setD)
  have "sorted (map key ys)" using assms(2) by (simp add: sorted_wrt_map less_key not_less)
  moreover have "filter (\<lambda>y. key z = key y) ys = filter (\<lambda>y. key z = key y) xs" if z: "z \<in> set ys" for z
  proof -
    have "filter (\<lambda>y. key z = key y) zs = filter ((=) z) zs" if "set zs = set xs" for zs
      using that assms(3) z set by (intro filter_cong) (auto simp: inj_on_def)
    moreover have "filter ((=) z) zs = replicate (count (mset zs) z) z" for zs by (induction zs) auto
    ultimately show ?thesis using set assms(1) by simp
  qed
  ultimately show ?thesis using assms(1) by (simp add: sort_Slice_stable properties_for_sort_key)
qed

end

end
