(* ===== verification/Paths.thy ===== *)
theory Paths
  imports Prelude SortSlice "HOL-Library.Char_ord" "HOL-Library.List_Lexorder"
begin

text \<open>
  \<^verbatim>\<open>pkg/qpscion/paths.go\<close> and \<^verbatim>\<open>path_cache.go\<close>: how the paths that the SCION daemon returns
  become numbered, named and sorted \<^verbatim>\<open>QPartsPath\<close>s, and the cache in front of the daemon.  A
  \<^verbatim>\<open>snet.Path\<close> is third-party: a value of type \<open>'m\<close>, of which the code uses the metadata, given by the
  argument \<open>meta\<close> as the printed interfaces and the MTU, or nil.
\<close>

section \<open>Paths\<close>

definition QPARTS_PATH_STATE_ACTIVE :: int where "QPARTS_PATH_STATE_ACTIVE = 0"
definition QPARTS_PATH_STATE_INACTIVE :: int where "QPARTS_PATH_STATE_INACTIVE = 1"
definition QPARTS_PATH_STATE_PROBING :: int where "QPARTS_PATH_STATE_PROBING = 2"
definition QPARTS_PATH_STATE_CONGESTED :: int where "QPARTS_PATH_STATE_CONGESTED = 3"
definition QPARTS_PATH_STATE_DOWN :: int where "QPARTS_PATH_STATE_DOWN = 4"

definition QPARTS_PATH_PREF_LOW_LATENCY :: int where "QPARTS_PATH_PREF_LOW_LATENCY = 0"
definition QPARTS_PATH_PREF_HIGH_THROUGHPUT :: int where "QPARTS_PATH_PREF_HIGH_THROUGHPUT = 1"
definition QPARTS_PATH_PREF_BALANCED :: int where "QPARTS_PATH_PREF_BALANCED = 2"

record 'm QPartsPath =
  p_Internal :: 'm
  p_Interfaces :: "string list"
  p_Id :: u64
  p_Sorter :: string
  p_MTU :: int
  p_PayloadSize :: int
  p_Hops :: int
  p_State :: int
  p_Pref :: int

type_synonym 'm metadata = "'m \<Rightarrow> (string list \<times> u16) option"

text \<open>The loop of \<^verbatim>\<open>IdFromSnetPath\<close> from index \<open>i\<close> on, of \<open>n\<close> interfaces.\<close>

fun id_loop :: "string list \<Rightarrow> nat \<Rightarrow> nat \<Rightarrow> string \<Rightarrow> string" where
  "id_loop [] i n s = s"
| "id_loop (p # ps) i n s =
     (let s = s @ p in id_loop ps (i + 1) n (if int i < int n - 1 then s @ ''-'' else s))"

definition IdFromSnetPath :: "'m metadata \<Rightarrow> 'm \<Rightarrow> string go" where
  "IdFromSnetPath meta path =
     (case meta path of
        None \<Rightarrow> Inl NilDereference
      | Some (intfs, _) \<Rightarrow> Inr (id_loop intfs 0 (length intfs) ''''))"

text \<open>FNV-1a with 64 bits, of the bytes of the string.\<close>

definition fnv_step :: "u64 \<Rightarrow> char \<Rightarrow> u64" where
  "fnv_step h c = (h XOR of_char c) * 1099511628211"

definition stringToUint64 :: "string \<Rightarrow> u64" where
  "stringToUint64 input = foldl fnv_step 14695981039346656037 input"

text \<open>\<^verbatim>\<open>strings.ReplaceAll(s, "#", "-")\<close> and \<^verbatim>\<open>strings.Join\<close>.\<close>

definition InterfacesToIds :: "string list \<Rightarrow> string list" where
  "InterfacesToIds intfs = map (map (\<lambda>c. if c = CHR ''#'' then CHR ''-'' else c)) intfs"

fun join :: "string \<Rightarrow> string list \<Rightarrow> string" where
  "join sep [] = ''''"
| "join sep [x] = x"
| "join sep (x # xs) = x @ sep @ join sep xs"

text \<open>The comparison of \<^verbatim>\<open>SortPartsPaths\<close>: shorter \<^verbatim>\<open>Sorter\<close> first, then alphabetically by bytes.\<close>

definition path_less :: "'m QPartsPath \<Rightarrow> 'm QPartsPath \<Rightarrow> bool" where
  "path_less a b \<longleftrightarrow>
     (if length (p_Sorter a) \<noteq> length (p_Sorter b) then length (p_Sorter a) < length (p_Sorter b)
      else p_Sorter a < p_Sorter b)"

text \<open>Above twelve elements \<^verbatim>\<open>sort.Slice\<close> uses other algorithms, which may order paths with equal
  \<^verbatim>\<open>Sorter\<close>s differently; the property of this function below says that nothing else can differ.\<close>

definition SortPartsPaths :: "'m QPartsPath list \<Rightarrow> 'm QPartsPath list" where
  "SortPartsPaths paths = sort_Slice path_less paths"

text \<open>The same for pointers to paths in the memory \<open>mem\<close>; \<open>None\<close> is nil.  Every element of a slice with
  two or more is compared at least once.\<close>

definition SortPartsPathsP ::
  "('p \<Rightarrow> 'm QPartsPath) \<Rightarrow> 'p option list \<Rightarrow> 'p option list go" where
  "SortPartsPathsP mem paths =
     (if 2 \<le> length paths \<and> None \<in> set paths then Inl NilDereference
      else Inr (sort_Slice (\<lambda>a b. path_less (mem (the a)) (mem (the b))) paths))"

definition to_QPartsPath :: "'m metadata \<Rightarrow> 'm \<Rightarrow> 'm QPartsPath go" where
  "to_QPartsPath meta path =
     go_bind (IdFromSnetPath meta path) (\<lambda>pathSorter.
       case meta path of
         None \<Rightarrow> Inl NilDereference
       | Some (intfs, mtu) \<Rightarrow>
           Inr \<lparr>p_Internal = path, p_Interfaces = InterfacesToIds intfs,
                p_Id = stringToUint64 pathSorter, p_Sorter = join '','' (InterfacesToIds intfs),
                p_MTU = uint mtu, p_PayloadSize = 1200, p_Hops = int (length intfs) div 2,
                p_State = QPARTS_PATH_STATE_INACTIVE, p_Pref = 0\<rparr>)"

fun convert_paths :: "'m metadata \<Rightarrow> 'm list \<Rightarrow> 'm QPartsPath list go" where
  "convert_paths meta [] = Inr []"
| "convert_paths meta (p # ps) =
     go_bind (to_QPartsPath meta p) (\<lambda>q. go_bind (convert_paths meta ps) (\<lambda>qs. Inr (q # qs)))"

text \<open>\<open>answer\<close> is what the daemon returns for the query: an error or the paths.\<close>

definition QueryPaths :: "'m metadata \<Rightarrow> string + 'm list \<Rightarrow> (string + 'm QPartsPath list) go" where
  "QueryPaths meta answer =
     (case answer of
        Inl err \<Rightarrow> Inr (Inl err)
      | Inr paths \<Rightarrow> go_bind (convert_paths meta paths) (\<lambda>ps. Inr (Inr (SortPartsPaths ps))))"

section \<open>The cache\<close>

record 'm PathCache =
  pc_Paths :: "string \<rightharpoonup> 'm QPartsPath list"

definition NewPathCache :: "'m PathCache" where
  "NewPathCache = \<lparr>pc_Paths = Map.empty\<rparr>"

text \<open>The error of \<^verbatim>\<open>QueryPaths\<close> is not passed on.\<close>

definition Refresh ::
  "'m metadata \<Rightarrow> string + 'm list \<Rightarrow> string \<Rightarrow> 'm PathCache \<Rightarrow> (string option \<times> 'm PathCache) go" where
  "Refresh meta answer remote pc =
     go_bind (QueryPaths meta answer) (\<lambda>r.
       case r of
         Inl err \<Rightarrow> Inr (None, pc)
       | Inr paths \<Rightarrow> Inr (None, pc\<lparr>pc_Paths := (pc_Paths pc)(remote \<mapsto> paths)\<rparr>))"

definition PathCache_Get ::
  "'m metadata \<Rightarrow> string + 'm list \<Rightarrow> string \<Rightarrow> 'm PathCache
     \<Rightarrow> ((string + 'm QPartsPath list) \<times> 'm PathCache) go" where
  "PathCache_Get meta answer remote pc =
     go_bind (Refresh meta answer remote pc) (\<lambda>(err, pc1).
       case err of
         Some e \<Rightarrow> Inr (Inl e, pc1)
       | None \<Rightarrow> Inr (Inr (case pc_Paths pc1 remote of Some ps \<Rightarrow> ps | None \<Rightarrow> []), pc1))"

section \<open>Lemmas\<close>

lemma join_Cons: "xs \<noteq> [] \<Longrightarrow> join sep (x # xs) = x @ sep @ join sep xs"
  by (cases xs) auto

lemma id_loop_join: "i + length ps = n \<Longrightarrow> id_loop ps i n s = s @ join ''-'' ps"
proof (induction ps arbitrary: i s)
  case (Cons p ps)
  have "int i < int n - 1 \<longleftrightarrow> ps \<noteq> []" using Cons.prems by (cases ps) auto
  moreover have "id_loop ps (i + 1) n s' = s' @ join ''-'' ps" for s'
    using Cons by simp
  ultimately show ?case by (cases "ps = []") (simp_all add: join_Cons)
qed simp

text \<open>The comparison is the linear order of these keys.\<close>

datatype sorter_key = Sorter_Key (key_text: string)

instantiation sorter_key :: linorder
begin

definition less_eq_sorter_key :: "sorter_key \<Rightarrow> sorter_key \<Rightarrow> bool" where
  "a \<le> b \<longleftrightarrow> length (key_text a) < length (key_text b)
     \<or> length (key_text a) = length (key_text b) \<and> key_text a \<le> key_text b"

definition less_sorter_key :: "sorter_key \<Rightarrow> sorter_key \<Rightarrow> bool" where
  "a < b \<longleftrightarrow> length (key_text a) < length (key_text b)
     \<or> length (key_text a) = length (key_text b) \<and> key_text a < key_text b"

instance
  by standard (auto simp: less_eq_sorter_key_def less_sorter_key_def sorter_key.expand)

end

definition path_key :: "'m QPartsPath \<Rightarrow> sorter_key" where
  "path_key p = Sorter_Key (p_Sorter p)"

interpretation by_value: slice_order path_less path_key
  by unfold_locales (auto simp: path_less_def path_key_def less_sorter_key_def)

lemma inj_on_path_key: "inj_on path_key A = inj_on p_Sorter A"
  by (simp add: inj_on_def path_key_def)

lemma set_SortPartsPaths [simp]: "set (SortPartsPaths ps) = set ps"
  by (simp add: SortPartsPaths_def)

lemma SortPartsPaths_single [simp]: "SortPartsPaths [] = []" "SortPartsPaths [p] = [p]"
  by (simp_all add: SortPartsPaths_def)

lemma convert_paths_map:
  "convert_paths meta ps = Inr qs \<Longrightarrow> list_all2 (\<lambda>p q. to_QPartsPath meta p = Inr q) ps qs"
  by (induction ps arbitrary: qs) (auto simp: go_bind_eq_Inr)

lemma QueryPaths_states:
  assumes "QueryPaths meta answer = Inr (Inr qs)" "q \<in> set qs"
  shows "p_State q = QPARTS_PATH_STATE_INACTIVE"
proof -
  from assms(1) obtain paths ps where ps: "convert_paths meta paths = Inr ps" "qs = SortPartsPaths ps"
    by (auto simp: QueryPaths_def go_bind_eq_Inr split: sum.splits)
  then have "q \<in> set ps" using assms(2) by simp
  with convert_paths_map [OF ps(1)] obtain p where "to_QPartsPath meta p = Inr q"
    by (auto simp: list_all2_conv_all_nth in_set_conv_nth)
  then show ?thesis by (auto simp: to_QPartsPath_def go_bind_eq_Inr split: option.splits)
qed

section \<open>Properties\<close>


definition named_path :: "string \<Rightarrow> nat QPartsPath" where
  "named_path s = \<lparr>p_Internal = 0, p_Interfaces = [], p_Id = stringToUint64 s, p_Sorter = s, p_MTU = 1472,
     p_PayloadSize = 1200, p_Hops = 1, p_State = 1, p_Pref = 0\<rparr>"


text \<open>\<^verbatim>\<open>QueryPaths\<close> returns every path of the daemon's answer exactly once, inactive, with the hash
  of its interfaces joined by dashes as its id, its interfaces joined by commas as its name, half the
  number of interfaces as its hop count and the MTU of the metadata; an error of the daemon is
  returned, and a path without metadata panics.\<close>

theorem QueryPaths_converts:
  "(\<forall>err. QueryPaths meta (Inl err) = Inr (Inl err))
   \<and> (\<forall>paths qs. QueryPaths meta (Inr paths) = Inr (Inr qs) \<longrightarrow>
        mset (map p_Internal qs) = mset paths
        \<and> (\<forall>q \<in> set qs. \<exists>intfs mtu. meta (p_Internal q) = Some (intfs, mtu)
             \<and> p_Id q = stringToUint64 (join ''-'' intfs) \<and> p_Sorter q = join '','' (InterfacesToIds intfs)
             \<and> p_MTU q = uint mtu \<and> p_Hops q = int (length intfs div 2)
             \<and> p_State q = QPARTS_PATH_STATE_INACTIVE))
   \<and> (\<forall>paths. (\<exists>p \<in> set paths. meta p = None) \<longrightarrow> QueryPaths meta (Inr paths) = Inl NilDereference)"
proof (intro conjI allI impI)
  fix paths qs
  assume "QueryPaths meta (Inr paths) = Inr (Inr qs)"
  then obtain ps where ps: "convert_paths meta paths = Inr ps" "qs = SortPartsPaths ps"
    by (auto simp: QueryPaths_def go_bind_eq_Inr)
  then have conv: "list_all2 (\<lambda>p q. to_QPartsPath meta p = Inr q) paths ps"
    by (simp add: convert_paths_map)
  have int: "to_QPartsPath meta p = Inr q \<Longrightarrow> p_Internal q = p" for p q
    by (auto simp: to_QPartsPath_def go_bind_eq_Inr split: option.splits)
  have "map p_Internal ps = paths"
    using conv by (induction rule: list_all2_induct) (auto simp: int)
  then show "mset (map p_Internal qs) = mset paths"
    using ps(2) by (metis SortPartsPaths_def mset_map mset_sort_Slice)
  show "\<forall>q \<in> set qs. \<exists>intfs mtu. meta (p_Internal q) = Some (intfs, mtu)
         \<and> p_Id q = stringToUint64 (join ''-'' intfs) \<and> p_Sorter q = join '','' (InterfacesToIds intfs)
         \<and> p_MTU q = uint mtu \<and> p_Hops q = int (length intfs div 2) \<and> p_State q = QPARTS_PATH_STATE_INACTIVE"
  proof
    fix q
    assume "q \<in> set qs"
    then have "q \<in> set ps" using ps(2) by simp
    then obtain p where "to_QPartsPath meta p = Inr q"
      using conv by (auto simp: list_all2_conv_all_nth in_set_conv_nth)
    then show "\<exists>intfs mtu. meta (p_Internal q) = Some (intfs, mtu)
         \<and> p_Id q = stringToUint64 (join ''-'' intfs) \<and> p_Sorter q = join '','' (InterfacesToIds intfs)
         \<and> p_MTU q = uint mtu \<and> p_Hops q = int (length intfs div 2) \<and> p_State q = QPARTS_PATH_STATE_INACTIVE"
      by (auto simp: to_QPartsPath_def IdFromSnetPath_def id_loop_join zdiv_int split: option.splits)
  qed
next
  fix paths
  assume "\<exists>p \<in> set paths. meta p = None"
  then have "convert_paths meta paths = Inl NilDereference"
  proof (induction paths)
    case (Cons p ps)
    show ?case
    proof (cases "meta p")
      case None
      then show ?thesis by (simp add: to_QPartsPath_def IdFromSnetPath_def)
    next
      case (Some m)
      with Cons have "convert_paths meta ps = Inl NilDereference" by auto
      with Some show ?thesis by (cases m) (simp add: to_QPartsPath_def IdFromSnetPath_def)
    qed
  qed simp
  then show "QueryPaths meta (Inr paths) = Inl NilDereference" by (simp add: QueryPaths_def)
qed (simp add: QueryPaths_def)

definition example_metadata :: "nat metadata" where
  "example_metadata p = (if p = 0 then None else Some ([''1-10#1'', ''1-13#2''], 1472))"

theorem QueryPaths_converts_witness:
  "\<exists>q. QueryPaths example_metadata (Inr [4]) = Inr (Inr [q]) \<and> p_Hops q = 1 \<and> p_Internal q = 4
     \<and> QueryPaths example_metadata (Inr [4, 0]) = Inl NilDereference"
proof -
  obtain q where q: "QueryPaths example_metadata (Inr [4]) = Inr (Inr [q])"
    by (simp add: QueryPaths_def to_QPartsPath_def IdFromSnetPath_def example_metadata_def SortPartsPaths_def)
  from QueryPaths_converts [of example_metadata, THEN conjunct2, THEN conjunct1, THEN spec, THEN spec,
      THEN mp, OF q]
  have "p_Internal q = 4" "p_Hops q = 1" by (auto simp: example_metadata_def split: if_splits)
  moreover have "QueryPaths example_metadata (Inr [4, 0]) = Inl NilDereference"
    using QueryPaths_converts [of example_metadata] by (simp add: example_metadata_def)
  ultimately show ?thesis using q by blast
qed

text \<open>The path cache hides the daemon's errors: \<^verbatim>\<open>Get\<close> never returns an error; when the daemon
  fails it returns what was cached for the remote, possibly nothing, and changes nothing; otherwise it
  returns and caches the fresh paths and leaves other remotes alone.\<close>

theorem PathCache_Get_hides_errors:
  "PathCache_Get meta (Inl err) remote pc
     = Inr (Inr (case pc_Paths pc remote of Some ps \<Rightarrow> ps | None \<Rightarrow> []), pc)
   \<and> (QueryPaths meta (Inr paths) = Inr (Inr qs) \<longrightarrow>
        (\<exists>pc'. PathCache_Get meta (Inr paths) remote pc = Inr (Inr qs, pc')
           \<and> pc_Paths pc' remote = Some qs \<and> (\<forall>r. r \<noteq> remote \<longrightarrow> pc_Paths pc' r = pc_Paths pc r)
           \<and> PathCache_Get meta (Inl err) remote pc' = Inr (Inr qs, pc')))"
  by (auto simp: PathCache_Get_def Refresh_def QueryPaths_def)

theorem PathCache_Get_hides_errors_witness:
  "PathCache_Get example_metadata (Inl ''no daemon'') ''1-10,127.0.0.1'' NewPathCache = Inr (Inr [], NewPathCache)"
  using PathCache_Get_hides_errors [of example_metadata "''no daemon''" "''1-10,127.0.0.1''" NewPathCache "[]" "[]"]
  by (simp add: NewPathCache_def)

end
