(* ===== verification/Metrics.thy ===== *)
theory Metrics
  imports Paths
begin

text \<open>
  \<^verbatim>\<open>pkg/qpmetrics/metrics.go\<close>, the global network state with the metrics of every path to every
  remote; \<^verbatim>\<open>pkg/qpnet/quic_conn_tracer.go\<close>, the callbacks through which the QUIC connections feed
  it; and the reset that the detection ticker of \<^verbatim>\<open>qparts_dataplane.go\<close> makes.  Pointers to path
  metrics are only reached through the state, so the maps hold the values.  A \<^verbatim>\<open>range\<close> loop takes
  the order of its visits as an argument.
\<close>

section \<open>The network state\<close>

record 'm PathMetrics =
  pm_Path :: "'m QPartsPath option"
  pm_RTT :: u64
  pm_Packetloss :: u64
  pm_Throughput :: u64
  pm_CwndDecreaseEvents :: u64
  pm_PacketLossEvents :: u64

definition NewPathMetrics :: "'m PathMetrics" where
  "NewPathMetrics = \<lparr>pm_Path = None, pm_RTT = 0, pm_Packetloss = 0, pm_Throughput = 0,
     pm_CwndDecreaseEvents = 0, pm_PacketLossEvents = 0\<rparr>"

text \<open>The events of \<^verbatim>\<open>events.go\<close>; \<open>'f\<close> stands for \<^verbatim>\<open>float64\<close>.\<close>

record ('m, 'f) PathCongestion =
  cg_PathId :: u32
  cg_Path :: "'m QPartsPath option"
  cg_ThroughputDrop :: 'f
  cg_PacketLoss :: 'f

record ('a, 'm, 'f) CongestionEvent =
  ev_Remote :: "'a option"
  ev_Reason :: string
  ev_CongestionPaths :: "('m, 'f) PathCongestion list"

text \<open>The handlers of congestion events are stored and never called: a number names a function value.\<close>

record 'm NetworkState =
  net_Remotes :: "string \<rightharpoonup> (u64 \<rightharpoonup> 'm PathMetrics)"
  net_OnCongestionEvent :: "nat list"

definition init_State :: "'m NetworkState" where
  "init_State = \<lparr>net_Remotes = Map.empty, net_OnCongestionEvent = []\<rparr>"

definition AddCongestionEventHandler :: "nat \<Rightarrow> 'm NetworkState \<Rightarrow> 'm NetworkState" where
  "AddCongestionEventHandler handler n = n\<lparr>net_OnCongestionEvent := net_OnCongestionEvent n @ [handler]\<rparr>"

text \<open>Reading a nil map gives nothing.\<close>

definition remote_paths :: "string \<Rightarrow> 'm NetworkState \<Rightarrow> (u64 \<rightharpoonup> 'm PathMetrics)" where
  "remote_paths remote n = (case net_Remotes n remote of Some m \<Rightarrow> m | None \<Rightarrow> Map.empty)"

fun active_loop :: "u64 list \<Rightarrow> (u64 \<rightharpoonup> 'm PathMetrics) \<Rightarrow> 'm QPartsPath list go" where
  "active_loop [] m = Inr []"
| "active_loop (k # ks) m =
     (case m k of
        None \<Rightarrow> active_loop ks m
      | Some pm \<Rightarrow>
          (case pm_Path pm of
             None \<Rightarrow> Inl NilDereference
           | Some p \<Rightarrow>
               go_bind (active_loop ks m) (\<lambda>ps.
                 Inr (if p_State p = QPARTS_PATH_STATE_ACTIVE then p # ps else ps))))"

definition ActivePaths :: "u64 list \<Rightarrow> string \<Rightarrow> 'm NetworkState \<Rightarrow> 'm QPartsPath list go" where
  "ActivePaths order remote n = active_loop order (remote_paths remote n)"

definition ToPathSlice :: "u64 list \<Rightarrow> string \<Rightarrow> 'm NetworkState \<Rightarrow> 'm QPartsPath option list" where
  "ToPathSlice order remote n = map pm_Path (List.map_filter (remote_paths remote n) order)"

text \<open>The error of \<^verbatim>\<open>QueryPaths\<close> is dropped; the remote is added in any case.\<close>

definition AddRemote ::
  "'m metadata \<Rightarrow> string + 'm list \<Rightarrow> string \<Rightarrow> 'm NetworkState \<Rightarrow> 'm NetworkState go" where
  "AddRemote meta answer remote n =
     (let n1 = (if net_Remotes n remote = None then n\<lparr>net_Remotes := (net_Remotes n)(remote \<mapsto> Map.empty)\<rparr> else n)
      in go_bind (QueryPaths meta answer) (\<lambda>r.
           let paths = (case r of Inl err \<Rightarrow> [] | Inr ps \<Rightarrow> ps) in
           Inr (foldl (\<lambda>n p. n\<lparr>net_Remotes := (net_Remotes n)(remote \<mapsto>
                    (remote_paths remote n)(p_Id p \<mapsto> NewPathMetrics\<lparr>pm_Path := Some p\<rparr>))\<rparr>) n1 paths)))"

text \<open>The guard and the creation of the inner map that the four recording operations share.\<close>

definition update_metrics ::
  "string \<Rightarrow> u64 \<Rightarrow> ('m PathMetrics option \<Rightarrow> 'm PathMetrics go) \<Rightarrow> 'm NetworkState \<Rightarrow> 'm NetworkState go" where
  "update_metrics remote pathId f n =
     (if pathId = 0 then Inl (ExplicitPanic ''PathId cannot be 0'')
      else go_bind (f (remote_paths remote n pathId)) (\<lambda>pm.
        Inr (n\<lparr>net_Remotes := (net_Remotes n)(remote \<mapsto> (remote_paths remote n)(pathId \<mapsto> pm))\<rparr>)))"

definition deref :: "('a \<Rightarrow> 'b) \<Rightarrow> 'a option \<Rightarrow> 'b go" where
  "deref f p = (case p of None \<Rightarrow> Inl NilDereference | Some x \<Rightarrow> Inr (f x))"

definition AddPathMetrics :: "string \<Rightarrow> u64 \<Rightarrow> 'm PathMetrics \<Rightarrow> 'm NetworkState \<Rightarrow> 'm NetworkState go" where
  "AddPathMetrics remote pathId metrics = update_metrics remote pathId (\<lambda>_. Inr metrics)"

definition AddPacketLoss :: "string \<Rightarrow> u64 \<Rightarrow> u64 \<Rightarrow> 'm NetworkState \<Rightarrow> 'm NetworkState go" where
  "AddPacketLoss remote pathId loss =
     update_metrics remote pathId (deref (\<lambda>pm. pm\<lparr>pm_Packetloss := pm_Packetloss pm + loss\<rparr>))"

definition AddConnStateRecovery :: "string \<Rightarrow> u64 \<Rightarrow> u64 \<Rightarrow> 'm NetworkState \<Rightarrow> 'm NetworkState go" where
  "AddConnStateRecovery remote pathId loss =
     update_metrics remote pathId
       (deref (\<lambda>pm. pm\<lparr>pm_CwndDecreaseEvents := pm_CwndDecreaseEvents pm + loss\<rparr>))"

definition AddThroughput :: "string \<Rightarrow> u64 \<Rightarrow> u64 \<Rightarrow> 'm NetworkState \<Rightarrow> 'm NetworkState go" where
  "AddThroughput remote pathId bytecount =
     update_metrics remote pathId (deref (\<lambda>pm. pm\<lparr>pm_Throughput := pm_Throughput pm + bytecount\<rparr>))"

definition GetPathMetrics :: "string \<Rightarrow> u64 \<Rightarrow> 'm NetworkState \<Rightarrow> 'm PathMetrics option" where
  "GetPathMetrics remote pathId n =
     (case net_Remotes n remote of None \<Rightarrow> None | Some m \<Rightarrow> m pathId)"

text \<open>The end of a tick of \<^verbatim>\<open>runDetectionTicker\<close>.\<close>

definition reset_interval :: "'m NetworkState \<Rightarrow> 'm NetworkState" where
  "reset_interval n = n\<lparr>net_Remotes := (\<lambda>r. map_option (\<lambda>m.
     map_option (\<lambda>pm. pm\<lparr>pm_Throughput := 0, pm_Packetloss := 0\<rparr>) \<circ> m) (net_Remotes n r))\<rparr>"

section \<open>The tracer\<close>

record ('a, 'm) QPartsQuicTracer =
  qt_Path :: "'m QPartsPath option"
  qt_Destination :: "'a option"

definition NewQPartsQuicTracer :: "('a, 'm) QPartsQuicTracer" where
  "NewQPartsQuicTracer = \<lparr>qt_Path = None, qt_Destination = None\<rparr>"

definition qt_SetPath :: "'m QPartsPath option \<Rightarrow> ('a, 'm) QPartsQuicTracer \<Rightarrow> ('a, 'm) QPartsQuicTracer" where
  "qt_SetPath path qt = qt\<lparr>qt_Path := path\<rparr>"

definition qt_SetDestination :: "'a option \<Rightarrow> ('a, 'm) QPartsQuicTracer \<Rightarrow> ('a, 'm) QPartsQuicTracer" where
  "qt_SetDestination dest qt = qt\<lparr>qt_Destination := dest\<rparr>"

text \<open>The callbacks that QUIC makes; \<open>UpdatedCongestionState True\<close> is the congestion avoidance
  state.\<close>

datatype tracer_event =
    UpdatedCongestionState bool
  | LostPacket
  | SentLongHeaderPacket int
  | SentShortHeaderPacket int
  | UpdatedMetrics

definition tracer_call ::
  "('a option \<Rightarrow> string) \<Rightarrow> ('a, 'm) QPartsQuicTracer \<Rightarrow> tracer_event \<Rightarrow> 'm NetworkState \<Rightarrow> 'm NetworkState go" where
  "tracer_call addr qt ev n =
     (case qt_Path qt of
        None \<Rightarrow> Inr n
      | Some p \<Rightarrow>
          (case ev of
             UpdatedCongestionState avoidance \<Rightarrow>
               (if avoidance then AddConnStateRecovery (addr (qt_Destination qt)) (p_Id p) 1 n else Inr n)
           | LostPacket \<Rightarrow> AddPacketLoss (addr (qt_Destination qt)) (p_Id p) 1 n
           | SentLongHeaderPacket cnt \<Rightarrow> AddThroughput (addr (qt_Destination qt)) (p_Id p) (of_int cnt) n
           | SentShortHeaderPacket cnt \<Rightarrow> AddThroughput (addr (qt_Destination qt)) (p_Id p) (of_int cnt) n
           | UpdatedMetrics \<Rightarrow> Inr n))"

fun tracer_calls ::
  "('a option \<Rightarrow> string) \<Rightarrow> ('a, 'm) QPartsQuicTracer \<Rightarrow> tracer_event list \<Rightarrow> 'm NetworkState \<Rightarrow> 'm NetworkState go" where
  "tracer_calls addr qt [] n = Inr n"
| "tracer_calls addr qt (ev # evs) n = go_bind (tracer_call addr qt ev n) (tracer_calls addr qt evs)"

section \<open>Lemmas\<close>

fun sent_bytes :: "tracer_event \<Rightarrow> int" where
  "sent_bytes (SentLongHeaderPacket c) = c"
| "sent_bytes (SentShortHeaderPacket c) = c"
| "sent_bytes _ = 0"

text \<open>What a list of callbacks adds to the metrics of their path.\<close>

definition traced :: "tracer_event list \<Rightarrow> 'm PathMetrics \<Rightarrow> 'm PathMetrics" where
  "traced evs pm = pm\<lparr>pm_Throughput := pm_Throughput pm + of_int (sum_list (map sent_bytes evs)),
     pm_Packetloss := pm_Packetloss pm + of_nat (count_list evs LostPacket),
     pm_CwndDecreaseEvents := pm_CwndDecreaseEvents pm + of_nat (count_list evs (UpdatedCongestionState True))\<rparr>"

lemma traced_Nil [simp]: "traced [] pm = pm"
  by (simp add: traced_def)

lemma traced_Cons: "traced (ev # evs) pm = traced evs (traced [ev] pm)"
  by (cases ev) (auto simp: traced_def add.assoc add.commute add.left_commute)

definition metrics_at :: "string \<Rightarrow> u64 \<Rightarrow> 'm PathMetrics \<Rightarrow> 'm NetworkState \<Rightarrow> 'm NetworkState" where
  "metrics_at r k pm n = n\<lparr>net_Remotes := (net_Remotes n)(r \<mapsto> (remote_paths r n)(k \<mapsto> pm))\<rparr>"

lemma metrics_at_simps [simp]:
  "remote_paths r (metrics_at r k pm n) = (remote_paths r n)(k \<mapsto> pm)"
  "metrics_at r k pm (metrics_at r k pm' n) = metrics_at r k pm n"
  "\<exists>m. net_Remotes (metrics_at r k pm n) r = Some m"
  by (simp_all add: metrics_at_def remote_paths_def)

lemma metrics_at_same: "net_Remotes n r = Some m \<Longrightarrow> m k = Some pm \<Longrightarrow> metrics_at r k pm n = n"
  by (cases n) (auto simp: metrics_at_def remote_paths_def map_upd_triv)

lemma tracer_call_known:
  assumes "qt_Path qt = Some p" "p_Id p \<noteq> 0" "remote_paths (addr (qt_Destination qt)) n (p_Id p) = Some pm"
    and "net_Remotes n (addr (qt_Destination qt)) \<noteq> None"
  shows "tracer_call addr qt ev n = Inr (metrics_at (addr (qt_Destination qt)) (p_Id p) (traced [ev] pm) n)"
proof -
  have "metrics_at (addr (qt_Destination qt)) (p_Id p) pm n = n"
    using assms(3,4) by (auto simp: remote_paths_def intro: metrics_at_same)
  with assms show ?thesis
    by (cases ev) (auto simp: tracer_call_def AddConnStateRecovery_def AddPacketLoss_def AddThroughput_def
        update_metrics_def deref_def traced_def metrics_at_def [of _ _ _ n] split: if_splits)
qed

lemma tracer_calls_known:
  assumes "qt_Path qt = Some p" "p_Id p \<noteq> 0" "r = addr (qt_Destination qt)"
  shows "remote_paths r n (p_Id p) = Some pm \<Longrightarrow> net_Remotes n r \<noteq> None \<Longrightarrow>
     tracer_calls addr qt evs n = Inr (metrics_at r (p_Id p) (traced evs pm) n)"
proof (induction evs arbitrary: n pm)
  case Nil
  then show ?case by (auto simp: remote_paths_def intro!: metrics_at_same [symmetric])
next
  case (Cons ev evs)
  let ?n = "metrics_at r (p_Id p) (traced [ev] pm) n"
  have "tracer_call addr qt ev n = Inr ?n"
    using tracer_call_known [OF assms(1,2), of addr n pm ev] Cons.prems assms(3) by simp
  moreover have "tracer_calls addr qt evs ?n = Inr (metrics_at r (p_Id p) (traced evs (traced [ev] pm)) ?n)"
    by (rule Cons.IH) simp_all
  ultimately show ?case by (simp add: traced_Cons [of ev evs])
qed

lemma active_loop_all:
  assumes "\<forall>k \<in> set order. \<exists>pm p. m k = Some pm \<and> pm_Path pm = Some p"
  shows "active_loop order m = Inr (filter (\<lambda>p. p_State p = QPARTS_PATH_STATE_ACTIVE)
     (map (\<lambda>k. the (pm_Path (the (m k)))) order))"
  using assms by (induction order) auto

lemma add_paths:
  "remote_paths r (foldl (\<lambda>n p. n\<lparr>net_Remotes := (net_Remotes n)(r \<mapsto>
      (remote_paths r n)(p_Id p \<mapsto> NewPathMetrics\<lparr>pm_Path := Some p\<rparr>))\<rparr>) n ps)
   = foldl (\<lambda>m p. m(p_Id p \<mapsto> NewPathMetrics\<lparr>pm_Path := Some p\<rparr>)) (remote_paths r n) ps"
  by (induction ps arbitrary: n) (simp_all add: remote_paths_def)

lemma foldl_paths:
  "foldl (\<lambda>m p. m(p_Id p \<mapsto> NewPathMetrics\<lparr>pm_Path := Some p\<rparr>)) m ps k = Some pm \<Longrightarrow>
     m k = Some pm \<or> (\<exists>p \<in> set ps. p_Id p = k \<and> pm = NewPathMetrics\<lparr>pm_Path := Some p\<rparr>)"
  by (induction ps arbitrary: m) (fastforce split: if_splits)+

section \<open>Properties\<close>

text \<open>C17: The tracer counts what its connection does: whatever callbacks QUIC makes on a connection whose
  path is known to the network state, none panics, the path's throughput grows by the bytes of the
  packets sent (modulo \<open>2^64\<close>), its packet loss by the number of lost packets and its window events
  by the number of changes to congestion avoidance, and no other path or remote changes; after the
  ticker's reset the throughput and the packet loss count from zero again and nothing else is lost.\<close>

theorem tracer_counts:
  assumes "qt_Path qt = Some p" "p_Id p \<noteq> 0" "net_Remotes n (addr (qt_Destination qt)) = Some m"
    and "m (p_Id p) = Some pm"
  shows "\<exists>n' pm'. tracer_calls addr qt evs n = Inr n'
     \<and> GetPathMetrics (addr (qt_Destination qt)) (p_Id p) n' = Some pm'
     \<and> pm_Throughput pm' = pm_Throughput pm + of_int (sum_list (map sent_bytes evs))
     \<and> pm_Packetloss pm' = pm_Packetloss pm + of_nat (count_list evs LostPacket)
     \<and> pm_CwndDecreaseEvents pm' = pm_CwndDecreaseEvents pm + of_nat (count_list evs (UpdatedCongestionState True))
     \<and> (\<forall>r k. r \<noteq> addr (qt_Destination qt) \<or> k \<noteq> p_Id p \<longrightarrow> GetPathMetrics r k n' = GetPathMetrics r k n)
     \<and> GetPathMetrics (addr (qt_Destination qt)) (p_Id p) (reset_interval n')
         = Some (pm'\<lparr>pm_Throughput := 0, pm_Packetloss := 0\<rparr>)"
proof -
  let ?r = "addr (qt_Destination qt)"
  have m: "remote_paths ?r n = m" using assms(3) by (simp add: remote_paths_def)
  have "tracer_calls addr qt evs n = Inr (metrics_at ?r (p_Id p) (traced evs pm) n)"
    using tracer_calls_known [of qt p ?r addr n pm evs] assms m by simp
  moreover have "GetPathMetrics ?r (p_Id p) (metrics_at ?r (p_Id p) (traced evs pm) n) = Some (traced evs pm)"
    by (simp add: GetPathMetrics_def metrics_at_def)
  moreover have "GetPathMetrics r k (metrics_at ?r (p_Id p) (traced evs pm) n) = GetPathMetrics r k n"
    if "r \<noteq> ?r \<or> k \<noteq> p_Id p" for r k
    using that assms(3) m by (auto simp: GetPathMetrics_def metrics_at_def)
  moreover have "GetPathMetrics ?r (p_Id p) (reset_interval (metrics_at ?r (p_Id p) (traced evs pm) n))
      = Some ((traced evs pm)\<lparr>pm_Throughput := 0, pm_Packetloss := 0\<rparr>)"
    by (simp add: GetPathMetrics_def metrics_at_def reset_interval_def)
  ultimately show ?thesis by (simp add: traced_def)
qed

definition known_state :: "nat NetworkState" where
  "known_state = \<lparr>net_Remotes = [''r'' \<mapsto> [stringToUint64 ''a'' \<mapsto> NewPathMetrics\<lparr>pm_Path := Some (named_path ''a'')\<rparr>]], net_OnCongestionEvent = []\<rparr>"

lemma named_path_id: "p_Id (named_path ''a'') \<noteq> 0"
proof -
  have "stringToUint64 ''a'' \<noteq> 0" by code_simp
  then show ?thesis by (simp add: named_path_def)
qed

theorem tracer_counts_witness:
  "\<exists>n' pm'. tracer_calls (\<lambda>_. ''r'') \<lparr>qt_Path = Some (named_path ''a''), qt_Destination = None :: unit option\<rparr>
       [SentLongHeaderPacket 1200, LostPacket, SentShortHeaderPacket 50] known_state = Inr n'
     \<and> GetPathMetrics ''r'' (stringToUint64 ''a'') n' = Some pm' \<and> pm_Throughput pm' = 1250 \<and> pm_Packetloss pm' = 1"
proof -
  have m: "net_Remotes known_state ''r'' = Some [p_Id (named_path ''a'') \<mapsto> NewPathMetrics\<lparr>pm_Path := Some (named_path ''a'')\<rparr>]"
    by (simp add: known_state_def named_path_def)
  let ?qt = "\<lparr>qt_Path = Some (named_path ''a''), qt_Destination = None\<rparr> :: (unit, nat) QPartsQuicTracer"
  have "qt_Path ?qt = Some (named_path ''a'')" by simp
  from tracer_counts [where addr = "\<lambda>_. ''r''" and evs = "[SentLongHeaderPacket 1200, LostPacket, SentShortHeaderPacket 50]",
      OF this named_path_id, of known_state, OF m fun_upd_same]
  show ?thesis by (auto simp: NewPathMetrics_def named_path_def simp del: tracer_calls.simps)
qed

text \<open>C32: Recording for a path that the network state does not know panics: path number 0 with its own
  message, any other with a nil dereference.  Nothing in the program adds paths to the state, so in
  the initial state every lost or sent packet of a connection with a path panics the process.\<close>

theorem metrics_panic:
  "(\<forall>f \<in> {AddPacketLoss, AddConnStateRecovery, AddThroughput}.
      f r 0 x n = Inl (ExplicitPanic ''PathId cannot be 0'')
      \<and> (k \<noteq> 0 \<and> GetPathMetrics r k n = None \<longrightarrow> f r k x n = Inl NilDereference))
   \<and> (qt_Path qt \<noteq> None \<and> ev \<notin> {UpdatedCongestionState False, UpdatedMetrics} \<longrightarrow>
      (\<exists>e. tracer_call addr qt ev init_State = Inl e))"
proof -
  have none: "remote_paths r n k = None" if "GetPathMetrics r k n = None" for k
    using that by (auto simp: GetPathMetrics_def remote_paths_def split: option.splits)
  have "\<exists>e. tracer_call addr qt ev init_State = Inl e"
    if "qt_Path qt \<noteq> None" "ev \<notin> {UpdatedCongestionState False, UpdatedMetrics}"
    using that by (cases ev) (auto simp: tracer_call_def AddPacketLoss_def AddConnStateRecovery_def
        AddThroughput_def update_metrics_def deref_def init_State_def remote_paths_def)
  then show ?thesis
    using none by (auto simp: AddPacketLoss_def AddConnStateRecovery_def AddThroughput_def
        update_metrics_def deref_def)
qed

theorem metrics_panic_witness:
  "AddThroughput ''r'' 5 100 (init_State :: nat NetworkState) = Inl NilDereference
   \<and> (\<exists>e. tracer_call (\<lambda>_. ''r'') \<lparr>qt_Path = Some (named_path ''a''), qt_Destination = None :: unit option\<rparr>
        LostPacket init_State = Inl e)"
proof -
  have "GetPathMetrics ''r'' 5 (init_State :: nat NetworkState) = None"
    by (simp add: GetPathMetrics_def init_State_def)
  then show ?thesis
    using metrics_panic [of "''r''" 100 init_State 5 "\<lparr>qt_Path = Some (named_path ''a''), qt_Destination = None\<rparr>"
        LostPacket "\<lambda>_. ''r''"] by auto
qed

text \<open>\<^verbatim>\<open>ActivePaths\<close> returns exactly the paths of the remote whose state is active, one for each
  entry, whatever the order of the map; a remote that is unknown has none, and directly after
  \<^verbatim>\<open>AddRemote\<close> a new remote has none either, because its paths are added as inactive.\<close>

theorem ActivePaths_exact:
  assumes "distinct order" "set order = dom (remote_paths r n)"
    and "\<forall>pm \<in> ran (remote_paths r n). pm_Path pm \<noteq> None"
  shows "(\<exists>ps. ActivePaths order r n = Inr ps
     \<and> set ps = {p. p_State p = QPARTS_PATH_STATE_ACTIVE \<and> (\<exists>pm \<in> ran (remote_paths r n). pm_Path pm = Some p)}
     \<and> length ps = card {k. \<exists>pm p. remote_paths r n k = Some pm \<and> pm_Path pm = Some p
          \<and> p_State p = QPARTS_PATH_STATE_ACTIVE})
   \<and> (net_Remotes n r = None \<and> AddRemote meta answer r n = Inr n' \<and> set order' = dom (remote_paths r n') \<longrightarrow>
        ActivePaths order' r n' = Inr [])"
proof (intro conjI impI)
  let ?m = "remote_paths r n"
  let ?p = "\<lambda>k. the (pm_Path (the (?m k)))"
  have all: "\<forall>k \<in> set order. \<exists>pm p. ?m k = Some pm \<and> pm_Path pm = Some p"
    using assms(2,3) by (fastforce simp: ran_def)
  let ?ps = "filter (\<lambda>p. p_State p = QPARTS_PATH_STATE_ACTIVE) (map ?p order)"
  have "ActivePaths order r n = Inr ?ps" using active_loop_all [OF all] by (simp add: ActivePaths_def)
  moreover have "set ?ps = {p. p_State p = QPARTS_PATH_STATE_ACTIVE \<and> (\<exists>pm \<in> ran ?m. pm_Path pm = Some p)}"
  proof (intro set_eqI iffI)
    fix p
    assume "p \<in> set ?ps"
    then obtain k where k: "k \<in> set order" "p = ?p k" "p_State p = QPARTS_PATH_STATE_ACTIVE" by auto
    with all obtain pm where "?m k = Some pm" "pm_Path pm = Some p" by fastforce
    with k(3) show "p \<in> {p. p_State p = QPARTS_PATH_STATE_ACTIVE \<and> (\<exists>pm \<in> ran ?m. pm_Path pm = Some p)}"
      by (auto intro: ranI)
  next
    fix p
    assume "p \<in> {p. p_State p = QPARTS_PATH_STATE_ACTIVE \<and> (\<exists>pm \<in> ran ?m. pm_Path pm = Some p)}"
    then obtain k pm where "?m k = Some pm" "pm_Path pm = Some p" "p_State p = QPARTS_PATH_STATE_ACTIVE"
      by (auto simp: ran_def)
    moreover from this have "k \<in> set order" using assms(2) by blast
    ultimately show "p \<in> set ?ps" by force
  qed
  moreover have "length ?ps = card {k. \<exists>pm p. ?m k = Some pm \<and> pm_Path pm = Some p
      \<and> p_State p = QPARTS_PATH_STATE_ACTIVE}"
  proof -
    have "length ?ps = length (filter (\<lambda>k. p_State (?p k) = QPARTS_PATH_STATE_ACTIVE) order)"
      by (simp add: filter_map comp_def)
    also have "\<dots> = card (set (filter (\<lambda>k. p_State (?p k) = QPARTS_PATH_STATE_ACTIVE) order))"
      by (rule distinct_card [symmetric]) (simp add: assms(1))
    also have "set (filter (\<lambda>k. p_State (?p k) = QPARTS_PATH_STATE_ACTIVE) order)
        = {k. \<exists>pm p. ?m k = Some pm \<and> pm_Path pm = Some p \<and> p_State p = QPARTS_PATH_STATE_ACTIVE}"
      using all assms(2) by fastforce
    finally show ?thesis .
  qed
  ultimately show "\<exists>ps. ActivePaths order r n = Inr ps
     \<and> set ps = {p. p_State p = QPARTS_PATH_STATE_ACTIVE \<and> (\<exists>pm \<in> ran ?m. pm_Path pm = Some p)}
     \<and> length ps = card {k. \<exists>pm p. ?m k = Some pm \<and> pm_Path pm = Some p \<and> p_State p = QPARTS_PATH_STATE_ACTIVE}"
    by blast
next
  assume a: "net_Remotes n r = None \<and> AddRemote meta answer r n = Inr n' \<and> set order' = dom (remote_paths r n')"
  then obtain res where q: "QueryPaths meta answer = Inr res" by (auto simp: AddRemote_def Let_def go_bind_eq_Inr)
  let ?ps = "case res of Inl err \<Rightarrow> [] | Inr ps \<Rightarrow> ps"
  have m: "remote_paths r n' = foldl (\<lambda>m p. m(p_Id p \<mapsto> NewPathMetrics\<lparr>pm_Path := Some p\<rparr>)) Map.empty ?ps"
    using a q by (auto simp: AddRemote_def Let_def add_paths) (simp add: remote_paths_def)
  have inactive: "p_State p = QPARTS_PATH_STATE_INACTIVE" if "p \<in> set ?ps" for p
    using QueryPaths_states q that by (cases res) auto
  have "\<exists>pm p. remote_paths r n' k = Some pm \<and> pm_Path pm = Some p \<and> p_State p = QPARTS_PATH_STATE_INACTIVE"
    if "k \<in> set order'" for k
  proof -
    from that a obtain pm where "remote_paths r n' k = Some pm" by auto
    with m foldl_paths [of Map.empty ?ps k pm] inactive show ?thesis by auto
  qed
  moreover from this have "active_loop order' (remote_paths r n') = Inr (filter (\<lambda>p. p_State p = QPARTS_PATH_STATE_ACTIVE)
     (map (\<lambda>k. the (pm_Path (the (remote_paths r n' k)))) order'))"
    by (intro active_loop_all) blast
  ultimately show "ActivePaths order' r n' = Inr []"
    unfolding ActivePaths_def
    by (fastforce simp: filter_empty_conv QPARTS_PATH_STATE_ACTIVE_def QPARTS_PATH_STATE_INACTIVE_def)
qed

theorem ActivePaths_exact_witness:
  "\<exists>ps. ActivePaths [stringToUint64 ''a''] ''r'' known_state = Inr ps \<and> set ps = {}"
proof -
  have m: "remote_paths ''r'' known_state = [stringToUint64 ''a'' \<mapsto> NewPathMetrics\<lparr>pm_Path := Some (named_path ''a'')\<rparr>]"
    by (simp add: known_state_def remote_paths_def)
  let ?k = "stringToUint64 ''a''"
  have "distinct [?k]" "set [?k] = dom (remote_paths ''r'' known_state)"
    "\<forall>pm \<in> ran (remote_paths ''r'' known_state). pm_Path pm \<noteq> None"
    by (simp_all add: m)
  from conjunct1 [OF ActivePaths_exact [OF this]] obtain ps where
    "ActivePaths [?k] ''r'' known_state = Inr ps"
    and ps: "set ps = {p. p_State p = QPARTS_PATH_STATE_ACTIVE \<and> (\<exists>pm \<in> ran (remote_paths ''r'' known_state). pm_Path pm = Some p)}"
    by blast
  moreover have "p_State (named_path ''a'') \<noteq> QPARTS_PATH_STATE_ACTIVE"
    by (simp add: named_path_def QPARTS_PATH_STATE_ACTIVE_def)
  moreover have "ran (remote_paths ''r'' known_state) = {NewPathMetrics\<lparr>pm_Path := Some (named_path ''a'')\<rparr>}"
    by (simp add: m)
  moreover from this have "pm_Path pm = Some p \<Longrightarrow> p = named_path ''a''"
    if "pm \<in> ran (remote_paths ''r'' known_state)" for p pm using that by simp
  ultimately have "set ps = {}" unfolding ps by blast
  with \<open>ActivePaths [?k] ''r'' known_state = Inr ps\<close> show ?thesis by blast
qed

end
