(* ===== verification/PathSelection.thy ===== *)
theory PathSelection
  imports Metrics
begin

text \<open>
  The path selection of \<^verbatim>\<open>scheduler_ecmp.go\<close> and the dispatch of \<^verbatim>\<open>scheduler.go\<close>.  The random
  numbers of \<^verbatim>\<open>math/rand\<close> come from the argument \<open>intn\<close>: \<open>intn n g\<close> is the draw below \<open>n\<close> from the
  generator state \<open>g\<close>, and the new state.  The map of metrics is visited in the order given.
\<close>

type_synonym 'g rng = "nat \<Rightarrow> 'g \<Rightarrow> nat \<times> 'g"

section \<open>Filters\<close>

text \<open>\<^verbatim>\<open>paths[0]\<close> panics on an empty slice.\<close>

fun min_hops_loop :: "'m QPartsPath list \<Rightarrow> int \<Rightarrow> int" where
  "min_hops_loop [] minHops = minHops"
| "min_hops_loop (p # ps) minHops = min_hops_loop ps (if p_Hops p < minHops then p_Hops p else minHops)"

definition findMinHops :: "'m QPartsPath list \<Rightarrow> int go" where
  "findMinHops paths = go_bind (go_index paths 0) (\<lambda>p. Inr (min_hops_loop paths (p_Hops p)))"

definition filterPathsByHops :: "'m QPartsPath list \<Rightarrow> int \<Rightarrow> 'm QPartsPath list" where
  "filterPathsByHops paths hops = filter (\<lambda>p. p_Hops p = hops) paths"

fun max_mtu_loop :: "'m QPartsPath list \<Rightarrow> int \<Rightarrow> int" where
  "max_mtu_loop [] maxMTU = maxMTU"
| "max_mtu_loop (p # ps) maxMTU = max_mtu_loop ps (if maxMTU < p_MTU p then p_MTU p else maxMTU)"

definition findMaxMTU :: "'m QPartsPath list \<Rightarrow> int go" where
  "findMaxMTU paths = go_bind (go_index paths 0) (\<lambda>p. Inr (max_mtu_loop paths (p_MTU p)))"

definition filterPathsByMTU :: "'m QPartsPath list \<Rightarrow> int \<Rightarrow> 'm QPartsPath \<Rightarrow> 'm QPartsPath list" where
  "filterPathsByMTU paths mtu exclude = filter (\<lambda>p. p_MTU p = mtu \<and> p_Id p \<noteq> p_Id exclude) paths"

definition excludePath :: "'m QPartsPath list \<Rightarrow> 'm QPartsPath list \<Rightarrow> 'm QPartsPath list" where
  "excludePath paths exclude =
     (let excludeMap = foldl (\<lambda>m p. m(p_Id p \<mapsto> True)) Map.empty exclude in
      filter (\<lambda>p. excludeMap (p_Id p) \<noteq> Some True) paths)"

definition selectRandomPath :: "'g rng \<Rightarrow> 'm QPartsPath list \<Rightarrow> 'g \<Rightarrow> ('m QPartsPath \<times> 'g) go" where
  "selectRandomPath intn paths g =
     (if paths = [] then Inl (ExplicitPanic ''invalid argument to Intn'')
      else let (i, g') = intn (length paths) g in
        go_bind (go_index paths i) (\<lambda>p. Inr (p, g')))"

text \<open>\<^verbatim>\<open>rand.Shuffle\<close>: for every \<open>i\<close> from the last down to 1, swap with a draw below \<open>i + 1\<close>.\<close>

definition swap :: "nat \<Rightarrow> nat \<Rightarrow> 'a list \<Rightarrow> 'a list" where
  "swap i j xs = xs[i := xs ! j, j := xs ! i]"

fun shuffle_loop :: "'g rng \<Rightarrow> nat \<Rightarrow> 'a list \<Rightarrow> 'g \<Rightarrow> 'a list \<times> 'g" where
  "shuffle_loop intn 0 xs g = (xs, g)"
| "shuffle_loop intn (Suc i) xs g =
     (let (j, g') = intn (Suc i + 1) g in shuffle_loop intn i (swap (Suc i) j xs) g')"

definition shufflePaths :: "'g rng \<Rightarrow> 'a list \<Rightarrow> 'g \<Rightarrow> 'a list \<times> 'g" where
  "shufflePaths intn paths g = shuffle_loop intn (length paths - 1) paths g"

definition selectTopN :: "'m QPartsPath list \<Rightarrow> nat \<Rightarrow> 'm QPartsPath list" where
  "selectTopN paths n = (let n = (if n > length paths then length paths else n) in take n paths)"

section \<open>Selection\<close>

text \<open>
  The paths behind the pointers: a nil pointer is dereferenced in every case, at the latest by
  \<^verbatim>\<open>InitialPathSelection\<close>.
\<close>

fun deref_all :: "'a option list \<Rightarrow> 'a list go" where
  "deref_all [] = Inr []"
| "deref_all (None # xs) = Inl NilDereference"
| "deref_all (Some x # xs) = go_bind (deref_all xs) (\<lambda>ys. Inr (x # ys))"

definition selectLowLatencyAndHighThroughputPaths ::
  "'g rng \<Rightarrow> 'm QPartsPath list \<Rightarrow> 'g \<Rightarrow> ('m QPartsPath \<times> 'm QPartsPath list \<times> 'g) go" where
  "selectLowLatencyAndHighThroughputPaths intn paths g =
     (case paths of
        [p] \<Rightarrow> Inr (p, [], g)
      | [p, q] \<Rightarrow> Inr (p, [q], g)
      | _ \<Rightarrow>
          go_bind (findMinHops paths) (\<lambda>minHops.
          go_bind (selectRandomPath intn (filterPathsByHops paths minHops) g) (\<lambda>(lowLatency, g1).
          go_bind (findMaxMTU paths) (\<lambda>maxMTU.
            let (candidates, g2) = shufflePaths intn (filterPathsByMTU paths maxMTU lowLatency) g1;
                highThroughput = selectTopN candidates 2
            in if length highThroughput < 2 then
                 (let (additional, g3) = shufflePaths intn
                        (excludePath paths (highThroughput @ [lowLatency])) g2
                  in Inr (lowLatency, highThroughput @ selectTopN additional (2 - length highThroughput), g3))
               else Inr (lowLatency, highThroughput, g2)))))"

text \<open>\<^verbatim>\<open>r[id].Path.Pref = ...; r[id].Path.State = ...\<close>\<close>

definition mark_path :: "u64 \<Rightarrow> int \<Rightarrow> (u64 \<rightharpoonup> 'm PathMetrics) \<Rightarrow> (u64 \<rightharpoonup> 'm PathMetrics) go" where
  "mark_path i pref r =
     (case r i of
        None \<Rightarrow> Inl NilDereference
      | Some pm \<Rightarrow>
          (case pm_Path pm of
             None \<Rightarrow> Inl NilDereference
           | Some p \<Rightarrow> Inr (r(i \<mapsto> pm\<lparr>pm_Path :=
               Some (p\<lparr>p_Pref := pref, p_State := QPARTS_PATH_STATE_ACTIVE\<rparr>)\<rparr>))))"

fun mark_all :: "'m QPartsPath list \<Rightarrow> int \<Rightarrow> (u64 \<rightharpoonup> 'm PathMetrics) \<Rightarrow> (u64 \<rightharpoonup> 'm PathMetrics) go" where
  "mark_all [] pref r = Inr r"
| "mark_all (p # ps) pref r = go_bind (mark_path (p_Id p) pref r) (mark_all ps pref)"

definition ECMP_InitialPathSelection ::
  "'g rng \<Rightarrow> u64 list \<Rightarrow> string \<Rightarrow> 'm NetworkState \<Rightarrow> 'g \<Rightarrow> ('m NetworkState \<times> 'g) go" where
  "ECMP_InitialPathSelection intn order remote n g =
     go_bind (deref_all (ToPathSlice order remote n)) (\<lambda>paths.
     go_bind (selectLowLatencyAndHighThroughputPaths intn paths g) (\<lambda>(low, high, g1).
     go_bind (mark_path (p_Id low) QPARTS_PATH_PREF_LOW_LATENCY (remote_paths remote n)) (\<lambda>r1.
     go_bind (mark_all high QPARTS_PATH_PREF_HIGH_THROUGHPUT r1) (\<lambda>r2.
       Inr (n\<lparr>net_Remotes := (net_Remotes n)(remote \<mapsto> r2)\<rparr>, g1)))))"

section \<open>The scheduler\<close>

text \<open>The plugins the code has: the ECMP scheduler with its index.\<close>

datatype plugin = SchedulerECMP (ecmp_index: int)

definition NewSchedulerECMP :: plugin where
  "NewSchedulerECMP = SchedulerECMP 0"

record Scheduler =
  sched_plugins :: "plugin list"
  sched_activePlugin :: "plugin option"

definition ActivatePlugin :: "plugin \<Rightarrow> Scheduler \<Rightarrow> Scheduler" where
  "ActivatePlugin p s = s\<lparr>sched_plugins := sched_plugins s @ [p], sched_activePlugin := Some p\<rparr>"

definition NewScheduler :: Scheduler where
  "NewScheduler = ActivatePlugin NewSchedulerECMP \<lparr>sched_plugins = [], sched_activePlugin = None\<rparr>"

text \<open>The ECMP plugin does nothing on a new stream, a probe interval, congestion, or a path change.\<close>

definition ECMP_OnNewStream :: "string \<Rightarrow> u32 \<Rightarrow> 'm NetworkState \<Rightarrow> 'm NetworkState" where
  "ECMP_OnNewStream remote preference n = n"

definition ECMP_OnPathProbeInterval :: "string \<Rightarrow> 'm NetworkState \<Rightarrow> 'm NetworkState" where
  "ECMP_OnPathProbeInterval remote n = n"

definition ECMP_OnPathDown :: "string \<Rightarrow> u64 \<Rightarrow> 'm NetworkState \<Rightarrow> 'm NetworkState" where
  "ECMP_OnPathDown remote pathId n = n"

definition ECMP_OnPathAdd :: "string \<Rightarrow> u64 \<Rightarrow> 'm NetworkState \<Rightarrow> 'm NetworkState" where
  "ECMP_OnPathAdd remote pathId n = n"

definition ECMP_OnCongestionEvent :: "('a, 'm, 'f) CongestionEvent \<Rightarrow> 'm NetworkState \<Rightarrow> 'm NetworkState" where
  "ECMP_OnCongestionEvent event n = n"

definition via_plugin :: "('m NetworkState \<Rightarrow> 'm NetworkState) \<Rightarrow> Scheduler \<Rightarrow> 'm NetworkState \<Rightarrow> 'm NetworkState go" where
  "via_plugin f s n = (case sched_activePlugin s of None \<Rightarrow> Inl NilDereference | Some (SchedulerECMP _) \<Rightarrow> Inr (f n))"

definition sched_OnNewStream :: "string \<Rightarrow> u32 \<Rightarrow> Scheduler \<Rightarrow> 'm NetworkState \<Rightarrow> 'm NetworkState go" where
  "sched_OnNewStream remote preference = via_plugin (ECMP_OnNewStream remote preference)"

text \<open>This is what the code does: it calls \<^verbatim>\<open>OnNewStream\<close>.\<close>

definition sched_InitialPathSelection :: "string \<Rightarrow> u32 \<Rightarrow> Scheduler \<Rightarrow> 'm NetworkState \<Rightarrow> 'm NetworkState go" where
  "sched_InitialPathSelection remote preference = via_plugin (ECMP_OnNewStream remote preference)"

definition sched_OnPathProbeInterval :: "string \<Rightarrow> Scheduler \<Rightarrow> 'm NetworkState \<Rightarrow> 'm NetworkState go" where
  "sched_OnPathProbeInterval remote = via_plugin (ECMP_OnPathProbeInterval remote)"

definition sched_OnCongestionEvent :: "('a, 'm, 'f) CongestionEvent \<Rightarrow> Scheduler \<Rightarrow> 'm NetworkState \<Rightarrow> 'm NetworkState go" where
  "sched_OnCongestionEvent event = via_plugin (ECMP_OnCongestionEvent event)"

definition sched_OnPathDown :: "string \<Rightarrow> u64 \<Rightarrow> Scheduler \<Rightarrow> 'm NetworkState \<Rightarrow> 'm NetworkState go" where
  "sched_OnPathDown remote pathId = via_plugin (ECMP_OnPathDown remote pathId)"

definition sched_OnPathAdd :: "string \<Rightarrow> u64 \<Rightarrow> Scheduler \<Rightarrow> 'm NetworkState \<Rightarrow> 'm NetworkState go" where
  "sched_OnPathAdd remote pathId = via_plugin (ECMP_OnPathAdd remote pathId)"

section \<open>Lemmas\<close>

definition fair_rng :: "'g rng \<Rightarrow> bool" where
  "fair_rng intn \<longleftrightarrow> (\<forall>n g. 0 < n \<longrightarrow> fst (intn n g) < n)"

lemma mset_swap: "i < length xs \<Longrightarrow> j < length xs \<Longrightarrow> mset (swap i j xs) = mset xs"
  by (simp add: swap_def mset_swap)

lemma shuffle_loop_mset:
  assumes "fair_rng intn"
  shows "i < length xs \<or> i = 0 \<Longrightarrow> mset (fst (shuffle_loop intn i xs g)) = mset xs"
proof (induction i arbitrary: xs g)
  case (Suc i)
  obtain j g' where j: "intn (Suc i + 1) g = (j, g')" by (cases "intn (Suc i + 1) g")
  have "j < Suc i + 1" using assms j unfolding fair_rng_def by (metis fst_conv zero_less_Suc add.commute plus_1_eq_Suc)
  then have "mset (swap (Suc i) j xs) = mset xs" using Suc.prems by (intro mset_swap) auto
  moreover have "length (swap (Suc i) j xs) = length xs" by (simp add: swap_def)
  ultimately show ?case using Suc.IH [of "swap (Suc i) j xs" g'] Suc.prems j by simp
qed simp

lemma shufflePaths_mset: "fair_rng intn \<Longrightarrow> shufflePaths intn xs g = (ys, g') \<Longrightarrow> mset ys = mset xs"
  using shuffle_loop_mset [of intn "length xs - 1" xs g] by (cases xs) (auto simp: shufflePaths_def)

lemma min_hops_loop:
  "min_hops_loop ps m \<le> m \<and> (\<forall>p \<in> set ps. min_hops_loop ps m \<le> p_Hops p)
   \<and> (min_hops_loop ps m = m \<or> (\<exists>p \<in> set ps. p_Hops p = min_hops_loop ps m))"
proof (induction ps arbitrary: m)
  case (Cons p ps)
  show ?case
  proof (cases "p_Hops p < m")
    case True
    then show ?thesis using Cons.IH [of "p_Hops p"] by force
  next
    case False
    then show ?thesis using Cons.IH [of m] by force
  qed
qed simp

lemma max_mtu_loop:
  "m \<le> max_mtu_loop ps m \<and> (\<forall>p \<in> set ps. p_MTU p \<le> max_mtu_loop ps m)
   \<and> (max_mtu_loop ps m = m \<or> (\<exists>p \<in> set ps. p_MTU p = max_mtu_loop ps m))"
proof (induction ps arbitrary: m)
  case (Cons p ps)
  show ?case
  proof (cases "m < p_MTU p")
    case True
    then show ?thesis using Cons.IH [of "p_MTU p"] by force
  next
    case False
    then show ?thesis using Cons.IH [of m] by force
  qed
qed simp

lemma findMinHops_least:
  assumes "ps \<noteq> []"
  obtains h where "findMinHops ps = Inr h" and "\<forall>p \<in> set ps. h \<le> p_Hops p" and "\<exists>p \<in> set ps. p_Hops p = h"
proof
  let ?h = "min_hops_loop ps (p_Hops (hd ps))"
  show "findMinHops ps = Inr ?h"
    using assms by (simp add: findMinHops_def go_index_def hd_conv_nth)
  show "\<forall>p \<in> set ps. ?h \<le> p_Hops p" "\<exists>p \<in> set ps. p_Hops p = ?h"
    using min_hops_loop [of ps "p_Hops (hd ps)"] assms hd_in_set by metis+
qed

lemma findMaxMTU_greatest:
  assumes "ps \<noteq> []"
  obtains h where "findMaxMTU ps = Inr h" and "\<forall>p \<in> set ps. p_MTU p \<le> h" and "\<exists>p \<in> set ps. p_MTU p = h"
proof
  let ?h = "max_mtu_loop ps (p_MTU (hd ps))"
  show "findMaxMTU ps = Inr ?h"
    using assms by (simp add: findMaxMTU_def go_index_def hd_conv_nth)
  show "\<forall>p \<in> set ps. p_MTU p \<le> ?h" "\<exists>p \<in> set ps. p_MTU p = ?h"
    using max_mtu_loop [of "p_MTU (hd ps)" ps] assms hd_in_set by metis+
qed

lemma selectRandomPath_in:
  assumes "fair_rng intn" "ps \<noteq> []"
  obtains p g' where "selectRandomPath intn ps g = Inr (p, g')" and "p \<in> set ps"
proof -
  obtain i g' where i: "intn (length ps) g = (i, g')" by (cases "intn (length ps) g")
  with assms have "i < length ps" unfolding fair_rng_def by (metis fst_conv length_greater_0_conv)
  with assms i show ?thesis by (intro that [of "ps ! i" g']) (simp_all add: selectRandomPath_def go_index_def)
qed

lemma excludePath_filter: "excludePath ps ex = filter (\<lambda>p. p_Id p \<notin> p_Id ` set ex) ps"
proof -
  have "foldl (\<lambda>m p. m(p_Id p \<mapsto> True)) m ex k = Some True \<longleftrightarrow> m k = Some True \<or> k \<in> p_Id ` set ex"
    for m :: "u64 \<Rightarrow> bool option" and k by (induction ex arbitrary: m) auto
  then show ?thesis by (auto simp: excludePath_def intro: filter_cong)
qed

lemma selectTopN_take: "selectTopN ps n = take n ps"
  by (simp add: selectTopN_def)

text \<open>A shuffled filter of a list of paths with different numbers, cut to \<open>n\<close>.\<close>

lemma shuffled_top:
  assumes "fair_rng intn" "distinct (map p_Id ps)" "shufflePaths intn (filter P ps) g = (ys, g')"
  shows "distinct (map p_Id (selectTopN ys n))" and "set (selectTopN ys n) \<subseteq> {p \<in> set ps. P p}"
    and "length (selectTopN ys n) = min n (length (filter P ps))"
    and "n < length (filter P ps) \<or> set (selectTopN ys n) = {p \<in> set ps. P p}"
proof -
  have m: "mset ys = mset (filter P ps)" by (rule shufflePaths_mset [OF assms(1,3)])
  then have s: "set ys = {p \<in> set ps. P p}" by (metis set_filter set_mset_mset)
  have l: "length ys = length (filter P ps)" by (metis m size_mset)
  have "mset (map p_Id ys) = mset (map p_Id (filter P ps))" by (simp add: m)
  moreover have "distinct (map p_Id (filter P ps))" using assms(2) by (simp add: distinct_map_filter)
  ultimately have "distinct (map p_Id ys)" by (metis mset_eq_imp_distinct_iff)
  then show "distinct (map p_Id (selectTopN ys n))" 
    unfolding selectTopN_take take_map [symmetric] by (rule distinct_take)
  show "set (selectTopN ys n) \<subseteq> {p \<in> set ps. P p}" using set_take_subset [of n ys] unfolding s selectTopN_take .
  show "length (selectTopN ys n) = min n (length (filter P ps))" by (simp add: selectTopN_take l)
  show "n < length (filter P ps) \<or> set (selectTopN ys n) = {p \<in> set ps. P p}"
  proof (cases "n < length (filter P ps)")
    case False
    then have "selectTopN ys n = ys" by (simp add: selectTopN_take l)
    then show ?thesis by (simp only: s simp_thms)
  qed simp
qed

lemma other_ids_length:
  assumes "distinct (map p_Id ps)" "I \<subseteq> p_Id ` set ps"
  shows "length (filter (\<lambda>q. p_Id q \<notin> I) ps) = length ps - card I"
proof -
  have "length (filter (\<lambda>q. p_Id q \<notin> I) ps) = length (filter (\<lambda>k. k \<notin> I) (map p_Id ps))"
    by (simp add: filter_map comp_def)
  also have "\<dots> = card (set (filter (\<lambda>k. k \<notin> I) (map p_Id ps)))"
    by (rule distinct_card [symmetric]) (rule distinct_filter [OF assms(1)])
  also have "set (filter (\<lambda>k. k \<notin> I) (map p_Id ps)) = set (map p_Id ps) - I" by auto
  also have "card (set (map p_Id ps) - I) = card (set (map p_Id ps)) - card I"
    using assms(2) by (intro card_Diff_subset) (simp_all add: finite_subset)
  also have "card (set (map p_Id ps)) = length ps" using distinct_card [OF assms(1)] by simp
  finally show ?thesis .
qed

lemma select_many:
  assumes "3 \<le> length paths"
  shows "selectLowLatencyAndHighThroughputPaths intn paths g =
          go_bind (findMinHops paths) (\<lambda>minHops.
          go_bind (selectRandomPath intn (filterPathsByHops paths minHops) g) (\<lambda>(lowLatency, g1).
          go_bind (findMaxMTU paths) (\<lambda>maxMTU.
            let (candidates, g2) = shufflePaths intn (filterPathsByMTU paths maxMTU lowLatency) g1;
                highThroughput = selectTopN candidates 2
            in if length highThroughput < 2 then
                 (let (additional, g3) = shufflePaths intn
                        (excludePath paths (highThroughput @ [lowLatency])) g2
                  in Inr (lowLatency, highThroughput @ selectTopN additional (2 - length highThroughput), g3))
               else Inr (lowLatency, highThroughput, g2))))"
proof -
  obtain x y z ps where "paths = x # y # z # ps"
    using assms by (metis Suc_le_length_iff numeral_3_eq_3)
  then show ?thesis unfolding selectLowLatencyAndHighThroughputPaths_def by (simp only: list.case)
qed

section \<open>Properties\<close>

definition selected :: "'m QPartsPath list \<Rightarrow> 'm QPartsPath \<Rightarrow> 'm QPartsPath list \<Rightarrow> bool" where
  "selected paths low high \<longleftrightarrow>
     low \<in> set paths \<and> set high \<subseteq> set paths \<and> length high = 2 \<and> distinct (map p_Id (low # high))
     \<and> (\<forall>p \<in> set paths. p_Hops low \<le> p_Hops p)
     \<and> (\<forall>p \<in> set paths. (\<forall>q \<in> set paths. p_MTU q \<le> p_MTU p) \<and> p \<noteq> low \<and> p \<notin> set high
          \<longrightarrow> (\<forall>h \<in> set high. p_MTU h = p_MTU p))"

lemma selects_many:
  assumes "fair_rng intn" "distinct (map p_Id paths)" "3 \<le> length paths"
  shows "\<exists>low high g'. selectLowLatencyAndHighThroughputPaths intn paths g = Inr (low, high, g')
     \<and> selected paths low high"
proof -
  from assms(3) have ne: "paths \<noteq> []" by auto
  obtain h where h: "findMinHops paths = Inr h" "\<forall>p \<in> set paths. h \<le> p_Hops p" "\<exists>p \<in> set paths. p_Hops p = h"
    using findMinHops_least [OF ne] by blast
  then have "filterPathsByHops paths h \<noteq> []" by (auto simp: filterPathsByHops_def filter_empty_conv)
  from selectRandomPath_in [OF assms(1) this] obtain low g1 where
    low: "selectRandomPath intn (filterPathsByHops paths h) g = Inr (low, g1)" "low \<in> set (filterPathsByHops paths h)"
    by blast
  obtain u where u: "findMaxMTU paths = Inr u" "\<forall>p \<in> set paths. p_MTU p \<le> u" "\<exists>p \<in> set paths. p_MTU p = u"
    using findMaxMTU_greatest [OF ne] by blast
  let ?P = "\<lambda>p. p_MTU p = u \<and> p_Id p \<noteq> p_Id low"
  obtain cands g2 where c: "shufflePaths intn (filter ?P paths) g1 = (cands, g2)"
    by (cases "shufflePaths intn (filter ?P paths) g1")
  let ?top = "selectTopN cands 2"
  note top = shuffled_top [OF assms(1,2) c, of 2]
  have inL: "low \<in> set paths" "\<forall>p \<in> set paths. p_Hops low \<le> p_Hops p"
    using low(2) h by (auto simp: filterPathsByHops_def)
  have run: "selectLowLatencyAndHighThroughputPaths intn paths g =
    (if length ?top < 2 then
       (let (additional, g3) = shufflePaths intn (excludePath paths (?top @ [low])) g2
        in Inr (low, ?top @ selectTopN additional (2 - length ?top), g3))
     else Inr (low, ?top, g2))"
    unfolding select_many [OF assms(3)] h(1) u(1) go_bind_Inr low(1) prod.case filterPathsByMTU_def c Let_def ..
  have "\<exists>high g'. selectLowLatencyAndHighThroughputPaths intn paths g = Inr (low, high, g') \<and> selected paths low high"
  proof (cases "length ?top < 2")
    case False
    then have "length ?top = 2" by (simp add: selectTopN_take)
    moreover have "set ?top \<subseteq> set paths" "distinct (map p_Id (low # ?top))" using top(1,2) by auto
    moreover have "\<forall>p \<in> set paths. (\<forall>q \<in> set paths. p_MTU q \<le> p_MTU p) \<and> p \<noteq> low \<and> p \<notin> set ?top
        \<longrightarrow> (\<forall>h \<in> set ?top. p_MTU h = p_MTU p)"
    proof (intro ballI impI, elim conjE)
      fix p h
      assume p: "p \<in> set paths" "\<forall>q \<in> set paths. p_MTU q \<le> p_MTU p" "h \<in> set ?top"
      then have "p_MTU p = u" using u(2,3) by (metis order_antisym)
      moreover from p(3) top(2) have "p_MTU h = u" by blast
      ultimately show "p_MTU h = p_MTU p" by simp
    qed
    ultimately have "selected paths low ?top" unfolding selected_def using inL by blast
    moreover from run False have "selectLowLatencyAndHighThroughputPaths intn paths g = Inr (low, ?top, g2)"
      by (simp only: if_False)
    ultimately show ?thesis by blast
  next
    case True
    let ?Q = "\<lambda>p. p_Id p \<notin> p_Id ` set (?top @ [low])"
    obtain add g3 where a: "shufflePaths intn (filter ?Q paths) g2 = (add, g3)"
      by (cases "shufflePaths intn (filter ?Q paths) g2")
    let ?add = "selectTopN add (2 - length ?top)"
    note rest = shuffled_top [OF assms(1,2) a, of "2 - length ?top"]
    have all: "set ?top = {p \<in> set paths. ?P p}" using top(3,4) True by linarith
    have "set (?top @ [low]) \<subseteq> set paths" using top(2) inL(1) by force
    then have ids: "p_Id ` set (?top @ [low]) \<subseteq> p_Id ` set paths" by (rule image_mono)
    have "p_Id low \<notin> p_Id ` set ?top" using top(2) by force
    then have dist: "distinct (map p_Id (?top @ [low]))" using top(1) by simp
    have "card (p_Id ` set (?top @ [low])) = length ?top + 1"
      using distinct_card [OF dist] by simp
    then have "length (filter ?Q paths) = length paths - (length ?top + 1)"
      using other_ids_length [OF assms(2) ids] by simp
    then have len: "length ?add = 2 - length ?top" using rest(3) assms(3) True by simp
    have "p_Id ` set ?add \<inter> p_Id ` set (?top @ [low]) = {}" using rest(2) by blast
    then have "distinct (map p_Id (low # ?top @ ?add))" using dist rest(1) by (simp add: Int_Un_distrib inf_commute)
    moreover have "set (?top @ ?add) \<subseteq> set paths" using top(2) rest(2) by force
    moreover have "\<forall>p \<in> set paths. (\<forall>q \<in> set paths. p_MTU q \<le> p_MTU p) \<and> p \<noteq> low \<and> p \<notin> set (?top @ ?add)
        \<longrightarrow> (\<forall>h \<in> set (?top @ ?add). p_MTU h = p_MTU p)"
    proof (intro ballI impI, elim conjE)
      fix p h
      assume p: "p \<in> set paths" "\<forall>q \<in> set paths. p_MTU q \<le> p_MTU p" "p \<noteq> low" "p \<notin> set (?top @ ?add)"
      then have "p_MTU p = u" using u(2,3) by (metis order_antisym)
      moreover have "p_Id p \<noteq> p_Id low" using p(1,3) inL(1) assms(2) by (auto simp: distinct_map dest: inj_onD)
      ultimately have "p \<in> set ?top" unfolding all using p(1) by blast
      with p(4) show "p_MTU h = p_MTU p" by simp
    qed
    moreover have "length (?top @ ?add) = 2" using len True by simp
    ultimately have "selected paths low (?top @ ?add)" unfolding selected_def using inL by blast
    moreover from run True have "selectLowLatencyAndHighThroughputPaths intn paths g = Inr (low, ?top @ ?add, g3)"
      by (simp only: if_True excludePath_filter a Let_def prod.case)
    ultimately show ?thesis by blast
  qed
  then show ?thesis by blast
qed

text \<open>C16: From at least three paths with different numbers the selection never fails, whatever the
  random numbers: it picks one path with the fewest hops for latency and two others, different from it
  and from each other, for throughput; a path with the largest MTU is only left out when both of
  those have that MTU.  With one path there is no throughput path, with two the first is for latency
  and the second for throughput whatever their hops, and with no path at all the index panics.\<close>

theorem paths_selected:
  assumes "fair_rng intn" "distinct (map p_Id paths)" "3 \<le> length paths"
  shows "(\<exists>low high g'. selectLowLatencyAndHighThroughputPaths intn paths g = Inr (low, high, g')
      \<and> selected paths low high)
   \<and> selectLowLatencyAndHighThroughputPaths intn [p] g = Inr (p, [], g)
   \<and> selectLowLatencyAndHighThroughputPaths intn [p, q] g = Inr (p, [q], g)
   \<and> selectLowLatencyAndHighThroughputPaths intn [] g = Inl IndexOutOfRange"
  using selects_many [OF assms] by (simp add: selectLowLatencyAndHighThroughputPaths_def findMinHops_def go_index_def)

theorem paths_selected_witness:
  "\<exists>low high g'. selectLowLatencyAndHighThroughputPaths (\<lambda>n g. (0, g)) (map named_path [''a'', ''b'', ''c'']) () = Inr (low, high, g')
     \<and> selected (map named_path [''a'', ''b'', ''c'']) low high"
proof -
  have "fair_rng (\<lambda>n g :: unit. (0, g))" by (simp add: fair_rng_def)
  moreover have "distinct (map p_Id (map named_path [''a'', ''b'', ''c'']))"
    by (simp add: named_path_def) code_simp
  moreover have "3 \<le> length (map named_path [''a'', ''b'', ''c''])" by simp
  ultimately show ?thesis by (rule paths_selected [THEN conjunct1])
qed

section \<open>Marking the selected paths\<close>

definition mark :: "int \<Rightarrow> 'm PathMetrics \<Rightarrow> 'm PathMetrics" where
  "mark pref pm = pm\<lparr>pm_Path := map_option (\<lambda>p. p\<lparr>p_Pref := pref, p_State := QPARTS_PATH_STATE_ACTIVE\<rparr>) (pm_Path pm)\<rparr>"

lemma mark_mark [simp]: "mark pref (mark pref' pm) = mark pref pm"
  by (cases "pm_Path pm") (simp_all add: mark_def)

lemma mark_path_ok:
  "r i = Some pm \<Longrightarrow> pm_Path pm \<noteq> None \<Longrightarrow> mark_path i pref r = Inr (r(i \<mapsto> mark pref pm))"
  by (auto simp: mark_path_def mark_def)

lemma mark_all_ok:
  "\<forall>p \<in> set ps. \<exists>pm. r (p_Id p) = Some pm \<and> pm_Path pm \<noteq> None \<Longrightarrow>
     mark_all ps pref r = Inr (\<lambda>k. if k \<in> p_Id ` set ps then map_option (mark pref) (r k) else r k)"
proof (induction ps arbitrary: r)
  case (Cons p ps)
  then obtain pm where pm: "r (p_Id p) = Some pm" "pm_Path pm \<noteq> None" by auto
  let ?r = "r(p_Id p \<mapsto> mark pref pm)"
  have "\<forall>q \<in> set ps. \<exists>pm. ?r (p_Id q) = Some pm \<and> pm_Path pm \<noteq> None"
    using Cons.prems pm(2) by (auto simp: mark_def)
  note IH = Cons.IH [OF this]
  have "(\<lambda>k. if k \<in> p_Id ` set ps then map_option (mark pref) (?r k) else ?r k)
      = (\<lambda>k. if k \<in> p_Id ` set (p # ps) then map_option (mark pref) (r k) else r k)"
    using pm(1) by (auto simp: fun_eq_iff)
  with IH show ?case unfolding mark_all.simps mark_path_ok [of r "p_Id p" pm pref, OF pm] go_bind_Inr by (simp only:)
qed simp

lemma deref_all_ok: "deref_all (map Some xs) = Inr xs"
  by (induction xs) simp_all

definition path_of :: "(u64 \<rightharpoonup> 'm PathMetrics) \<Rightarrow> u64 \<Rightarrow> 'm QPartsPath" where
  "path_of m k = the (pm_Path (the (m k)))"

text \<open>The metrics of a remote as \<^verbatim>\<open>AddRemote\<close> builds them: every entry has its path, under its number.\<close>

definition well_keyed :: "(u64 \<rightharpoonup> 'm PathMetrics) \<Rightarrow> bool" where
  "well_keyed m \<longleftrightarrow> (\<forall>k \<in> dom m. \<exists>p. pm_Path (the (m k)) = Some p \<and> p_Id p = k)"

lemma well_keyedE:
  assumes "well_keyed m" "k \<in> dom m"
  obtains pm p where "m k = Some pm" and "pm_Path pm = Some p" and "p_Id p = k" and "path_of m k = p"
proof -
  from assms(2) obtain pm where pm: "m k = Some pm" by blast
  with assms obtain p where "pm_Path pm = Some p" "p_Id p = k" unfolding well_keyed_def by (metis option.sel)
  with pm show ?thesis by (intro that) (simp_all add: path_of_def)
qed

lemma ToPathSlice_keyed:
  assumes "well_keyed (remote_paths r n)" "set order \<subseteq> dom (remote_paths r n)"
  shows "ToPathSlice order r n = map Some (map (path_of (remote_paths r n)) order)"
    and "map p_Id (map (path_of (remote_paths r n)) order) = order"
proof -
  from assms have k: "\<exists>pm p. remote_paths r n k = Some pm \<and> pm_Path pm = Some p \<and> p_Id p = k" if "k \<in> set order" for k
    using that assms by (meson well_keyedE subsetD)
  then show "ToPathSlice order r n = map Some (map (path_of (remote_paths r n)) order)"
    unfolding ToPathSlice_def by (induction order) (fastforce simp: List.map_filter_def path_of_def)+
  show "map p_Id (map (path_of (remote_paths r n)) order) = order"
    using k by (intro nth_equalityI) (force simp: path_of_def dest: nth_mem)+
qed

text \<open>After marking the entries numbered by \<open>S\<close>, and only those, just they are active.\<close>

lemma active_marked:
  assumes "well_keyed m" "set order = dom m" "distinct order" "active_loop order m = Inr []"
    and "S \<subseteq> set order" "\<And>k. k \<in> S \<Longrightarrow> \<exists>pref. f k = mark pref" "\<And>k. k \<notin> S \<Longrightarrow> f k = id"
  shows "\<exists>ps. active_loop order (\<lambda>k. map_option (f k) (m k)) = Inr ps \<and> length ps = card S \<and> p_Id ` set ps = S"
proof -
  define m2 where "m2 k = map_option (f k) (m k)" for k
  let ?act = "\<lambda>p. p_State p = QPARTS_PATH_STATE_ACTIVE"
  have known: "\<exists>pm p. m k = Some pm \<and> pm_Path pm = Some p \<and> p_Id p = k \<and> path_of m k = p" if "k \<in> set order" for k
    using well_keyedE [OF assms(1)] that assms(2) by metis
  then have "active_loop order m = Inr (filter ?act (map (path_of m) order))"
    unfolding path_of_def by (intro active_loop_all) blast
  with assms(4) have inactive: "\<not> ?act (path_of m k)" if "k \<in> set order" for k
    using that by (simp add: filter_empty_conv)
  have one: "(\<exists>pm p. m2 k = Some pm \<and> pm_Path pm = Some p) \<and> p_Id (path_of m2 k) = k
      \<and> (?act (path_of m2 k) \<longleftrightarrow> k \<in> S)" if in_order: "k \<in> set order" for k
  proof -
    obtain pm p where k: "m k = Some pm" "pm_Path pm = Some p" "p_Id p = k" "path_of m k = p"
      using known [OF in_order] by blast
    show ?thesis
    proof (cases "k \<in> S")
      case True
      then obtain pref where "f k = mark pref" using assms(6) by blast
      with k True show ?thesis by (simp add: m2_def path_of_def mark_def)
    next
      case False
      with assms(7) have "f k = id" by blast
      with k False inactive [OF in_order] show ?thesis by (simp add: m2_def path_of_def)
    qed
  qed
  let ?ks = "filter (\<lambda>k. k \<in> S) order"
  have "active_loop order m2 = Inr (filter ?act (map (path_of m2) order))"
    unfolding path_of_def using one by (intro active_loop_all) blast
  also have "filter ?act (map (path_of m2) order) = map (path_of m2) (filter (\<lambda>k. ?act (path_of m2 k)) order)"
    by (simp only: filter_map comp_def)
  also have "filter (\<lambda>k. ?act (path_of m2 k)) order = ?ks"
    by (rule filter_cong [OF refl]) (use one in blast)
  finally have run: "active_loop order m2 = Inr (map (path_of m2) ?ks)" .
  have ks: "set ?ks = S" using assms(5) by auto
  have "(\<lambda>k. p_Id (path_of m2 k)) ` set ?ks = (\<lambda>k. k) ` set ?ks"
    by (rule image_cong [OF refl]) (use one in simp)
  then have "p_Id ` set (map (path_of m2) ?ks) = S" unfolding set_map image_image image_ident ks .
  moreover have "length ?ks = card S" using distinct_card [of ?ks] assms(3) unfolding ks by simp
  moreover from this have "length (map (path_of m2) ?ks) = card S" by (simp only: length_map)
  moreover have "m2 = (\<lambda>k. map_option (f k) (m k))" by (rule ext) (rule m2_def)
  ultimately show ?thesis using run by (metis (no_types, lifting))
qed

text \<open>When the ECMP scheduler's own \<^verbatim>\<open>InitialPathSelection\<close> runs on a remote with at least three known
  paths, it marks the one path selected for latency and the two selected for throughput as active with
  their preferences, and changes no other path and no other remote.  If no path was active before, then
  afterwards \<^verbatim>\<open>ActivePaths\<close> returns just those three.\<close>

theorem InitialPathSelection_marks:
  assumes "fair_rng intn" "distinct order" "set order = dom (remote_paths r n)" "3 \<le> length order"
    and "well_keyed (remote_paths r n)"
  shows "\<exists>low high g' n'. ECMP_InitialPathSelection intn order r n g = Inr (n', g')
     \<and> selected (map (path_of (remote_paths r n)) order) low high
     \<and> (\<forall>r'. r' \<noteq> r \<longrightarrow> net_Remotes n' r' = net_Remotes n r')
     \<and> (\<forall>k. GetPathMetrics r k n' = map_option
          (if k = p_Id low then mark QPARTS_PATH_PREF_LOW_LATENCY
           else if k \<in> p_Id ` set high then mark QPARTS_PATH_PREF_HIGH_THROUGHPUT else id) (GetPathMetrics r k n))
     \<and> (ActivePaths order r n = Inr [] \<longrightarrow> (\<exists>ps. ActivePaths order r n' = Inr ps
          \<and> length ps = 3 \<and> p_Id ` set ps = p_Id ` set (low # high)))"
proof -
  let ?m = "remote_paths r n"
  let ?paths = "map (path_of ?m) order"
  note slice = ToPathSlice_keyed [OF assms(5) equalityD1 [OF assms(3)]]
  have "distinct (map p_Id ?paths)" "3 \<le> length ?paths" using assms(2,4) unfolding slice(2) by simp_all
  from selects_many [OF assms(1) this] obtain low high g1 where
    sel: "selectLowLatencyAndHighThroughputPaths intn ?paths g = Inr (low, high, g1)" "selected ?paths low high"
    by blast
  have known: "\<exists>pm. ?m (p_Id p) = Some pm \<and> pm_Path pm \<noteq> None" if "p \<in> set ?paths" for p
  proof -
    from that slice(2) have "p_Id p \<in> set order" by (metis image_eqI list.set_map)
    with assms(3) have "p_Id p \<in> dom ?m" by simp
    from well_keyedE [OF assms(5) this] show ?thesis by blast
  qed
  from sel(2) have sub: "low \<in> set ?paths" "set high \<subseteq> set ?paths" "p_Id low \<notin> p_Id ` set high"
    "distinct (map p_Id high)" "length high = 2" by (simp_all add: selected_def)
  obtain pl where pl: "?m (p_Id low) = Some pl" "pm_Path pl \<noteq> None" using known [OF sub(1)] by blast
  let ?m1 = "?m(p_Id low \<mapsto> mark QPARTS_PATH_PREF_LOW_LATENCY pl)"
  let ?m2 = "\<lambda>k. if k \<in> p_Id ` set high then map_option (mark QPARTS_PATH_PREF_HIGH_THROUGHPUT) (?m1 k) else ?m1 k"
  let ?n = "n\<lparr>net_Remotes := (net_Remotes n)(r \<mapsto> ?m2)\<rparr>"
  have "\<forall>p \<in> set high. \<exists>pm. ?m1 (p_Id p) = Some pm \<and> pm_Path pm \<noteq> None"
    using known sub(2,3) by (metis fun_upd_other image_eqI subsetD)
  note marked = mark_all_ok [OF this, of QPARTS_PATH_PREF_HIGH_THROUGHPUT]
  have run: "ECMP_InitialPathSelection intn order r n g = Inr (?n, g1)"
    unfolding ECMP_InitialPathSelection_def slice(1) deref_all_ok go_bind_Inr sel(1) prod.case marked
      mark_path_ok [of ?m, OF pl] by (simp only: go_bind_Inr)
  let ?f = "\<lambda>k. if k = p_Id low then mark QPARTS_PATH_PREF_LOW_LATENCY
      else if k \<in> p_Id ` set high then mark QPARTS_PATH_PREF_HIGH_THROUGHPUT else id"
  have m2: "?m2 k = map_option (?f k) (?m k)" for k
    using pl(1) sub(3) by (auto simp: option.map_id)
  have get: "GetPathMetrics r k n = ?m k" for k by (simp add: GetPathMetrics_def remote_paths_def split: option.splits)
  have get': "GetPathMetrics r k ?n = ?m2 k" for k by (simp add: GetPathMetrics_def)
  have active: "\<exists>ps. ActivePaths order r ?n = Inr ps \<and> length ps = 3 \<and> p_Id ` set ps = p_Id ` set (low # high)"
    if none: "ActivePaths order r n = Inr []"
  proof -
    let ?S = "p_Id ` set (low # high)"
    have "?S \<subseteq> set order" using sub(1,2) slice(2) by (metis image_mono insert_subset list.set_map list.simps(15))
    moreover have "?f k = id" if "k \<notin> ?S" for k using that by auto
    moreover have "\<exists>pref. ?f k = mark pref" if "k \<in> ?S" for k using that by auto
    ultimately obtain ps where "active_loop order ?m2 = Inr ps" "length ps = card ?S" "p_Id ` set ps = ?S"
      unfolding m2 using active_marked [OF assms(5,3,2) none [unfolded ActivePaths_def], of ?S ?f] by blast
    moreover have "card ?S = 3" using distinct_card [of "map p_Id (low # high)"] sub(3-5) by simp
    ultimately show ?thesis by (simp add: ActivePaths_def remote_paths_def)
  qed
  have metrics: "\<forall>k. GetPathMetrics r k ?n = map_option (?f k) (GetPathMetrics r k n)"
    unfolding get get' using m2 by blast
  have others: "\<forall>r'. r' \<noteq> r \<longrightarrow> net_Remotes ?n r' = net_Remotes n r'" by simp
  show ?thesis
    by (rule exI, rule exI, rule exI, rule exI, rule conjI, rule run, rule conjI, rule sel(2), rule conjI, rule others,
        rule conjI, rule metrics, rule impI, rule active)
qed

definition three_known :: "nat NetworkState" where
  "three_known = \<lparr>net_Remotes = [''r'' \<mapsto> map_of (map (\<lambda>s. (stringToUint64 s,
     NewPathMetrics\<lparr>pm_Path := Some (named_path s)\<rparr>)) [''a'', ''b'', ''c''])], net_OnCongestionEvent = []\<rparr>"

theorem InitialPathSelection_marks_witness:
  "\<exists>n' g'. ECMP_InitialPathSelection (\<lambda>n g. (0, g)) (map stringToUint64 [''a'', ''b'', ''c'']) ''r'' three_known () = Inr (n', g')
     \<and> (\<exists>ps. ActivePaths (map stringToUint64 [''a'', ''b'', ''c'']) ''r'' n' = Inr ps \<and> length ps = 3)"
proof -
  let ?order = "map stringToUint64 [''a'', ''b'', ''c'']"
  have d: "distinct ?order" by code_simp
  have f: "fair_rng (\<lambda>n g :: unit. (0, g))" by (simp add: fair_rng_def)
  have dom: "set ?order = dom (remote_paths ''r'' three_known)"
    by (auto simp: remote_paths_def three_known_def dom_map_of_conv_image_fst simp del: map_of.simps)
  have l: "3 \<le> length ?order" by simp
  have w: "well_keyed (remote_paths ''r'' three_known)"
    unfolding well_keyed_def dom [symmetric] using d by (auto simp: remote_paths_def three_known_def named_path_def)
  have none: "ActivePaths ?order ''r'' three_known = Inr []"
    using d by (simp add: ActivePaths_def remote_paths_def three_known_def named_path_def QPARTS_PATH_STATE_ACTIVE_def)
  from InitialPathSelection_marks [OF f d dom l w, of "()"] show ?thesis
  proof (elim exE conjE, goal_cases)
    case (1 low high g' n')
    from 1(5) none have "\<exists>ps. ActivePaths ?order ''r'' n' = Inr ps \<and> length ps = 3" by blast
    with 1(1) show ?case by blast
  qed
qed

text \<open>The dispatch: activating a plugin makes it the one every later call goes to and keeps the older
  ones in the list, and without a plugin every call is a nil dereference.  The scheduler that
  \<^verbatim>\<open>NewScheduler\<close> returns leaves the network state as it is at every event, and also when
  \<^verbatim>\<open>InitialPathSelection\<close> is called: that call runs the plugin's \<^verbatim>\<open>OnNewStream\<close>.  So a remote without
  active paths has none after it either.\<close>

theorem scheduler_dispatch:
  "sched_activePlugin (ActivatePlugin p s) = Some p \<and> sched_plugins (ActivatePlugin p s) = sched_plugins s @ [p]
   \<and> sched_activePlugin NewScheduler = Some NewSchedulerECMP
   \<and> (\<forall>f \<in> {sched_OnNewStream r pref, sched_InitialPathSelection r pref, sched_OnPathProbeInterval r,
          sched_OnPathDown r k, sched_OnPathAdd r k}.
        f NewScheduler n = Inr n \<and> f \<lparr>sched_plugins = ps, sched_activePlugin = None\<rparr> n = Inl NilDereference)
   \<and> (sched_InitialPathSelection r pref NewScheduler n = Inr n' \<longrightarrow> ActivePaths order r n' = ActivePaths order r n)"
  by (simp add: ActivatePlugin_def NewScheduler_def NewSchedulerECMP_def via_plugin_def sched_OnNewStream_def
      sched_InitialPathSelection_def sched_OnPathProbeInterval_def sched_OnPathDown_def sched_OnPathAdd_def
      ECMP_OnNewStream_def ECMP_OnPathProbeInterval_def ECMP_OnPathDown_def ECMP_OnPathAdd_def)

theorem scheduler_dispatch_witness:
  "ActivePaths [stringToUint64 ''a''] ''r'' known_state = ActivePaths [stringToUint64 ''a''] ''r'' known_state
   \<and> sched_InitialPathSelection ''r'' 0 NewScheduler known_state = Inr known_state"
  using scheduler_dispatch [of NewSchedulerECMP NewScheduler "''r''" 0 0 known_state "[]" known_state "[stringToUint64 ''a'']"]
  by simp

end
