(* ===== verification/ControlPlane.thy ===== *)
theory ControlPlane
  imports Streams PathSelection
begin

text \<open>
  \<^verbatim>\<open>qparts_controlplane.go\<close> and \<^verbatim>\<open>qparts_conn.go\<close>: how two hosts agree on a connection, open the
  QUIC streams of the data plane, and open streams of the application.  The maps \<^verbatim>\<open>Streams\<close> of the
  connection, \<^verbatim>\<open>streams\<close> of the control plane and \<^verbatim>\<open>QPartsStreams\<close> of the data plane are one map
  in the code, and here the one of the data plane; likewise the control plane and the connection
  share the scheduler.  A step of the control plane's read loop is one pass of its body; a pass that
  waits for bytes leaves those that have come.
\<close>

section \<open>State\<close>

text \<open>The fields of \<^verbatim>\<open>snet.UDPAddr\<close> that the code reads or sets; \<^verbatim>\<open>Path\<close> and \<^verbatim>\<open>NextHop\<close> are the
  path they were taken from.\<close>

record ('h, 'm) UDPAddr =
  ua_Host :: 'h
  ua_Port :: int
  ua_Path :: "'m option"
  ua_NextHop :: "'m option"

text \<open>\<^verbatim>\<open>NewStreamChan\<close> is unbuffered: \<open>Some s\<close> says that the read loop is blocked sending \<open>s\<close>.\<close>

record ('h, 'm, 's) ControlPlane =
  cp_NewStreamChan :: "PartsStream option"
  cp_local :: "('h, 'm) UDPAddr"
  cp_remote :: "('h, 'm) UDPAddr option"
  cp_Scheduler :: Scheduler
  cp_ControlConn :: "(('h, 'm) UDPAddr, 'm QPartsPath, 's) SingleStreamQUICConn"
  cp_localHandshake :: "QPartsHandshakePacket option"
  cp_remoteHandshake :: "QPartsHandshakePacket option"
  cp_initialPathSelection :: "'m QPartsPath list"
  cp_dialOpts :: "byte option"
  cp_listenOpts :: "byte option"

record ('h, 'm, 's) QPartsConn =
  conn_local :: "('h, 'm) UDPAddr"
  conn_remote :: "('h, 'm) UDPAddr option"
  conn_Dataplane :: "(('h, 'm) UDPAddr, 'm QPartsPath, 's) QPartsDataplane"
  conn_ControlPlane :: "('h, 'm, 's) ControlPlane"

definition QPARTS_PATH_SEL_RESPONSIBILITY_CLIENT :: byte where "QPARTS_PATH_SEL_RESPONSIBILITY_CLIENT = 1"
definition QPARTS_PATH_SEL_RESPONSIBILITY_SERVER :: byte where "QPARTS_PATH_SEL_RESPONSIBILITY_SERVER = 2"

definition NewQPartsControlPlane :: "('h, 'm) UDPAddr \<Rightarrow> ('h, 'm, 's) ControlPlane" where
  "NewQPartsControlPlane local =
     \<lparr>cp_NewStreamChan = None, cp_local = local, cp_remote = None, cp_Scheduler = NewScheduler,
      cp_ControlConn = NewSingleStreamQUICConn, cp_localHandshake = None, cp_remoteHandshake = None,
      cp_initialPathSelection = [], cp_dialOpts = None, cp_listenOpts = None\<rparr>"

definition NewQPartsConn :: "('h, 'm) UDPAddr \<Rightarrow> ('h, 'm, 's) QPartsConn" where
  "NewQPartsConn local =
     \<lparr>conn_local = local, conn_remote = None, conn_Dataplane = NewQPartsDataplane Map.empty,
      conn_ControlPlane = (NewQPartsControlPlane local)\<lparr>cp_Scheduler := NewScheduler\<rparr>\<rparr>"

definition upd_cp ::
  "(('h, 'm, 's) ControlPlane \<Rightarrow> ('h, 'm, 's) ControlPlane) \<Rightarrow> ('h, 'm, 's) QPartsConn \<Rightarrow> ('h, 'm, 's) QPartsConn" where
  "upd_cp f c = c\<lparr>conn_ControlPlane := f (conn_ControlPlane c)\<rparr>"

text \<open>The map of application streams.\<close>

definition conn_Streams :: "('h, 'm, 's) QPartsConn \<Rightarrow> (u64 \<rightharpoonup> PartsStream)" where
  "conn_Streams c = dpl_QPartsStreams (conn_Dataplane c)"

definition put_stream :: "PartsStream \<Rightarrow> ('h, 'm, 's) QPartsConn \<Rightarrow> ('h, 'm, 's) QPartsConn" where
  "put_stream s c = c\<lparr>conn_Dataplane := (conn_Dataplane c)\<lparr>dpl_QPartsStreams :=
     (conn_Streams c)(ps_Id s \<mapsto> s)\<rparr>\<rparr>"

definition RemoveStream :: "u64 \<Rightarrow> ('h, 'm, 's) QPartsConn \<Rightarrow> ('h, 'm, 's) QPartsConn" where
  "RemoveStream k c = c\<lparr>conn_Dataplane := (conn_Dataplane c)\<lparr>dpl_QPartsStreams :=
     (conn_Streams c)(k := None)\<rparr>\<rparr>"

section \<open>Calls that may wait or panic\<close>

definition lr_bind :: "'a loop_result \<Rightarrow> ('a \<Rightarrow> 'b loop_result) \<Rightarrow> 'b loop_result" where
  "lr_bind m f = (case m of Waits \<Rightarrow> Waits | Panics e \<Rightarrow> Panics e | Goes x \<Rightarrow> f x)"

definition lr_go :: "'a go \<Rightarrow> 'a loop_result" where
  "lr_go m = (case m of Inl e \<Rightarrow> Panics e | Inr x \<Rightarrow> Goes x)"

lemma lr_simps [simp]:
  "lr_bind (Goes x) f = f x" "lr_bind Waits f = Waits" "lr_bind (Panics e) f = Panics e"
  "lr_go (Inr x) = Goes x" "lr_go (Inl e) = Panics e"
  by (simp_all add: lr_bind_def lr_go_def)

text \<open>\<^verbatim>\<open>ControlConn.ReadAll\<close> into a buffer of \<open>n\<close> bytes, and \<^verbatim>\<open>ControlConn.WriteAll\<close>; without a
  stream the call of its method panics.\<close>

definition control_stream :: "('h, 'm, 's) QPartsConn \<Rightarrow> 's option" where
  "control_stream c = ssqc_stream (cp_ControlConn (conn_ControlPlane c))"

definition set_control_stream :: "'s \<Rightarrow> ('h, 'm, 's) QPartsConn \<Rightarrow> ('h, 'm, 's) QPartsConn" where
  "set_control_stream s = upd_cp (\<lambda>cp. cp\<lparr>cp_ControlConn := (cp_ControlConn cp)\<lparr>ssqc_stream := Some s\<rparr>\<rparr>)"

definition ctl_read ::
  "'s qread \<Rightarrow> nat \<Rightarrow> ('h, 'm, 's) QPartsConn \<Rightarrow> (byte list \<times> io_err option \<times> ('h, 'm, 's) QPartsConn) loop_result" where
  "ctl_read rd n c =
     (case control_stream c of
        None \<Rightarrow> Panics NilDereference
      | Some s \<Rightarrow>
          (case ReadAll rd s n of
             None \<Rightarrow> Waits
           | Some (got, err, s') \<Rightarrow> Goes (got, err, set_control_stream s' c)))"

definition ctl_write ::
  "'s qwrite \<Rightarrow> byte list \<Rightarrow> ('h, 'm, 's) QPartsConn \<Rightarrow> (nat \<times> io_err option \<times> ('h, 'm, 's) QPartsConn) loop_result" where
  "ctl_write wr p c =
     (case control_stream c of
        None \<Rightarrow> Panics NilDereference
      | Some s \<Rightarrow>
          (case WriteAll wr s p of
             None \<Rightarrow> Waits
           | Some (n, err, s') \<Rightarrow> Goes (n, err, set_control_stream s' c)))"

section \<open>Opening a stream\<close>

text \<open>The stream that \<^verbatim>\<open>OpenStream\<close> and the read loop build, and the handshake that announces it.\<close>

definition new_stream :: "u64 \<Rightarrow> u32 \<Rightarrow> PartsStream" where
  "new_stream i pref = (NewPartsStream i)\<lparr>ps_conn := True, ps_Preference := pref\<rparr>"

text \<open>\<^verbatim>\<open>OpenStream\<close> up to its wait for the reply, then from there on.  \<open>rnd\<close> is the random id.  An
  \<open>Inl\<close> is the returned error.\<close>

definition OpenStream_request ::
  "'s qwrite \<Rightarrow> u32 \<Rightarrow> u64 \<Rightarrow> ('h, 'm, 's) QPartsConn
     \<Rightarrow> ((io_err + PartsStream \<times> QPartsNewStreamPacket) \<times> ('h, 'm, 's) QPartsConn) loop_result" where
  "OpenStream_request wr pref rnd c =
     (let s = new_stream rnd 0;
          p = NewQPartsNewStreamPacket\<lparr>ns_StreamId := ps_Id s, ns_Flags := PARTS_MSG_STREAM_HS\<rparr>
      in lr_bind (lr_go (ns_Encode p)) (\<lambda>p.
         lr_bind (ctl_write wr (ns_Data p) c) (\<lambda>(n, err, c1).
           case err of
             Some e \<Rightarrow> Goes (Inl e, c1)
           | None \<Rightarrow>
               if n = 0 then Goes (Inl (IOError ''no data sent to control conn to open stream''), c1)
               else Goes (Inr (s, p), c1))))"

definition OpenStream_reply ::
  "'s qread \<Rightarrow> PartsStream \<times> QPartsNewStreamPacket \<Rightarrow> ('h, 'm, 's) QPartsConn
     \<Rightarrow> ((io_err + PartsStream) \<times> ('h, 'm, 's) QPartsConn) loop_result" where
  "OpenStream_reply rd = (\<lambda>(s, p) c.
     lr_bind (ctl_read rd (length (ns_Data p)) c) (\<lambda>(got, err, c1).
       case err of
         Some e \<Rightarrow> Goes (Inl e, c1)
       | None \<Rightarrow>
           if got = [] then Goes (Inl (IOError ''no data received from control conn to open stream''), c1)
           else Goes (Inr s, c1)))"

text \<open>The rest of \<^verbatim>\<open>QPartsConn.OpenStream\<close> and \<^verbatim>\<open>OpenStreamWithPreference\<close>.\<close>

definition conn_OpenStream_reply ::
  "'s qread \<Rightarrow> PartsStream \<times> QPartsNewStreamPacket \<Rightarrow> ('h, 'm, 's) QPartsConn
     \<Rightarrow> ((io_err + PartsStream) \<times> ('h, 'm, 's) QPartsConn) loop_result" where
  "conn_OpenStream_reply rd sp c =
     lr_bind (OpenStream_reply rd sp c) (\<lambda>(r, c1).
       case r of Inl e \<Rightarrow> Goes (Inl e, c1) | Inr s \<Rightarrow> Goes (Inr s, put_stream s c1))"

definition AcceptStream ::
  "('h, 'm, 's) QPartsConn \<Rightarrow> (PartsStream \<times> ('h, 'm, 's) QPartsConn) loop_result" where
  "AcceptStream c =
     (case cp_NewStreamChan (conn_ControlPlane c) of
        None \<Rightarrow> Waits
      | Some s \<Rightarrow> Goes (s, put_stream s (upd_cp (\<lambda>cp. cp\<lparr>cp_NewStreamChan := None\<rparr>) c)))"

definition conn_AcceptStream ::
  "('h, 'm, 's) QPartsConn \<Rightarrow> (PartsStream \<times> ('h, 'm, 's) QPartsConn) loop_result" where
  "conn_AcceptStream c = lr_bind (AcceptStream c) (\<lambda>(s, c1). Goes (s, put_stream s c1))"

section \<open>Changing the preference of a stream\<close>

definition ChangeStreamPreference_request ::
  "'s qwrite \<Rightarrow> u64 \<Rightarrow> u32 \<Rightarrow> ('h, 'm, 's) QPartsConn
     \<Rightarrow> ((io_err + QPartsNewStreamPacket) \<times> ('h, 'm, 's) QPartsConn) loop_result" where
  "ChangeStreamPreference_request wr sid pref c =
     lr_bind (lr_go (ns_Encode (NewQPartsNewStreamPacket\<lparr>ns_StreamId := sid,
        ns_Flags := PARTS_MSG_STREAM_PROPERTY, ns_StreamProperty := pref\<rparr>))) (\<lambda>p.
     lr_bind (ctl_write wr (ns_Data p) c) (\<lambda>(n, err, c1).
       case err of
         Some e \<Rightarrow> Goes (Inl e, c1)
       | None \<Rightarrow>
           if n = 0 then Goes (Inl (IOError ''no data sent to control conn to change stream preference''), c1)
           else Goes (Inr p, c1)))"

definition ChangeStreamPreference_reply ::
  "'s qread \<Rightarrow> QPartsNewStreamPacket \<Rightarrow> ('h, 'm, 's) QPartsConn
     \<Rightarrow> (io_err option \<times> ('h, 'm, 's) QPartsConn) loop_result" where
  "ChangeStreamPreference_reply rd p c =
     lr_bind (ctl_read rd (length (ns_Data p)) c) (\<lambda>(got, err, c1).
       case err of
         Some e \<Rightarrow> Goes (Some e, c1)
       | None \<Rightarrow>
           if got = [] then Goes (Some (IOError ''no data received from control conn to change stream preference''), c1)
           else Goes (None, c1))"

text \<open>\<^verbatim>\<open>s.Preference = preference\<close> of a stream that is in the map.\<close>

definition set_preference :: "u64 \<Rightarrow> u32 \<Rightarrow> ('h, 'm, 's) QPartsConn \<Rightarrow> ('h, 'm, 's) QPartsConn go" where
  "set_preference sid pref c =
     (case conn_Streams c sid of
        None \<Rightarrow> Inl NilDereference
      | Some s \<Rightarrow> Inr (c\<lparr>conn_Dataplane := (conn_Dataplane c)\<lparr>dpl_QPartsStreams :=
          (conn_Streams c)(sid \<mapsto> s\<lparr>ps_Preference := pref\<rparr>)\<rparr>\<rparr>))"

text \<open>\<^verbatim>\<open>PartsStream.SetPreference\<close> after its request was sent, for a stream of the map.\<close>

definition SetPreference_reply ::
  "'s qread \<Rightarrow> u64 \<Rightarrow> u32 \<Rightarrow> QPartsNewStreamPacket \<Rightarrow> ('h, 'm, 's) QPartsConn
     \<Rightarrow> (io_err option \<times> ('h, 'm, 's) QPartsConn) loop_result" where
  "SetPreference_reply rd sid pref p c =
     lr_bind (ChangeStreamPreference_reply rd p c) (\<lambda>(err, c1).
       case err of
         Some e \<Rightarrow> Goes (Some e, c1)
       | None \<Rightarrow> lr_bind (lr_go (set_preference sid pref c1)) (\<lambda>c2. Goes (None, c2)))"

section \<open>The read loop\<close>

text \<open>The part that both kinds of message share: read the rest of the packet, decode it, and send it
  back.  \<open>None\<close> is a \<^verbatim>\<open>continue\<close>; \<open>strict\<close> says that a read error continues as well.\<close>

definition echo_packet ::
  "'s qread \<Rightarrow> 's qwrite \<Rightarrow> bool \<Rightarrow> byte list \<Rightarrow> ('h, 'm, 's) QPartsConn
     \<Rightarrow> (QPartsNewStreamPacket option \<times> ('h, 'm, 's) QPartsConn) loop_result" where
  "echo_packet rd wr strict header c =
     (let p = NewQPartsNewStreamPacket in
      lr_bind (ctl_read rd (length (drop 4 (ns_Data p))) c) (\<lambda>(got, err, c1).
        if strict \<and> err \<noteq> None \<or> got = [] then Goes (None, c1)
        else
          let data = take 4 (ns_Data p) @ go_copy (drop 4 (ns_Data p)) got in
          lr_bind (lr_go (ns_Decode (p\<lparr>ns_Data := go_copy data header\<rparr>))) (\<lambda>p.
          lr_bind (ctl_write wr (ns_Data p) c1) (\<lambda>(n2, err, c2).
            if err \<noteq> None \<or> n2 = 0 then Goes (None, c2) else Goes (Some p, c2)))))"

definition cp_readLoop ::
  "'s qread \<Rightarrow> 's qwrite \<Rightarrow> ('h, 'm, 's) QPartsConn \<Rightarrow> ('h, 'm, 's) QPartsConn loop_result" where
  "cp_readLoop rd wr c =
     (if cp_NewStreamChan (conn_ControlPlane c) \<noteq> None then Waits
      else lr_bind (ctl_read rd 4 c) (\<lambda>(got, err, c1).
        if got = [] then Goes c1
        else
          let header = go_copy (replicate 4 0) got in
          lr_bind (lr_go (get32 header 0)) (\<lambda>flags.
            if flags = PARTS_MSG_STREAM_HS then
              lr_bind (echo_packet rd wr False header c1) (\<lambda>(r, c2).
                case r of
                  None \<Rightarrow> Goes c2
                | Some p \<Rightarrow> Goes (upd_cp (\<lambda>cp. cp\<lparr>cp_NewStreamChan :=
                              Some (new_stream (ns_StreamId p) (ns_StreamProperty p))\<rparr>) c2))
            else if flags = PARTS_MSG_STREAM_PROPERTY then
              lr_bind (echo_packet rd wr True header c1) (\<lambda>(r, c2).
                case r of
                  None \<Rightarrow> Goes c2
                | Some p \<Rightarrow> lr_go (set_preference (ns_StreamId p) (ns_StreamProperty p) c2))
            else Goes c1)))"

section \<open>The remaining methods of connections and streams\<close>

definition conn_Close ::
  "('s \<Rightarrow> io_err option \<times> 's) \<Rightarrow> ('h, 'm, 's) QPartsConn \<Rightarrow> (io_err option \<times> ('h, 'm, 's) QPartsConn) go" where
  "conn_Close close c =
     go_bind (ssqc_Close close (cp_ControlConn (conn_ControlPlane c))) (\<lambda>(err, cc).
       Inr (err, upd_cp (\<lambda>cp. cp\<lparr>cp_ControlConn := cc\<rparr>) c))"

definition HandleCongestionEvent ::
  "(('h, 'm) UDPAddr, 'm, 'f) CongestionEvent \<Rightarrow> ('h, 'm, 's) QPartsConn \<Rightarrow> io_err option \<times> ('h, 'm, 's) QPartsConn" where
  "HandleCongestionEvent event c = (None, c)"

definition Stream_LocalAddr :: "PartsStream \<Rightarrow> ('h, 'm, 's) QPartsConn \<Rightarrow> ('h, 'm) UDPAddr go" where
  "Stream_LocalAddr s c = (if ps_conn s then Inr (conn_local c) else Inl NilDereference)"

definition Stream_RemoteAddr :: "PartsStream \<Rightarrow> ('h, 'm, 's) QPartsConn \<Rightarrow> ('h, 'm) UDPAddr option go" where
  "Stream_RemoteAddr s c = (if ps_conn s then Inr (conn_remote c) else Inl NilDereference)"

definition sched_ScheduleWrite ::
  "Scheduler \<Rightarrow> byte list \<Rightarrow> u64 list \<Rightarrow> u64 list \<Rightarrow> 'addr SchedulingDecision go" where
  "sched_ScheduleWrite s data order1 order2 =
     (case sched_activePlugin s of
        None \<Rightarrow> Inl NilDereference
      | Some (SchedulerECMP _) \<Rightarrow> ScheduleWrite data order1 order2)"

definition dpl_ScheduleWrite ::
  "Scheduler option \<Rightarrow> byte list \<Rightarrow> u64 list \<Rightarrow> u64 list \<Rightarrow> 'addr SchedulingDecision go" where
  "dpl_ScheduleWrite scheduler data order1 order2 =
     (case scheduler of None \<Rightarrow> Inl NilDereference | Some s \<Rightarrow> sched_ScheduleWrite s data order1 order2)"

text \<open>\<^verbatim>\<open>PartsStream.Write\<close> calls \<open>ScheduleWrite\<close> through both: with the scheduler of every connection
  they add nothing.\<close>

lemma dpl_ScheduleWrite_NewScheduler [simp]:
  "dpl_ScheduleWrite (Some NewScheduler) data order1 order2 = ScheduleWrite data order1 order2"
  by (simp add: dpl_ScheduleWrite_def sched_ScheduleWrite_def NewScheduler_def ActivatePlugin_def NewSchedulerECMP_def)

section \<open>Lemmas\<close>

lemma control_simps [simp]:
  "control_stream (set_control_stream s c) = Some s"
  "set_control_stream s (set_control_stream s' c) = set_control_stream s c"
  "conn_Streams (set_control_stream s c) = conn_Streams c"
  "conn_Dataplane (set_control_stream s c) = conn_Dataplane c"
  "cp_NewStreamChan (conn_ControlPlane (set_control_stream s c)) = cp_NewStreamChan (conn_ControlPlane c)"
  by (simp_all add: control_stream_def set_control_stream_def upd_cp_def conn_Streams_def)

lemma put_stream_simps [simp]:
  "conn_Streams (put_stream s c) = (conn_Streams c)(ps_Id s \<mapsto> s)"
  "control_stream (put_stream s c) = control_stream c"
  "conn_ControlPlane (put_stream s c) = conn_ControlPlane c"
  "put_stream s (put_stream s c) = put_stream s c"
  by (simp_all add: put_stream_def conn_Streams_def control_stream_def)

lemma new_stream_simps [simp]:
  "ps_Id (new_stream i pref) = i" "ps_Preference (new_stream i pref) = pref"
  "pb_buffer (ps_ReadBuffer (new_stream i pref)) = []"
  by (simp_all add: new_stream_def NewPartsStream_def NewPacketBuffer_def)

text \<open>The documented behaviour of a bidirectional QUIC stream: the two directions do not influence
  each other.\<close>

definition duplex :: "'s qread \<Rightarrow> 's qwrite \<Rightarrow> ('s \<Rightarrow> byte list) \<Rightarrow> ('s \<Rightarrow> byte list) \<Rightarrow> bool" where
  "duplex rd wr pend sent \<longleftrightarrow> stream_delivers rd pend \<and> stream_blocks rd pend \<and> stream_accepts wr sent
     \<and> (\<forall>s n bs e s'. rd s n = Some (bs, e, s') \<longrightarrow> sent s' = sent s)
     \<and> (\<forall>s p n e s'. wr s p = Some (n, e, s') \<longrightarrow> pend s' = pend s)"

lemma duplexD:
  assumes "duplex rd wr pend sent"
  shows "stream_delivers rd pend" "stream_blocks rd pend" "stream_accepts wr sent"
    and "\<And>s n bs e s'. rd s n = Some (bs, e, s') \<Longrightarrow> sent s' = sent s"
    and "\<And>s p n e s'. wr s p = Some (n, e, s') \<Longrightarrow> pend s' = pend s"
  using assms unfolding duplex_def by blast+

lemma ctl_read_ok:
  assumes "duplex rd wr pend sent" "control_stream c = Some s" "n \<le> length (pend s)"
  obtains s' where "ctl_read rd n c = Goes (take n (pend s), None, set_control_stream s' c)"
    "pend s' = drop n (pend s)" "sent s' = sent s"
proof -
  obtain s' where s': "ReadAll rd s n = Some (take n (pend s), None, s')" "pend s' = drop n (pend s)"
    using ReadAll_delivers [OF duplexD(1) [OF assms(1)] assms(3)] by blast
  from ReadAll_keeps [OF duplexD(4) [OF assms(1)] s'(1)] have "sent s' = sent s" .
  with s' assms(2) show ?thesis by (intro that [of s']) (simp_all only: ctl_read_def option.case prod.case)
qed

lemma ctl_write_ok:
  assumes "duplex rd wr pend sent" "control_stream c = Some s"
  obtains s' where "ctl_write wr p c = Goes (length p, None, set_control_stream s' c)"
    "sent s' = sent s @ p" "pend s' = pend s"
proof -
  obtain s' where s': "WriteAll wr s p = Some (length p, None, s')" "sent s' = sent s @ p"
    using WriteAll_accepts [OF duplexD(3) [OF assms(1)]] by blast
  from WriteAll_keeps [OF duplexD(5) [OF assms(1)] s'(1)] have "pend s' = pend s" .
  with s' assms(2) show ?thesis by (intro that [of s']) (simp_all only: ctl_write_def option.case prod.case)
qed

lemma ctl_read_waits:
  assumes "duplex rd wr pend sent" "control_stream c = Some s" "pend s = []" "0 < n"
  shows "ctl_read rd n c = Waits"
  using ReadAll_blocks [OF duplexD(2) [OF assms(1)] assms(3,4)] assms(2) by (simp add: ctl_read_def)

text \<open>The 16 bytes of a packet on the wire.\<close>

definition hs_packet :: "u32 \<Rightarrow> u64 \<Rightarrow> u32 \<Rightarrow> QPartsNewStreamPacket" where
  "hs_packet flags sid pref = NewQPartsNewStreamPacket\<lparr>ns_Flags := flags, ns_StreamId := sid, ns_StreamProperty := pref\<rparr>"

abbreviation wire :: "u32 \<Rightarrow> u64 \<Rightarrow> u32 \<Rightarrow> byte list" where
  "wire flags sid pref \<equiv> ns_wire (hs_packet flags sid pref)"

lemma wire_flags:
  "take 4 (wire flags sid pref @ rest) = PutUint32 flags"
  "take 12 (drop 4 (wire flags sid pref @ rest)) = PutUint64 sid @ PutUint32 pref"
  "drop 12 (drop 4 (wire flags sid pref @ rest)) = rest"
  by (simp_all add: ns_wire_def hs_packet_def)

text \<open>Reading one whole packet from the control stream and echoing it.\<close>

lemma echo_packet_ok:
  assumes "duplex rd wr pend sent" "control_stream c = Some s"
    "pend s = PutUint64 sid @ PutUint32 pref @ rest"
  obtains s' p where "echo_packet rd wr strict (PutUint32 flags) c = Goes (Some p, set_control_stream s' c)"
    "ns_StreamId p = sid" "ns_StreamProperty p = pref" "pend s' = rest" "sent s' = sent s @ wire flags sid pref"
proof -
  have "12 \<le> length (pend s)" by (simp add: assms(3))
  from ctl_read_ok [OF assms(1,2) this] obtain s1 where
    s1: "ctl_read rd 12 c = Goes (take 12 (pend s), None, set_control_stream s1 c)"
      "pend s1 = drop 12 (pend s)" "sent s1 = sent s" .
  let ?p = "(hs_packet flags sid pref)\<lparr>ns_Data := wire flags sid pref\<rparr>"
  obtain s2 where s2: "ctl_write wr (wire flags sid pref) (set_control_stream s1 c) = Goes (16, None, set_control_stream s2 c)"
    "sent s2 = sent s1 @ wire flags sid pref" "pend s2 = pend s1"
    using ctl_write_ok [OF assms(1), of "set_control_stream s1 c" s1 "wire flags sid pref"] by auto
  have t: "take 12 (pend s) = PutUint64 sid @ PutUint32 pref" "drop 12 (pend s) = rest" by (simp_all add: assms(3))
  have data: "go_copy (take 4 (ns_Data NewQPartsNewStreamPacket) @ go_copy (drop 4 (ns_Data NewQPartsNewStreamPacket))
      (PutUint64 sid @ PutUint32 pref)) (PutUint32 flags) = wire flags sid pref"
    by (simp add: go_copy_def NewQPartsNewStreamPacket_def ns_wire_def hs_packet_def)
  have "ns_Decode (NewQPartsNewStreamPacket\<lparr>ns_Data := wire flags sid pref\<rparr>) = Inr ?p"
    by (rule ns_Decode_wire) simp
  moreover have "length (drop 4 (ns_Data NewQPartsNewStreamPacket)) = 12" by (simp add: NewQPartsNewStreamPacket_def)
  moreover have "PutUint64 sid @ PutUint32 pref \<noteq> []" by (simp add: PutUint32_def)
  ultimately have "echo_packet rd wr strict (PutUint32 flags) c = Goes (Some ?p, set_control_stream s2 c)"
    using s1(1) s2(1) unfolding t by (simp add: echo_packet_def Let_def data)
  with s1 s2 t show ?thesis by (intro that [of ?p s2]) (simp_all add: hs_packet_def)
qed

text \<open>One pass of the read loop over a message.\<close>

lemma cp_readLoop_message:
  assumes "duplex rd wr pend sent" "control_stream c = Some s" "cp_NewStreamChan (conn_ControlPlane c) = None"
    "pend s = wire flags sid pref @ rest" "flags \<in> {PARTS_MSG_STREAM_HS, PARTS_MSG_STREAM_PROPERTY}"
  obtains s' where "pend s' = rest" "sent s' = sent s @ wire flags sid pref"
    "cp_readLoop rd wr c =
       (if flags = PARTS_MSG_STREAM_HS
        then Goes (upd_cp (\<lambda>cp. cp\<lparr>cp_NewStreamChan := Some (new_stream sid pref)\<rparr>) (set_control_stream s' c))
        else lr_go (set_preference sid pref (set_control_stream s' c)))"
proof -
  have "4 \<le> length (pend s)" by (simp add: assms(4))
  from ctl_read_ok [OF assms(1,2) this] obtain s1 where
    s1: "ctl_read rd 4 c = Goes (take 4 (pend s), None, set_control_stream s1 c)"
      "pend s1 = drop 4 (pend s)" "sent s1 = sent s" .
  have t: "take 4 (pend s) = PutUint32 flags" by (simp add: assms(4) ns_wire_def hs_packet_def)
  have p: "pend s1 = PutUint64 sid @ PutUint32 pref @ rest" by (simp add: s1(2) assms(4) ns_wire_def hs_packet_def)
  have h: "go_copy (replicate 4 0) (PutUint32 flags) = PutUint32 flags" "PutUint32 flags \<noteq> []"
    "get32 (PutUint32 flags) 0 = Inr flags"
    by (simp_all add: go_copy_def get_defs) (simp add: PutUint32_def)
  have d: "PARTS_MSG_STREAM_HS \<noteq> PARTS_MSG_STREAM_PROPERTY"
    by (simp add: PARTS_MSG_STREAM_HS_def PARTS_MSG_STREAM_PROPERTY_def)
  obtain s2 q where e: "echo_packet rd wr (flags = PARTS_MSG_STREAM_PROPERTY) (PutUint32 flags) (set_control_stream s1 c)
        = Goes (Some q, set_control_stream s2 c)"
    "ns_StreamId q = sid" "ns_StreamProperty q = pref" "pend s2 = rest" "sent s2 = sent s1 @ wire flags sid pref"
    by (rule echo_packet_ok [OF assms(1) control_simps(1) p, of "flags = PARTS_MSG_STREAM_PROPERTY" flags c])
      (rule that, simp_all)
  show ?thesis
    by (rule that [of s2]) (use s1 t h d e assms(3,5) in \<open>auto simp: cp_readLoop_def Let_def\<close>)
qed

lemma OpenStream_request_ok:
  assumes "duplex rd wr pend sent" "control_stream c = Some s"
  obtains s' where "OpenStream_request wr pref rnd c = Goes (Inr (new_stream rnd 0,
        (hs_packet PARTS_MSG_STREAM_HS rnd 0)\<lparr>ns_Data := wire PARTS_MSG_STREAM_HS rnd 0\<rparr>), set_control_stream s' c)"
    "sent s' = sent s @ wire PARTS_MSG_STREAM_HS rnd 0" "pend s' = pend s"
proof -
  have "ns_Encode (NewQPartsNewStreamPacket\<lparr>ns_StreamId := rnd, ns_Flags := PARTS_MSG_STREAM_HS\<rparr>)
      = Inr ((hs_packet PARTS_MSG_STREAM_HS rnd 0)\<lparr>ns_Data := wire PARTS_MSG_STREAM_HS rnd 0\<rparr>)"
    by (simp add: ns_Encode_wire NewQPartsNewStreamPacket_def hs_packet_def ns_wire_def)
  moreover obtain s' where "ctl_write wr (wire PARTS_MSG_STREAM_HS rnd 0) c = Goes (16, None, set_control_stream s' c)"
    "sent s' = sent s @ wire PARTS_MSG_STREAM_HS rnd 0" "pend s' = pend s"
    using ctl_write_ok [OF assms, of "wire PARTS_MSG_STREAM_HS rnd 0"] by auto
  ultimately show ?thesis by (intro that [of s']) (simp_all add: OpenStream_request_def Let_def)
qed

lemma ChangeStreamPreference_request_ok:
  assumes "duplex rd wr pend sent" "control_stream c = Some s"
  obtains s' where "ChangeStreamPreference_request wr sid pref c = Goes (Inr
        ((hs_packet PARTS_MSG_STREAM_PROPERTY sid pref)\<lparr>ns_Data := wire PARTS_MSG_STREAM_PROPERTY sid pref\<rparr>), set_control_stream s' c)"
    "sent s' = sent s @ wire PARTS_MSG_STREAM_PROPERTY sid pref" "pend s' = pend s"
proof -
  have "ns_Encode (NewQPartsNewStreamPacket\<lparr>ns_StreamId := sid, ns_Flags := PARTS_MSG_STREAM_PROPERTY, ns_StreamProperty := pref\<rparr>)
      = Inr ((hs_packet PARTS_MSG_STREAM_PROPERTY sid pref)\<lparr>ns_Data := wire PARTS_MSG_STREAM_PROPERTY sid pref\<rparr>)"
    by (simp add: ns_Encode_wire NewQPartsNewStreamPacket_def hs_packet_def ns_wire_def)
  moreover obtain s' where "ctl_write wr (wire PARTS_MSG_STREAM_PROPERTY sid pref) c = Goes (16, None, set_control_stream s' c)"
    "sent s' = sent s @ wire PARTS_MSG_STREAM_PROPERTY sid pref" "pend s' = pend s"
    using ctl_write_ok [OF assms, of "wire PARTS_MSG_STREAM_PROPERTY sid pref"] by auto
  ultimately show ?thesis by (intro that [of s']) (simp_all add: ChangeStreamPreference_request_def)
qed

text \<open>Reading the reply.\<close>

lemma reply_ok:
  assumes "duplex rd wr pend sent" "control_stream c = Some s" "length (ns_Data p) = 16" "pend s = reply @ rest"
    "length reply = 16"
  obtains s' where "pend s' = rest" "sent s' = sent s"
    "conn_OpenStream_reply rd (st, p) c = Goes (Inr st, put_stream st (set_control_stream s' c))"
    "ChangeStreamPreference_reply rd p c = Goes (None, set_control_stream s' c)"
proof -
  have "16 \<le> length (pend s)" by (simp add: assms(4,5))
  from ctl_read_ok [OF assms(1,2) this] obtain s1 where
    s1: "ctl_read rd 16 c = Goes (take 16 (pend s), None, set_control_stream s1 c)"
      "pend s1 = drop 16 (pend s)" "sent s1 = sent s" .
  moreover have "take 16 (pend s) \<noteq> []" using assms(4,5) by auto
  ultimately show ?thesis using assms(3,4,5)
    by (intro that [of s1]) (simp_all add: conn_OpenStream_reply_def OpenStream_reply_def ChangeStreamPreference_reply_def)
qed

lemma reply_waits:
  assumes "duplex rd wr pend sent" "control_stream c = Some s" "length (ns_Data p) = 16" "pend s = []"
  shows "conn_OpenStream_reply rd (st, p) c = Waits"
  using ctl_read_waits [OF assms(1,2,4), of 16] assms(3) by (simp add: conn_OpenStream_reply_def OpenStream_reply_def)

section \<open>Properties\<close>

text \<open>The control stream of a host before and after the bytes on the way have been delivered.\<close>

definition receives :: "('s \<Rightarrow> byte list) \<Rightarrow> byte list \<Rightarrow> ('h, 'm, 's) QPartsConn \<Rightarrow> ('h, 'm, 's) QPartsConn \<Rightarrow> bool" where
  "receives pend bs c c' \<longleftrightarrow> (\<exists>s. c' = set_control_stream s c \<and> pend s = bs)"

definition control_ready :: "('s \<Rightarrow> byte list) \<Rightarrow> ('h, 'm, 's) QPartsConn \<Rightarrow> bool" where
  "control_ready pend c \<longleftrightarrow> cp_NewStreamChan (conn_ControlPlane c) = None
     \<and> (\<exists>s. control_stream c = Some s \<and> pend s = [])"

text \<open>What a host has written to its control stream.\<close>

definition control_sent :: "('s \<Rightarrow> byte list) \<Rightarrow> ('h, 'm, 's) QPartsConn \<Rightarrow> byte list" where
  "control_sent sent c = (case control_stream c of Some s \<Rightarrow> sent s | None \<Rightarrow> [])"

lemma receives_simps:
  assumes "receives pend bs c c'"
  obtains s where "control_stream c' = Some s" "pend s = bs"
    "conn_Streams c' = conn_Streams c" "cp_NewStreamChan (conn_ControlPlane c') = cp_NewStreamChan (conn_ControlPlane c)"
  using assms by (auto simp: receives_def)

text \<open>C11: Opening a stream works end to end: \<^verbatim>\<open>OpenStream\<close> of one host sends a handshake with a fresh id;
  one pass of the other host's read loop over it sends the same bytes back and offers a stream with
  this id, which \<^verbatim>\<open>AcceptStream\<close> returns and records; and when the bytes that came back reach
  \<^verbatim>\<open>OpenStream\<close>, it returns and records a stream with the same id.  Both streams are empty and have
  the preference 0: the one asked for is never sent.  Nothing is left unread on either side.\<close>

theorem open_accept:
  fixes a :: "('h, 'm, 's) QPartsConn" and b :: "('h, 'm, 't) QPartsConn"
  assumes "duplex rd wr pend sent" "duplex rd' wr' pend' sent'" "control_ready pend a" "control_ready pend' b"
  shows "\<exists>req a1. OpenStream_request wr pref rnd a = Goes (Inr req, a1)
     \<and> (\<exists>bs. control_sent sent a1 = control_sent sent a @ bs
     \<and> (\<forall>b1. receives pend' bs b b1 \<longrightarrow> (\<exists>b2 s b3. cp_readLoop rd' wr' b1 = Goes b2
          \<and> conn_AcceptStream b2 = Goes (s, b3) \<and> ps_Id s = rnd \<and> ps_Preference s = 0
          \<and> conn_Streams b3 = (conn_Streams b)(rnd \<mapsto> s) \<and> pb_buffer (ps_ReadBuffer s) = []
          \<and> control_ready pend' b3
          \<and> control_sent sent' b3 = control_sent sent' b1 @ bs))
     \<and> (\<forall>a2. receives pend bs a1 a2 \<longrightarrow> (\<exists>s a3. conn_OpenStream_reply rd req a2 = Goes (Inr s, a3)
          \<and> ps_Id s = rnd \<and> ps_Preference s = 0 \<and> pb_buffer (ps_ReadBuffer s) = []
          \<and> conn_Streams a3 = (conn_Streams a)(rnd \<mapsto> s) \<and> control_ready pend a3)))"
proof -
  let ?bs = "wire PARTS_MSG_STREAM_HS rnd 0"
    and ?p = "(hs_packet PARTS_MSG_STREAM_HS rnd 0)\<lparr>ns_Data := wire PARTS_MSG_STREAM_HS rnd 0\<rparr>"
    and ?s = "new_stream rnd 0"
  from assms(3) obtain s where s: "control_stream a = Some s" "pend s = []" by (auto simp: control_ready_def)
  from OpenStream_request_ok [OF assms(1) s(1)] obtain s1 where
    req: "OpenStream_request wr pref rnd a = Goes (Inr (?s, ?p), set_control_stream s1 a)"
      "sent s1 = sent s @ ?bs" "pend s1 = pend s" .
  have peer: "\<exists>b2 s b3. cp_readLoop rd' wr' b1 = Goes b2
      \<and> conn_AcceptStream b2 = Goes (s, b3) \<and> ps_Id s = rnd \<and> ps_Preference s = 0
      \<and> conn_Streams b3 = (conn_Streams b)(rnd \<mapsto> s) \<and> pb_buffer (ps_ReadBuffer s) = []
      \<and> control_ready pend' b3 \<and> control_sent sent' b3 = control_sent sent' b1 @ ?bs"
    if r: "receives pend' ?bs b b1" for b1
  proof -
    from r obtain t where t: "control_stream b1 = Some t" "pend' t = ?bs @ []"
      "conn_Streams b1 = conn_Streams b" "cp_NewStreamChan (conn_ControlPlane b1) = None"
      using assms(4) by (auto simp: receives_def control_ready_def)
    from cp_readLoop_message [OF assms(2) t(1,4,2)] obtain t1 where
      t1: "pend' t1 = []" "sent' t1 = sent' t @ ?bs" "cp_readLoop rd' wr' b1
        = Goes (upd_cp (\<lambda>cp. cp\<lparr>cp_NewStreamChan := Some ?s\<rparr>) (set_control_stream t1 b1))" by auto
    then show ?thesis using t
      by (simp add: conn_AcceptStream_def AcceptStream_def upd_cp_def control_ready_def control_sent_def
          control_stream_def set_control_stream_def conn_Streams_def put_stream_def)
  qed
  have own: "\<exists>s a3. conn_OpenStream_reply rd (?s, ?p) a2 = Goes (Inr s, a3)
      \<and> ps_Id s = rnd \<and> ps_Preference s = 0 \<and> pb_buffer (ps_ReadBuffer s) = []
      \<and> conn_Streams a3 = (conn_Streams a)(rnd \<mapsto> s) \<and> control_ready pend a3"
    if r: "receives pend ?bs (set_control_stream s1 a) a2" for a2
  proof -
    from r obtain t where t: "control_stream a2 = Some t" "pend t = ?bs @ []" "conn_Streams a2 = conn_Streams a"
      "cp_NewStreamChan (conn_ControlPlane a2) = None"
      using assms(3) by (auto simp: receives_def control_ready_def)
    from reply_ok [OF assms(1) t(1) _ t(2), of ?p ?s] obtain t1 where
      "pend t1 = []" "conn_OpenStream_reply rd (?s, ?p) a2 = Goes (Inr ?s, put_stream ?s (set_control_stream t1 a2))"
      by auto
    with t show ?thesis by (simp add: control_ready_def)
  qed
  have "control_sent sent (set_control_stream s1 a) = control_sent sent a @ ?bs"
    using req(2) s(1) by (simp add: control_sent_def)
  with req(1) peer own show ?thesis
    by (intro exI [of _ "(?s, ?p)"] exI [of _ "set_control_stream s1 a"] exI [of _ ?bs] conjI allI impI)
qed

text \<open>Two queues of bytes in memory, and a host with nothing but its control stream.\<close>

definition pair_read :: "(byte list \<times> byte list) qread" where
  "pair_read s n = (if fst s = [] then None else Some (take n (fst s), None, (drop n (fst s), snd s)))"

definition pair_write :: "(byte list \<times> byte list) qwrite" where
  "pair_write s p = Some (length p, None, (fst s, snd s @ p))"

lemma pair_duplex: "duplex pair_read pair_write fst snd"
  unfolding duplex_def
proof (intro conjI)
  show "stream_delivers pair_read fst"
    unfolding stream_delivers_def
  proof (intro allI impI)
    fix s :: "byte list \<times> byte list" and n :: nat
    assume "0 < n \<and> fst s \<noteq> []"
    then show "\<exists>k s'. 0 < k \<and> k \<le> n \<and> k \<le> length (fst s)
        \<and> pair_read s n = Some (take k (fst s), None, s') \<and> fst s' = drop k (fst s)"
      by (intro exI [of _ "min n (length (fst s))"] exI [of _ "(drop n (fst s), snd s)"])
        (auto simp: pair_read_def min_def)
  qed
qed (auto simp: pair_read_def pair_write_def stream_blocks_def stream_accepts_def)

definition example_addr :: "(string, nat) UDPAddr" where
  "example_addr = \<lparr>ua_Host = ''127.0.0.1'', ua_Port = 31000, ua_Path = None, ua_NextHop = None\<rparr>"

definition example_host :: "(string, nat, byte list \<times> byte list) QPartsConn" where
  "example_host = set_control_stream ([], []) (NewQPartsConn example_addr)"

lemma example_host: "control_ready fst example_host" "control_sent snd example_host = []"
  "conn_Streams example_host = Map.empty"
  by (simp_all add: example_host_def control_ready_def control_sent_def)
    (simp_all add: NewQPartsConn_def NewQPartsControlPlane_def NewQPartsDataplane_def conn_Streams_def)

lemma receives_host: "receives fst bs c (set_control_stream (bs, out) c)"
  by (auto simp: receives_def)

theorem open_accept_witness:
  "\<exists>req a1 bs b2 s b3. OpenStream_request pair_write 1 77 example_host = Goes (Inr req, a1)
     \<and> control_sent snd a1 = bs
     \<and> cp_readLoop pair_read pair_write (set_control_stream (bs, []) example_host) = Goes b2
     \<and> conn_AcceptStream b2 = Goes (s, b3) \<and> ps_Id s = 77
     \<and> (\<exists>s' a3. conn_OpenStream_reply pair_read req (set_control_stream (bs, bs) a1) = Goes (Inr s', a3) \<and> ps_Id s' = 77)"
proof -
  from open_accept [OF pair_duplex pair_duplex example_host(1) example_host(1), of 1 77] example_host(2)
  obtain req a1 bs where r: "OpenStream_request pair_write 1 77 example_host = Goes (Inr req, a1)" "control_sent snd a1 = bs"
    and b: "\<And>b1. receives fst bs example_host b1 \<Longrightarrow> \<exists>b2 s b3. cp_readLoop pair_read pair_write b1 = Goes b2
          \<and> conn_AcceptStream b2 = Goes (s, b3) \<and> ps_Id s = 77"
    and a: "\<And>a2. receives fst bs a1 a2 \<Longrightarrow> \<exists>s a3. conn_OpenStream_reply pair_read req a2 = Goes (Inr s, a3) \<and> ps_Id s = 77"
    by (metis (no_types, lifting) append_Nil)
  from b [OF receives_host] a [OF receives_host] r show ?thesis by blast
qed

text \<open>C23: The reply of \<^verbatim>\<open>OpenStream\<close> can be taken by the host's own read loop, which reads from the same
  control stream: if the read loop makes its pass first, it takes the reply for a request of the
  peer.  It sends the handshake back once more and blocks offering a stream that the peer never
  opened, and \<^verbatim>\<open>OpenStream\<close> waits with nothing left to read.\<close>

theorem open_reply_taken:
  fixes a :: "('h, 'm, 's) QPartsConn"
  assumes "duplex rd wr pend sent" "control_ready pend a"
    and "OpenStream_request wr pref rnd a = Goes (Inr req, a1)"
    and "control_sent sent a1 = control_sent sent a @ bs" "receives pend bs a1 a2"
  shows "\<exists>a3. cp_readLoop rd wr a2 = Goes a3 \<and> conn_OpenStream_reply rd req a3 = Waits
     \<and> cp_NewStreamChan (conn_ControlPlane a3) = Some (new_stream rnd 0)
     \<and> control_sent sent a3 = control_sent sent a2 @ bs \<and> cp_readLoop rd wr a3 = Waits"
proof -
  let ?bs = "wire PARTS_MSG_STREAM_HS rnd 0"
    and ?p = "(hs_packet PARTS_MSG_STREAM_HS rnd 0)\<lparr>ns_Data := wire PARTS_MSG_STREAM_HS rnd 0\<rparr>"
  from assms(2) obtain s where s: "control_stream a = Some s" by (auto simp: control_ready_def)
  from OpenStream_request_ok [OF assms(1) s] obtain s1 where
    "OpenStream_request wr pref rnd a = Goes (Inr (new_stream rnd 0, ?p), set_control_stream s1 a)" "sent s1 = sent s @ ?bs" .
  with assms(3,4) s have req: "req = (new_stream rnd 0, ?p)" "a1 = set_control_stream s1 a" "bs = ?bs"
    by (auto simp: control_sent_def)
  with assms(2,5) obtain t where t: "control_stream a2 = Some t" "cp_NewStreamChan (conn_ControlPlane a2) = None"
    "pend t = ?bs @ []" by (auto simp: receives_def control_ready_def)
  from cp_readLoop_message [OF assms(1) t] obtain t1 where t1: "pend t1 = []" "sent t1 = sent t @ ?bs"
    and run: "cp_readLoop rd wr a2 = Goes (upd_cp (\<lambda>cp. cp\<lparr>cp_NewStreamChan := Some (new_stream rnd 0)\<rparr>) (set_control_stream t1 a2))"
    (is "_ = Goes ?a3") by auto
  have a3: "control_stream ?a3 = Some t1" "cp_NewStreamChan (conn_ControlPlane ?a3) = Some (new_stream rnd 0)"
    by (simp_all add: control_stream_def set_control_stream_def upd_cp_def)
  moreover have "conn_OpenStream_reply rd (new_stream rnd 0, ?p) ?a3 = Waits"
    by (rule reply_waits [OF assms(1) a3(1) _ t1(1)]) simp
  moreover have "cp_readLoop rd wr ?a3 = Waits" by (simp add: cp_readLoop_def a3(2))
  moreover have "control_sent sent ?a3 = control_sent sent a2 @ ?bs"
    using t1(2) t(1) a3(1) by (simp add: control_sent_def)
  ultimately show ?thesis using run req(1,3) by blast
qed

theorem open_reply_taken_witness:
  "\<exists>req a1 a3. OpenStream_request pair_write 0 77 example_host = Goes (Inr req, a1)
     \<and> cp_readLoop pair_read pair_write (set_control_stream (control_sent snd a1, []) a1) = Goes a3
     \<and> conn_OpenStream_reply pair_read req a3 = Waits"
proof -
  from example_host(1) obtain s where s: "control_stream example_host = Some s" by (auto simp: control_ready_def)
  from OpenStream_request_ok [OF pair_duplex s, of 0 77] obtain req a1 where
    r: "OpenStream_request pair_write 0 77 example_host = Goes (Inr req, a1)" by blast
  have "control_sent snd a1 = control_sent snd example_host @ control_sent snd a1" by (simp add: example_host(2))
  from open_reply_taken [OF pair_duplex example_host(1) r this receives_host, of "[]"] r show ?thesis by blast
qed

text \<open>C31: \<^verbatim>\<open>SetPreference\<close> changes the preference of the stream on both hosts: the peer's read loop sets
  it on its stream of that id when the request arrives and sends the request back, and the caller
  sets its own when the bytes are back; no other stream changes.  If the peer has no stream of that
  id, its process panics.\<close>

theorem preference_agrees:
  fixes a :: "('h, 'm, 's) QPartsConn" and b :: "('h, 'm, 't) QPartsConn"
  assumes "duplex rd wr pend sent" "duplex rd' wr' pend' sent'" "control_ready pend a" "control_ready pend' b"
    and "conn_Streams a sid = Some sa"
  shows "\<exists>p a1 bs. ChangeStreamPreference_request wr sid pref a = Goes (Inr p, a1)
     \<and> control_sent sent a1 = control_sent sent a @ bs
     \<and> (\<forall>b1. receives pend' bs b b1 \<longrightarrow>
          (case conn_Streams b sid of
             None \<Rightarrow> cp_readLoop rd' wr' b1 = Panics NilDereference
           | Some sb \<Rightarrow> \<exists>b2. cp_readLoop rd' wr' b1 = Goes b2
               \<and> conn_Streams b2 = (conn_Streams b)(sid \<mapsto> sb\<lparr>ps_Preference := pref\<rparr>)
               \<and> control_sent sent' b2 = control_sent sent' b1 @ bs))
     \<and> (\<forall>a2. receives pend bs a1 a2 \<longrightarrow> (\<exists>a3. SetPreference_reply rd sid pref p a2 = Goes (None, a3)
          \<and> conn_Streams a3 = (conn_Streams a)(sid \<mapsto> sa\<lparr>ps_Preference := pref\<rparr>)))"
proof -
  let ?bs = "wire PARTS_MSG_STREAM_PROPERTY sid pref"
  let ?p = "(hs_packet PARTS_MSG_STREAM_PROPERTY sid pref)\<lparr>ns_Data := ?bs\<rparr>"
  from assms(3) obtain s where s: "control_stream a = Some s" by (auto simp: control_ready_def)
  from ChangeStreamPreference_request_ok [OF assms(1) s] obtain s1 where
    req: "ChangeStreamPreference_request wr sid pref a = Goes (Inr ?p, set_control_stream s1 a)" "sent s1 = sent s @ ?bs" .
  have peer: "case conn_Streams b sid of
      None \<Rightarrow> cp_readLoop rd' wr' b1 = Panics NilDereference
    | Some sb \<Rightarrow> \<exists>b2. cp_readLoop rd' wr' b1 = Goes b2
        \<and> conn_Streams b2 = (conn_Streams b)(sid \<mapsto> sb\<lparr>ps_Preference := pref\<rparr>)
        \<and> control_sent sent' b2 = control_sent sent' b1 @ ?bs"
    if r: "receives pend' ?bs b b1" for b1
  proof -
    from r assms(4) obtain t where t: "control_stream b1 = Some t" "cp_NewStreamChan (conn_ControlPlane b1) = None"
      "pend' t = ?bs @ []" and b: "conn_Streams b1 = conn_Streams b"
      by (auto simp: receives_def control_ready_def)
    from cp_readLoop_message [OF assms(2) t] obtain t1 where "sent' t1 = sent' t @ ?bs"
      "cp_readLoop rd' wr' b1 = lr_go (set_preference sid pref (set_control_stream t1 b1))"
      by (auto simp: PARTS_MSG_STREAM_HS_def PARTS_MSG_STREAM_PROPERTY_def)
    with t(1) b show ?thesis
      by (auto simp: set_preference_def control_sent_def control_stream_def set_control_stream_def upd_cp_def
          conn_Streams_def split: option.split)
  qed
  have own: "\<exists>a3. SetPreference_reply rd sid pref ?p a2 = Goes (None, a3)
      \<and> conn_Streams a3 = (conn_Streams a)(sid \<mapsto> sa\<lparr>ps_Preference := pref\<rparr>)"
    if r: "receives pend ?bs (set_control_stream s1 a) a2" for a2
  proof -
    from r obtain t where t: "control_stream a2 = Some t" "pend t = ?bs @ []" and a: "conn_Streams a2 = conn_Streams a"
      by (auto simp: receives_def)
    from reply_ok [OF assms(1) t(1) _ t(2), of ?p undefined] obtain t1 where
      "ChangeStreamPreference_reply rd ?p a2 = Goes (None, set_control_stream t1 a2)" by auto
    with a assms(5) show ?thesis by (simp add: SetPreference_reply_def set_preference_def) (simp add: conn_Streams_def)
  qed
  have sent: "control_sent sent (set_control_stream s1 a) = control_sent sent a @ ?bs"
    using req(2) s by (simp add: control_sent_def)
  show ?thesis
    by (rule exI, rule exI, rule exI, rule conjI, rule req(1), rule conjI, rule sent, rule conjI)
      (use peer own in blast)+
qed

definition stream_host :: "(string, nat, byte list \<times> byte list) QPartsConn" where
  "stream_host = put_stream (new_stream 9 0) example_host"

theorem preference_agrees_witness:
  "\<exists>p a1. ChangeStreamPreference_request pair_write 9 5 stream_host = Goes (Inr p, a1)
     \<and> (\<exists>b2 s. cp_readLoop pair_read pair_write (set_control_stream (control_sent snd a1, []) stream_host) = Goes b2
         \<and> conn_Streams b2 9 = Some s \<and> ps_Preference s = 5)
     \<and> cp_readLoop pair_read pair_write (set_control_stream (control_sent snd a1, []) example_host) = Panics NilDereference"
proof -
  have h: "control_ready fst stream_host" "control_sent snd stream_host = []" "conn_Streams stream_host 9 = Some (new_stream 9 0)"
    using example_host by (simp_all add: stream_host_def control_ready_def control_sent_def)
  from preference_agrees [OF pair_duplex pair_duplex h(1) h(1) h(3), of 5]
  obtain p a1 bs where p: "ChangeStreamPreference_request pair_write 9 5 stream_host = Goes (Inr p, a1)"
    "control_sent snd a1 = bs"
    and b': "\<forall>b1. receives fst bs stream_host b1 \<longrightarrow> (\<exists>b2. cp_readLoop pair_read pair_write b1 = Goes b2
       \<and> conn_Streams b2 = (conn_Streams stream_host)(9 \<mapsto> (new_stream 9 0)\<lparr>ps_Preference := 5\<rparr>)
       \<and> control_sent snd b2 = control_sent snd b1 @ bs)"
    unfolding h(2,3) append_Nil option.case by (elim exE conjE) (rule that, assumption+)
  have b: "\<exists>b2. cp_readLoop pair_read pair_write b1 = Goes b2
       \<and> conn_Streams b2 = (conn_Streams stream_host)(9 \<mapsto> (new_stream 9 0)\<lparr>ps_Preference := 5\<rparr>)"
    if "receives fst bs stream_host b1" for b1
    using b' [THEN spec, THEN mp, OF that] by (elim exE conjE) (rule exI, rule conjI)
  from preference_agrees [OF pair_duplex pair_duplex h(1) example_host(1) h(3), of 5] p
  have n: "receives fst bs example_host b1 \<Longrightarrow> cp_readLoop pair_read pair_write b1 = Panics NilDereference" for b1
    by (auto simp: h(2) example_host(3))
  from b [OF receives_host, of "[]"] obtain b2 where
    "cp_readLoop pair_read pair_write (set_control_stream (bs, []) stream_host) = Goes b2"
    "conn_Streams b2 = (conn_Streams stream_host)(9 \<mapsto> (new_stream 9 0)\<lparr>ps_Preference := 5\<rparr>)" by blast
  moreover from this(2) have "conn_Streams b2 9 = Some ((new_stream 9 0)\<lparr>ps_Preference := 5\<rparr>)"
    "ps_Preference ((new_stream 9 0)\<lparr>ps_Preference := 5\<rparr>) = 5" by simp_all
  ultimately show ?thesis using p n [OF receives_host, of "[]"] by blast
qed

end
