(* ===== verification/Handshake.thy ===== *)
theory Handshake
  imports ControlPlane
begin

text \<open>
  The rest of \<^verbatim>\<open>qparts_controlplane.go\<close>: \<^verbatim>\<open>Connect\<close> and \<^verbatim>\<open>ListenAndAccept\<close> with their handshake,
  the races that open the QUIC streams of the data plane, and the entry points of
  \<^verbatim>\<open>qparts_conn.go\<close>, \<^verbatim>\<open>qparts_listener.go\<close> and \<^verbatim>\<open>qparts.go\<close> above them.  What the SCION daemon, the
  QUIC library and the random numbers answer is a record of arguments.  The goroutines of a race share
  the error text and the map of streams; they are run one after the other, in the order in which they
  finish, which is an argument as well.
\<close>

section \<open>The world around a connection\<close>

text \<open>The global variables: the log silencer, the path cache and the metrics.\<close>

record 'm world =
  w_silencer :: silencer
  w_Paths :: "'m PathCache"
  w_State :: "'m NetworkState"

record ('h, 'm, 's) environment =
  env_meta :: "'m metadata"
  env_daemon :: "('h, 'm) UDPAddr \<Rightarrow> string + 'm list"
  env_text :: "('h, 'm) UDPAddr \<Rightarrow> string"
  env_range :: "u64 list"
  env_open :: "'s open_results"
  env_peer :: "('h, 'm) UDPAddr"
  env_rand :: u64
  env_opens :: "nat \<Rightarrow> 's open_results"
  env_ids :: "nat \<Rightarrow> u64"
  env_finish :: "nat list"
  env_read :: "'s qread"
  env_write :: "'s qwrite"

fun error_text :: "io_err \<Rightarrow> string" where
  "error_text EOF = ''EOF''"
| "error_text UnexpectedEOF = ''unexpected EOF''"
| "error_text ShortWrite = ''short write''"
| "error_text InvalidWrite = ''invalid write result''"
| "error_text (IOError msg) = msg"

definition hello :: "byte list" where
  "hello = map of_char ''Hello from CP''"

definition getVersion :: u64 where
  "getVersion = 1"

section \<open>Racing for data plane streams\<close>

type_synonym ('h, 'm, 's) race = "string \<times> silencer \<times> ('h, 'm, 's) QPartsConn"

definition upd_dp ::
  "((('h, 'm) UDPAddr, 'm QPartsPath, 's) QPartsDataplane \<Rightarrow> (('h, 'm) UDPAddr, 'm QPartsPath, 's) QPartsDataplane)
     \<Rightarrow> ('h, 'm, 's) QPartsConn \<Rightarrow> ('h, 'm, 's) QPartsConn" where
  "upd_dp f c = c\<lparr>conn_Dataplane := f (conn_Dataplane c)\<rparr>"

text \<open>\<^verbatim>\<open>a.Copy()\<close> with \<^verbatim>\<open>Host.Port\<close> set to \<^verbatim>\<open>int(hs.StartPortRange) + i\<close>; a nil handshake or address is
  dereferenced.\<close>

definition port_address ::
  "('h, 'm) UDPAddr option \<Rightarrow> QPartsHandshakePacket option \<Rightarrow> nat \<Rightarrow> ('h, 'm) UDPAddr go" where
  "port_address a hs i =
     (case (a, hs) of
        (Some addr, Some p) \<Rightarrow> Inr (addr\<lparr>ua_Port := uint (hs_StartPortRange p) + int i\<rparr>)
      | _ \<Rightarrow> Inl NilDereference)"

text \<open>One goroutine of \<^verbatim>\<open>RaceDialDataplaneStreams\<close>.\<close>

definition race_dial ::
  "('h, 'm, 's) environment \<Rightarrow> nat \<Rightarrow> ('h, 'm, 's) race \<Rightarrow> ('h, 'm, 's) race loop_result" where
  "race_dial env i = (\<lambda>(errStr, sl, c).
     let cp = conn_ControlPlane c in
     lr_bind (lr_go (go_index (cp_initialPathSelection cp) i)) (\<lambda>path.
     lr_bind (lr_go (port_address (Some (cp_local cp)) (cp_localHandshake cp) i)) (\<lambda>local.
     lr_bind (lr_go (port_address (cp_remote cp) (cp_remoteHandshake cp) i)) (\<lambda>remote0.
       let remote = remote0\<lparr>ua_Path := Some (p_Internal path), ua_NextHop := Some (p_Internal path)\<rparr> in
       case DialAndOpenWithPath (env_opens env i) sl NewSingleStreamQUICConn local remote (Some path) of
         (sl1, Inl f) \<Rightarrow> Panics f
       | (sl1, Inr (ssqc, Some e)) \<Rightarrow> Goes (errStr @ error_text e, sl1, c)
       | (sl1, Inr (ssqc, None)) \<Rightarrow>
           (case ssqc_stream (ssqc_SetPath ssqc (Some path)) of
              None \<Rightarrow> Panics NilDereference
            | Some s \<Rightarrow>
                (case WriteAll (env_write env) s hello of
                   None \<Rightarrow> Waits
                 | Some (_, Some e, _) \<Rightarrow> Goes (errStr @ error_text e, sl1, c)
                 | Some (_, None, s1) \<Rightarrow>
                     (case ReadAll (env_read env) s1 (length hello) of
                        None \<Rightarrow> Waits
                      | Some (_, Some e, _) \<Rightarrow> Goes (errStr @ error_text e, sl1, c)
                      | Some (_, None, s2) \<Rightarrow>
                          Goes (errStr, sl1, upd_dp (AddDialStream (env_ids env i) s2 (Some path)) c))))))))"

text \<open>One goroutine of \<^verbatim>\<open>RaceListenDataplaneStreams\<close>: it sends back the bytes it has read.\<close>

definition race_listen ::
  "('h, 'm, 's) environment \<Rightarrow> nat \<Rightarrow> ('h, 'm, 's) race \<Rightarrow> ('h, 'm, 's) race loop_result" where
  "race_listen env i = (\<lambda>(errStr, sl, c).
     let cp = conn_ControlPlane c in
     lr_bind (lr_go (port_address (Some (cp_local cp)) (cp_localHandshake cp) i)) (\<lambda>local.
       case ListenAndAccept (env_opens env i) sl NewSingleStreamQUICConn local of
         (sl1, Inl f) \<Rightarrow> Panics f
       | (sl1, Inr (ssqc :: (('h, 'm) UDPAddr, 'm QPartsPath, 's) SingleStreamQUICConn, Some e)) \<Rightarrow>
           Goes (errStr @ error_text e, sl1, c)
       | (sl1, Inr (ssqc, None)) \<Rightarrow>
           (case ssqc_stream ssqc of
              None \<Rightarrow> Panics NilDereference
            | Some s \<Rightarrow>
                (case ReadAll (env_read env) s (length hello) of
                   None \<Rightarrow> Waits
                 | Some (_, Some e, _) \<Rightarrow> Goes (errStr @ error_text e, sl1, c)
                 | Some (got, None, s1) \<Rightarrow>
                     if got = [] then Goes (errStr @ ''No data received'', sl1, c)
                     else
                       (case WriteAll (env_write env) s1 (go_copy hello got) of
                          None \<Rightarrow> Waits
                        | Some (_, Some e, _) \<Rightarrow> Goes (errStr @ error_text e, sl1, c)
                        | Some (_, None, s2) \<Rightarrow>
                            Goes (errStr, sl1, upd_dp (AddListenStream (env_ids env i) s2) c))))))"

fun race_loop :: "(nat \<Rightarrow> 'r \<Rightarrow> 'r loop_result) \<Rightarrow> nat list \<Rightarrow> 'r \<Rightarrow> 'r loop_result" where
  "race_loop one [] r = Goes r"
| "race_loop one (i # is) r = lr_bind (one i r) (race_loop one is)"

text \<open>After \<^verbatim>\<open>wg.Wait()\<close>: an error, or the loops of the data plane are started.\<close>

definition race_end ::
  "string \<Rightarrow> ('h, 'm, 's) race \<Rightarrow> io_err option \<times> silencer \<times> ('h, 'm, 's) QPartsConn" where
  "race_end what = (\<lambda>(errStr, sl, c).
     (if errStr \<noteq> '''' then Some (IOError (what @ errStr)) else None, sl, c))"

definition RaceDialDataplaneStreams ::
  "('h, 'm, 's) environment \<Rightarrow> silencer \<Rightarrow> ('h, 'm, 's) QPartsConn
     \<Rightarrow> (io_err option \<times> silencer \<times> ('h, 'm, 's) QPartsConn) loop_result" where
  "RaceDialDataplaneStreams env sl c =
     lr_bind (race_loop (race_dial env)
         (filter (\<lambda>i. i < length (cp_initialPathSelection (conn_ControlPlane c))) (env_finish env)) ('''', sl, c))
       (\<lambda>r. Goes (race_end ''failed to dial at least one stream '' r))"

definition RaceListenDataplaneStreams ::
  "('h, 'm, 's) environment \<Rightarrow> nat \<Rightarrow> silencer \<Rightarrow> ('h, 'm, 's) QPartsConn
     \<Rightarrow> (io_err option \<times> silencer \<times> ('h, 'm, 's) QPartsConn) loop_result" where
  "RaceListenDataplaneStreams env numStreams sl c =
     lr_bind (race_loop (race_listen env) (filter (\<lambda>i. i < numStreams) (env_finish env)) ('''', sl, c))
       (\<lambda>r. Goes (race_end ''failed to listen at least one stream '' r))"

section \<open>Connect\<close>

text \<open>The handshake packet of a host with its first data port and the number of its streams.\<close>

definition handshake :: "u64 \<Rightarrow> u16 \<Rightarrow> u16 \<Rightarrow> u16 \<Rightarrow> QPartsHandshakePacket" where
  "handshake rnd startPort endPort num = NewQPartsHandshakePacket
     \<lparr>hs_ConnId := rnd, hs_Flags := PARTS_MSG_HS, hs_Version := getVersion,
      hs_StartPortRange := startPort, hs_EndPortRange := endPort, hs_NumStreams := num\<rparr>"

text \<open>Up to the wait for the reply.  The first component is the returned error.\<close>

definition Connect_request ::
  "('h, 'm, 's) environment \<Rightarrow> ('h, 'm) UDPAddr \<Rightarrow> 'm world \<times> ('h, 'm, 's) QPartsConn
     \<Rightarrow> (io_err option \<times> 'm world \<times> ('h, 'm, 's) QPartsConn) loop_result" where
  "Connect_request env remote = (\<lambda>(w, c).
     lr_bind (lr_go (PathCache_Get (env_meta env) (env_daemon env remote) (env_text env remote) (w_Paths w))) (\<lambda>(r, pc).
     let w1 = w\<lparr>w_Paths := pc\<rparr> in
     case r of Inl msg \<Rightarrow> Goes (Some (IOError msg), w1, c) | Inr paths \<Rightarrow>
     lr_bind (lr_go (sched_InitialPathSelection (env_text env remote) 0
        (cp_Scheduler (conn_ControlPlane c)) (w_State w1))) (\<lambda>n.
     lr_bind (lr_go (ActivePaths (env_range env) (env_text env remote) n)) (\<lambda>sel.
     let w2 = w1\<lparr>w_State := n\<rparr>;
         c1 = upd_cp (\<lambda>cp. cp\<lparr>cp_initialPathSelection := sel\<rparr>) c in
     lr_bind (lr_go (go_index paths 0)) (\<lambda>path.
     let rAddr = remote\<lparr>ua_NextHop := Some (p_Internal path), ua_Path := Some (p_Internal path)\<rparr>;
         cp = conn_ControlPlane c1 in
     case DialAndOpenWithPath (env_open env) (w_silencer w2) (cp_ControlConn cp) (cp_local cp) rAddr (Some path) of
       (sl, Inl f) \<Rightarrow> Panics f
     | (sl, Inr (conn, err)) \<Rightarrow>
         let w3 = w2\<lparr>w_silencer := sl\<rparr>;
             c2 = upd_cp (\<lambda>cp. cp\<lparr>cp_ControlConn := conn\<rparr>) c1 in
         (case err of Some e \<Rightarrow> Goes (Some e, w3, c2) | None \<Rightarrow>
            lr_bind (lr_go (hs_Encode (handshake (env_rand env) 31500 31510 (of_nat (length sel))))) (\<lambda>hs.
            let c3 = upd_cp (\<lambda>cp. cp\<lparr>cp_remote := Some remote, cp_localHandshake := Some hs\<rparr>) c2 in
            lr_bind (ctl_write (env_write env) (hs_Data hs) c3) (\<lambda>(n, err, c4). Goes (err, w3, c4)))))))))"

text \<open>Reading the handshake of the other side.\<close>

definition read_handshake ::
  "('h, 'm, 's) environment \<Rightarrow> ('h, 'm, 's) QPartsConn
     \<Rightarrow> (io_err option \<times> ('h, 'm, 's) QPartsConn) loop_result" where
  "read_handshake env c =
     (let remoteHs = NewQPartsHandshakePacket in
      lr_bind (ctl_read (env_read env) (length (hs_Data remoteHs)) c) (\<lambda>(got, err, c1).
        case err of Some e \<Rightarrow> Goes (Some e, c1) | None \<Rightarrow>
        lr_bind (lr_go (hs_Decode (remoteHs\<lparr>hs_Data := go_copy (hs_Data remoteHs) got\<rparr>))) (\<lambda>hs.
          Goes (None, upd_cp (\<lambda>cp. cp\<lparr>cp_remoteHandshake := Some hs\<rparr>) c1))))"

text \<open>
  The rest of \<^verbatim>\<open>Connect\<close>.  The error of the race is dropped by the code; it is kept as the second
  component here, because without one the loops of the data plane run, and with one they do not.
\<close>

definition Connect_reply ::
  "('h, 'm, 's) environment \<Rightarrow> 'm world \<times> ('h, 'm, 's) QPartsConn
     \<Rightarrow> (io_err option \<times> io_err option \<times> 'm world \<times> ('h, 'm, 's) QPartsConn) loop_result" where
  "Connect_reply env = (\<lambda>(w, c).
     lr_bind (read_handshake env c) (\<lambda>(err, c1).
       case err of Some e \<Rightarrow> Goes (Some e, None, w, c1) | None \<Rightarrow>
       let cp = conn_ControlPlane c1 in
       lr_bind
         (if cp_dialOpts cp = Some QPARTS_PATH_SEL_RESPONSIBILITY_SERVER
          then RaceListenDataplaneStreams env (length (cp_initialPathSelection cp)) (w_silencer w) c1
          else RaceDialDataplaneStreams env (w_silencer w) c1)
         (\<lambda>(dropped, sl, c2). Goes (None, dropped, w\<lparr>w_silencer := sl\<rparr>, c2))))"

section \<open>Listen and accept\<close>

text \<open>Up to the reply that \<^verbatim>\<open>ListenAndAccept\<close> sends.\<close>

definition cp_ListenAndAccept_open ::
  "('h, 'm, 's) environment \<Rightarrow> 'm world \<times> ('h, 'm, 's) QPartsConn
     \<Rightarrow> (io_err option \<times> 'm world \<times> ('h, 'm, 's) QPartsConn) loop_result" where
  "cp_ListenAndAccept_open env = (\<lambda>(w, c).
     let cp = conn_ControlPlane c in
     case ListenAndAccept (env_open env) (w_silencer w) (cp_ControlConn cp) (cp_local cp) of
       (sl, Inl f) \<Rightarrow> Panics f
     | (sl, Inr (conn, err)) \<Rightarrow>
         Goes (err, w\<lparr>w_silencer := sl\<rparr>, upd_cp (\<lambda>cp. cp\<lparr>cp_ControlConn := conn\<rparr>) c))"

definition cp_ListenAndAccept_handshake ::
  "('h, 'm, 's) environment \<Rightarrow> ('h, 'm, 's) QPartsConn
     \<Rightarrow> (io_err option \<times> ('h, 'm, 's) QPartsConn) loop_result" where
  "cp_ListenAndAccept_handshake env c =
     lr_bind (read_handshake env c) (\<lambda>(err, c1).
       case err of Some e \<Rightarrow> Goes (Some e, c1) | None \<Rightarrow>
       lr_bind (lr_go (hs_Encode (handshake (env_rand env) 31600 31610 0))) (\<lambda>hs.
       let c2 = upd_cp (\<lambda>cp. cp\<lparr>cp_localHandshake := Some hs, cp_remote := Some (env_peer env)\<rparr>) c1 in
       lr_bind (ctl_write (env_write env) (hs_Data hs) c2) (\<lambda>(n, err, c3). Goes (err, c3))))"

definition cp_ListenAndAccept_race ::
  "('h, 'm, 's) environment \<Rightarrow> 'm world \<times> ('h, 'm, 's) QPartsConn
     \<Rightarrow> (io_err option \<times> 'm world \<times> ('h, 'm, 's) QPartsConn) loop_result" where
  "cp_ListenAndAccept_race env = (\<lambda>(w, c).
     let cp = conn_ControlPlane c in
     if cp_listenOpts cp = Some QPARTS_PATH_SEL_RESPONSIBILITY_SERVER then
       lr_bind (lr_go (sched_InitialPathSelection (env_text env (env_peer env)) 0 (cp_Scheduler cp) (w_State w))) (\<lambda>n.
       lr_bind (lr_go (ActivePaths (env_range env) (env_text env (env_peer env)) n)) (\<lambda>sel.
       let c1 = upd_cp (\<lambda>cp. cp\<lparr>cp_initialPathSelection := sel\<rparr>) c in
       lr_bind (RaceDialDataplaneStreams env (w_silencer w) c1) (\<lambda>(dropped, sl, c2).
         Goes (dropped, w\<lparr>w_State := n, w_silencer := sl\<rparr>, c2))))
     else
       (case cp_remoteHandshake cp of
          None \<Rightarrow> Panics NilDereference
        | Some hs \<Rightarrow>
            lr_bind (RaceListenDataplaneStreams env (unat (hs_NumStreams hs)) (w_silencer w) c) (\<lambda>(dropped, sl, c2).
              Goes (dropped, w\<lparr>w_silencer := sl\<rparr>, c2))))"

section \<open>Entry points\<close>

text \<open>\<^verbatim>\<open>snet.ParseUDPAddr\<close> is third-party: its result is the argument.  The functions that connect end at
  the wait for the reply, those that accept at the wait for the handshake.\<close>

definition conn_DialAndOpen ::
  "('h, 'm, 's) environment \<Rightarrow> ('h, 'm) UDPAddr \<Rightarrow> byte option \<Rightarrow> 'm world \<times> ('h, 'm, 's) QPartsConn
     \<Rightarrow> (io_err option \<times> 'm world \<times> ('h, 'm, 's) QPartsConn) loop_result" where
  "conn_DialAndOpen env remote opts = (\<lambda>(w, c).
     Connect_request env remote (w, upd_cp (\<lambda>cp. cp\<lparr>cp_dialOpts := opts\<rparr>) c))"

text \<open>The preference is handed to \<^verbatim>\<open>Connect\<close>, which does not use it.\<close>

definition conn_DialAndOpenWithPreference ::
  "('h, 'm, 's) environment \<Rightarrow> ('h, 'm) UDPAddr \<Rightarrow> byte option \<Rightarrow> u32 \<Rightarrow> 'm world \<times> ('h, 'm, 's) QPartsConn
     \<Rightarrow> (io_err option \<times> 'm world \<times> ('h, 'm, 's) QPartsConn) loop_result" where
  "conn_DialAndOpenWithPreference env remote opts preference = (\<lambda>(w, c).
     Connect_request env remote (w, upd_cp (\<lambda>cp. cp\<lparr>cp_dialOpts := opts\<rparr>) c))"

definition conn_ListenAndAccept ::
  "('h, 'm, 's) environment \<Rightarrow> byte option \<Rightarrow> 'm world \<times> ('h, 'm, 's) QPartsConn
     \<Rightarrow> (io_err option \<times> 'm world \<times> ('h, 'm, 's) QPartsConn) loop_result" where
  "conn_ListenAndAccept env opts = (\<lambda>(w, c).
     cp_ListenAndAccept_open env (w, upd_cp (\<lambda>cp. cp\<lparr>cp_listenOpts := opts\<rparr>) c))"

definition DialWithOpts ::
  "('h, 'm, 's) environment \<Rightarrow> string + ('h, 'm) UDPAddr \<Rightarrow> string + ('h, 'm) UDPAddr \<Rightarrow> byte option \<Rightarrow> 'm world
     \<Rightarrow> (string + io_err option \<times> 'm world \<times> ('h, 'm, 's) QPartsConn) loop_result" where
  "DialWithOpts env lAddr rAddr opts w =
     (case lAddr of Inl e \<Rightarrow> Goes (Inl e) | Inr local \<Rightarrow>
     (case rAddr of Inl e \<Rightarrow> Goes (Inl e) | Inr remote \<Rightarrow>
      lr_bind (conn_DialAndOpen env remote opts (w, NewQPartsConn local)) (\<lambda>r. Goes (Inr r))))"

definition Dial ::
  "('h, 'm, 's) environment \<Rightarrow> string + ('h, 'm) UDPAddr \<Rightarrow> string + ('h, 'm) UDPAddr \<Rightarrow> 'm world
     \<Rightarrow> (string + io_err option \<times> 'm world \<times> ('h, 'm, 's) QPartsConn) loop_result" where
  "Dial env lAddr rAddr w = DialWithOpts env lAddr rAddr None w"

text \<open>The listener and the caller share the connection; \<open>ql_conn\<close> is its copy at the end of \<^verbatim>\<open>Accept\<close>.\<close>

record ('h, 'm, 's) QPartsListener =
  ql_local :: "('h, 'm) UDPAddr"
  ql_conn :: "('h, 'm, 's) QPartsConn option"
  ql_opts :: "byte option"

definition NewQPartsListener :: "('h, 'm) UDPAddr \<Rightarrow> byte option \<Rightarrow> ('h, 'm, 's) QPartsListener" where
  "NewQPartsListener local opts = \<lparr>ql_local = local, ql_conn = None, ql_opts = opts\<rparr>"

definition ListenWithOpts :: "string + ('h, 'm) UDPAddr \<Rightarrow> byte option \<Rightarrow> string + ('h, 'm, 's) QPartsListener" where
  "ListenWithOpts laddr opts = (case laddr of Inl e \<Rightarrow> Inl e | Inr addr \<Rightarrow> Inr (NewQPartsListener addr opts))"

definition Listen :: "string + ('h, 'm) UDPAddr \<Rightarrow> string + ('h, 'm, 's) QPartsListener" where
  "Listen laddr = ListenWithOpts laddr None"

definition Listener_Accept ::
  "('h, 'm, 's) environment \<Rightarrow> ('h, 'm, 's) QPartsListener \<Rightarrow> 'm world
     \<Rightarrow> (io_err option \<times> 'm world \<times> ('h, 'm, 's) QPartsConn \<times> ('h, 'm, 's) QPartsListener) loop_result" where
  "Listener_Accept env ql w =
     lr_bind (conn_ListenAndAccept env (ql_opts ql) (w, NewQPartsConn (ql_local ql))) (\<lambda>(err, w1, conn).
       Goes (err, w1, conn, ql\<lparr>ql_conn := Some conn\<rparr>))"

definition ListenAndAcceptWithOpts ::
  "('h, 'm, 's) environment \<Rightarrow> string + ('h, 'm) UDPAddr \<Rightarrow> byte option \<Rightarrow> 'm world
     \<Rightarrow> (string + io_err option \<times> 'm world \<times> ('h, 'm, 's) QPartsConn) loop_result" where
  "ListenAndAcceptWithOpts env laddr opts w =
     (case laddr of
        Inl e \<Rightarrow> Goes (Inl e)
      | Inr addr \<Rightarrow>
          lr_bind (Listener_Accept env (NewQPartsListener addr opts) w) (\<lambda>(err, w1, conn, ql). Goes (Inr (err, w1, conn))))"

definition top_ListenAndAccept ::
  "('h, 'm, 's) environment \<Rightarrow> string + ('h, 'm) UDPAddr \<Rightarrow> 'm world
     \<Rightarrow> (string + io_err option \<times> 'm world \<times> ('h, 'm, 's) QPartsConn) loop_result" where
  "top_ListenAndAccept env laddr w = ListenAndAcceptWithOpts env laddr None w"

text \<open>Closing a listener closes the connection it accepted; before it has accepted one, it panics.\<close>

definition Listener_Close ::
  "('s \<Rightarrow> io_err option \<times> 's) \<Rightarrow> ('h, 'm, 's) QPartsListener \<Rightarrow> (io_err option \<times> ('h, 'm, 's) QPartsListener) go" where
  "Listener_Close close ql =
     (case ql_conn ql of
        None \<Rightarrow> Inl NilDereference
      | Some conn \<Rightarrow> go_bind (conn_Close close conn) (\<lambda>(err, conn'). Inr (err, ql\<lparr>ql_conn := Some conn'\<rparr>)))"

definition Listener_Addr :: "('h, 'm, 's) QPartsListener \<Rightarrow> ('h, 'm) UDPAddr" where
  "Listener_Addr ql = ql_local ql"

section \<open>Lemmas\<close>

lemma upd_cp_simps [simp]:
  "conn_ControlPlane (upd_cp f c) = f (conn_ControlPlane c)"
  "conn_Dataplane (upd_cp f c) = conn_Dataplane c"
  "upd_cp f (upd_cp g c) = upd_cp (\<lambda>cp. f (g cp)) c"
  "conn_ControlPlane (upd_dp h c) = conn_ControlPlane c"
  "conn_Dataplane (upd_dp h c) = h (conn_Dataplane c)"
  by (simp_all add: upd_cp_def upd_dp_def)

lemma length_hello [simp]: "length hello = 13"
  by (simp add: hello_def)

lemma handshake_encode:
  "hs_Encode (handshake rnd a b n) = Inr ((handshake rnd a b n)\<lparr>hs_Data := hs_wire (handshake rnd a b n)\<rparr>)"
  by (rule hs_Encode_wire) (simp add: handshake_def NewQPartsHandshakePacket_def)

lemma read_handshake_ok:
  assumes "duplex (env_read env) wr pend sent" "control_stream c = Some s" "pend s = hs_wire p @ rest"
  obtains s' where "read_handshake env c = Goes (None, upd_cp (\<lambda>cp. cp\<lparr>cp_remoteHandshake :=
      Some (p\<lparr>hs_Data := hs_wire p\<rparr>)\<rparr>) (set_control_stream s' c))" "pend s' = rest" "sent s' = sent s"
proof -
  have "26 \<le> length (pend s)" by (simp add: assms(3))
  from ctl_read_ok [OF assms(1,2) this] obtain s1 where
    s1: "ctl_read (env_read env) 26 c = Goes (take 26 (pend s), None, set_control_stream s1 c)"
      "pend s1 = drop 26 (pend s)" "sent s1 = sent s" .
  have "go_copy (replicate 26 0) (hs_wire p) = hs_wire p" by (simp add: go_copy_def)
  moreover have "hs_Decode (NewQPartsHandshakePacket\<lparr>hs_Data := hs_wire p\<rparr>) = Inr (p\<lparr>hs_Data := hs_wire p\<rparr>)"
    by (rule hs_Decode_wire) simp
  ultimately have "read_handshake env c = Goes (None, upd_cp (\<lambda>cp. cp\<lparr>cp_remoteHandshake :=
      Some (p\<lparr>hs_Data := hs_wire p\<rparr>)\<rparr>) (set_control_stream s1 c))"
    using s1(1) assms(3) by (simp add: read_handshake_def Let_def NewQPartsHandshakePacket_def)
  with s1 assms(3) show ?thesis by (intro that [of s1]) simp_all
qed

subsection \<open>Races\<close>

definition dial_error :: "'s open_results \<Rightarrow> io_err option" where
  "dial_error r = (case r_optconn r of Some e \<Rightarrow> Some e | None \<Rightarrow>
     (case r_quic r of Some e \<Rightarrow> Some e | None \<Rightarrow> (case r_stream r of Inl e \<Rightarrow> Some e | Inr s \<Rightarrow> None)))"

definition listen_error :: "'s open_results \<Rightarrow> io_err option" where
  "listen_error r = (case r_optconn r of Some e \<Rightarrow> Some e | None \<Rightarrow> (case r_tls r of Some e \<Rightarrow> Some e | None \<Rightarrow>
     (case r_quic r of Some e \<Rightarrow> Some e | None \<Rightarrow> (case r_accept r of Some e \<Rightarrow> Some e | None \<Rightarrow>
       (case r_stream r of Inl e \<Rightarrow> Some e | Inr s \<Rightarrow> None)))))"

definition error_part :: "io_err option \<Rightarrow> string" where
  "error_part e = (case e of None \<Rightarrow> '''' | Some e \<Rightarrow> error_text e)"

text \<open>A fresh data plane stream over the QUIC stream \<open>s\<close>.\<close>

definition fresh_stream :: "'path option \<Rightarrow> 's \<Rightarrow> ('addr, 'path, 's) QPartsDataplaneStream" where
  "fresh_stream path s = \<lparr>ds_ssqc = s, ds_PartsPath = path, ds_Queue = NewQueue, ds_StreamType = 0,
     ds_OptimalPartSize = 0\<rparr>"

definition set_streams ::
  "(u64 \<rightharpoonup> (('h, 'm) UDPAddr, 'm QPartsPath, 's) QPartsDataplaneStream)
     \<Rightarrow> ('h, 'm, 's) QPartsConn \<Rightarrow> ('h, 'm, 's) QPartsConn" where
  "set_streams X = upd_dp (\<lambda>dp. dp\<lparr>dpl_Streams := X\<rparr>)"

lemma set_streams_simps [simp]:
  "set_streams X (set_streams Y c) = set_streams X c"
  "conn_ControlPlane (set_streams X c) = conn_ControlPlane c"
  "dpl_Streams (conn_Dataplane (set_streams X c)) = X"
  "upd_dp (AddDialStream k s path) (set_streams X c) = set_streams (X(k \<mapsto> fresh_stream path s)) c"
  "upd_dp (AddListenStream k s) (set_streams X c) = set_streams (X(k \<mapsto> fresh_stream None s)) c"
  by (simp_all add: set_streams_def upd_dp_def AddDialStream_def AddListenStream_def fresh_stream_def)

lemma set_streams_same: "set_streams (dpl_Streams (conn_Dataplane c)) c = c"
  by (simp add: set_streams_def upd_dp_def)

text \<open>The control plane is ready for a race: both handshakes and the remote are known.\<close>

definition race_ready :: "('h, 'm, 's) QPartsConn \<Rightarrow> bool" where
  "race_ready c \<longleftrightarrow> cp_localHandshake (conn_ControlPlane c) \<noteq> None
     \<and> cp_remoteHandshake (conn_ControlPlane c) \<noteq> None \<and> cp_remote (conn_ControlPlane c) \<noteq> None"

text \<open>What the other side of a new QUIC stream sends covers the greeting.\<close>

definition greeted :: "('s \<Rightarrow> byte list) \<Rightarrow> 's open_results \<Rightarrow> bool" where
  "greeted pend r \<longleftrightarrow> (case r_stream r of Inl e \<Rightarrow> True | Inr s \<Rightarrow> 13 \<le> length (pend s))"

text \<open>\<open>y\<close> is the data plane stream over the QUIC stream of \<open>r\<close>, after the greeting \<open>bs\<close> was sent on it and
  the greeting of the other side was read.\<close>

definition greeting_sent ::
  "('s \<Rightarrow> byte list) \<Rightarrow> ('s \<Rightarrow> byte list) \<Rightarrow> 'path option \<Rightarrow> byte list \<Rightarrow> 's open_results
     \<Rightarrow> ('addr, 'path, 's) QPartsDataplaneStream \<Rightarrow> bool" where
  "greeting_sent sent pend path bs r y \<longleftrightarrow>
     (\<forall>s. r_stream r = Inr s \<longrightarrow> (\<exists>s'. y = fresh_stream path s' \<and> sent s' = sent s @ bs \<and> pend s' = drop 13 (pend s)))"

lemma greeting_sentI:
  "r_stream r = Inr s \<Longrightarrow> sent s' = sent s @ bs \<Longrightarrow> pend s' = drop 13 (pend s)
    \<Longrightarrow> greeting_sent sent pend path bs r (fresh_stream path s')"
  by (auto simp: greeting_sent_def)

lemma race_dial_step:
  assumes "duplex (env_read env) (env_write env) pend sent" "race_ready c" "greeted pend (env_opens env i)"
    and "i < length (cp_initialPathSelection (conn_ControlPlane c))" "k + 1 < 2 ^ 31"
  shows "\<exists>y. greeting_sent sent pend (Some (cp_initialPathSelection (conn_ControlPlane c) ! i)) hello (env_opens env i) y
     \<and> race_dial env i (err, silenced w k, set_streams X c)
      = Goes (err @ error_part (dial_error (env_opens env i)), silenced w (k + dial_silences (env_opens env i)),
          set_streams (if dial_error (env_opens env i) = None then X(env_ids env i \<mapsto> y) else X) c)"
proof -
  let ?r = "env_opens env i" and ?cp = "conn_ControlPlane c"
  obtain lh rh rem where hs: "cp_localHandshake ?cp = Some lh" "cp_remoteHandshake ?cp = Some rh" "cp_remote ?cp = Some rem"
    using assms(2) by (auto simp: race_ready_def)
  note log = silenceLog_silenced [OF assms(5), of w] unsilenceLog_silenced [OF assms(5), of w]
  show ?thesis
  proof (cases "r_stream ?r")
    case (Inl e)
    then show ?thesis using hs log assms(4)
      by (auto simp: race_dial_def Let_def go_index_def port_address_def DialAndOpenWithPath_def dial_error_def
          error_part_def dial_silences_def greeting_sent_def split: option.split)
  next
    case (Inr s)
    obtain s1 where s1: "WriteAll (env_write env) s hello = Some (13, None, s1)" "sent s1 = sent s @ hello"
      using WriteAll_accepts [OF duplexD(3) [OF assms(1)], of s hello] by auto
    have p1: "pend s1 = pend s" by (rule WriteAll_keeps [OF duplexD(5) [OF assms(1)] s1(1)])
    then have "13 \<le> length (pend s1)" using assms(3) Inr by (simp add: greeted_def)
    then obtain s2 where s2: "ReadAll (env_read env) s1 13 = Some (take 13 (pend s1), None, s2)" "pend s2 = drop 13 (pend s1)"
      using ReadAll_delivers [OF duplexD(1) [OF assms(1)]] by blast
    have "sent s2 = sent s1" by (rule ReadAll_keeps [OF duplexD(4) [OF assms(1)] s2(1)])
    with s1(2) s2(2) p1 Inr have "greeting_sent sent pend (Some (cp_initialPathSelection ?cp ! i)) hello ?r
        (fresh_stream (Some (cp_initialPathSelection ?cp ! i)) s2)" by (simp add: greeting_sentI)
    moreover have "race_dial env i (err, silenced w k, set_streams X c)
      = Goes (err @ error_part (dial_error ?r), silenced w (k + dial_silences ?r),
          set_streams (if dial_error ?r = None then X(env_ids env i
            \<mapsto> fresh_stream (Some (cp_initialPathSelection ?cp ! i)) s2) else X) c)"
      using hs log assms(4) Inr s1(1) s2(1)
      by (auto simp: race_dial_def Let_def go_index_def port_address_def DialAndOpenWithPath_def dial_error_def
          error_part_def dial_silences_def ssqc_SetPath_def split: option.split)
    ultimately show ?thesis by blast
  qed
qed

lemma race_listen_step:
  assumes "duplex (env_read env) (env_write env) pend sent" "race_ready c" "greeted pend (env_opens env i)"
    and "k + 1 < 2 ^ 31"
  shows "\<exists>y. (\<forall>s. r_stream (env_opens env i) = Inr s \<longrightarrow>
          greeting_sent sent pend None (take 13 (pend s)) (env_opens env i) y)
     \<and> race_listen env i (err, silenced w k, set_streams X c)
      = Goes (err @ error_part (listen_error (env_opens env i)), silenced w (k + listen_silences (env_opens env i)),
          set_streams (if listen_error (env_opens env i) = None then X(env_ids env i \<mapsto> y) else X) c)"
proof -
  let ?r = "env_opens env i"
  obtain lh where hs: "cp_localHandshake (conn_ControlPlane c) = Some lh" using assms(2) by (auto simp: race_ready_def)
  note log = silenceLog_silenced [OF assms(4), of w] unsilenceLog_silenced [OF assms(4), of w]
  show ?thesis
  proof (cases "r_stream ?r")
    case (Inl e)
    then show ?thesis using hs log
      by (auto simp: race_listen_def Let_def port_address_def ListenAndAccept_def listen_error_def
          error_part_def listen_silences_def split: option.split)
  next
    case (Inr s)
    have p: "13 \<le> length (pend s)" using assms(3) Inr by (simp add: greeted_def)
    then obtain s1 where s1: "ReadAll (env_read env) s 13 = Some (take 13 (pend s), None, s1)" "pend s1 = drop 13 (pend s)"
      using ReadAll_delivers [OF duplexD(1) [OF assms(1)]] by blast
    have "sent s1 = sent s" by (rule ReadAll_keeps [OF duplexD(4) [OF assms(1)] s1(1)])
    moreover obtain s2 where s2: "WriteAll (env_write env) s1 (take 13 (pend s)) = Some (13, None, s2)"
      "sent s2 = sent s1 @ take 13 (pend s)"
      using WriteAll_accepts [OF duplexD(3) [OF assms(1)], of s1 "take 13 (pend s)"] p by auto
    moreover have "pend s2 = pend s1" by (rule WriteAll_keeps [OF duplexD(5) [OF assms(1)] s2(1)])
    ultimately have "greeting_sent sent pend None (take 13 (pend s)) ?r (fresh_stream None s2)"
      using Inr s1(2) by (simp add: greeting_sentI)
    moreover have "go_copy hello (take 13 (pend s)) = take 13 (pend s)" "take 13 (pend s) \<noteq> []"
      using p by (auto simp: go_copy_def min_absorb2)
    ultimately show ?thesis using hs log Inr s1(1) s2(1)
      by (intro exI [of _ "fresh_stream None s2"])
        (auto simp: race_listen_def Let_def port_address_def ListenAndAccept_def listen_error_def
          error_part_def listen_silences_def split: option.split)
  qed
qed

text \<open>The outcome of a race whose goroutines each act like this: their errors are collected, and the
  streams of those without an error are in the map.\<close>

lemma race_loop_outcome:
  assumes step: "\<And>i err k X. i \<in> I \<Longrightarrow> k + 1 < 2 ^ 31 \<Longrightarrow> \<exists>y. P i y
      \<and> one i (err, silenced w k, set_streams X c) = Goes (err @ error_part (e i), silenced w (k + leak i),
          set_streams (if e i = None then X(ids i \<mapsto> y) else X) c)"
    and "\<And>i. leak i \<le> (1 :: nat)" "inj_on ids I"
  shows "set is \<subseteq> I \<Longrightarrow> distinct is \<Longrightarrow> k + length is < 2 ^ 31 \<Longrightarrow>
    \<exists>X'. race_loop one is (err, silenced w k, set_streams X c)
        = Goes (err @ concat (map (\<lambda>i. error_part (e i)) is), silenced w (k + sum_list (map leak is)), set_streams X' c)
      \<and> (\<forall>i \<in> set is. e i = None \<longrightarrow> (\<exists>y. X' (ids i) = Some y \<and> P i y))
      \<and> (\<forall>j. j \<notin> ids ` {i \<in> set is. e i = None} \<longrightarrow> X' j = X j)"
proof (induction "is" arbitrary: err k X)
  case Nil
  then show ?case by auto
next
  case (Cons i "is")
  obtain y where y: "P i y" "one i (err, silenced w k, set_streams X c)
      = Goes (err @ error_part (e i), silenced w (k + leak i), set_streams (if e i = None then X(ids i \<mapsto> y) else X) c)"
    using step [of i k err X] Cons.prems by auto
  let ?X = "if e i = None then X(ids i \<mapsto> y) else X"
  have "k + leak i + length is < 2 ^ 31" using Cons.prems(3) assms(2) [of i] by simp
  then obtain X' where X': "race_loop one is (err @ error_part (e i), silenced w (k + leak i), set_streams ?X c)
        = Goes ((err @ error_part (e i)) @ concat (map (\<lambda>i. error_part (e i)) is),
            silenced w (k + leak i + sum_list (map leak is)), set_streams X' c)"
    "\<forall>i \<in> set is. e i = None \<longrightarrow> (\<exists>y. X' (ids i) = Some y \<and> P i y)"
    "\<forall>j. j \<notin> ids ` {i \<in> set is. e i = None} \<longrightarrow> X' j = ?X j"
    using Cons.IH [of "k + leak i" "err @ error_part (e i)" ?X] Cons.prems(1,2) by auto
  have "ids i \<notin> ids ` {i \<in> set is. e i = None}"
    using Cons.prems(1,2) assms(3) by (auto dest: inj_onD)
  with X'(3) have own: "e i = None \<Longrightarrow> X' (ids i) = Some y" by simp
  have "\<forall>j. j \<notin> ids ` {i' \<in> set (i # is). e i' = None} \<longrightarrow> X' j = X j"
  proof (intro allI impI)
    fix j
    assume "j \<notin> ids ` {i' \<in> set (i # is). e i' = None}"
    then have "j \<notin> ids ` {i \<in> set is. e i = None}" "e i = None \<Longrightarrow> j \<noteq> ids i" by auto
    with X'(3) show "X' j = X j" by simp
  qed
  with X'(1,2) y own show ?case by (intro exI [of _ X']) (auto simp: add.assoc)
qed

lemma silences_le: "dial_silences r \<le> 1" "listen_silences r \<le> 1"
  by (simp_all add: dial_silences_def listen_silences_def)

lemma dial_race:
  assumes "duplex (env_read env) (env_write env) pend sent" "race_ready c"
    and "n = length (cp_initialPathSelection (conn_ControlPlane c))"
    and "\<And>i. i < n \<Longrightarrow> greeted pend (env_opens env i)" "inj_on (env_ids env) {..<n}" "distinct (env_finish env)"
    and "k + n < 2 ^ 31"
  shows "\<exists>X k'. RaceDialDataplaneStreams env (silenced w k) c
       = Goes (race_end ''failed to dial at least one stream ''
           (concat (map (\<lambda>i. error_part (dial_error (env_opens env i))) (filter (\<lambda>i. i < n) (env_finish env))),
            silenced w k', set_streams X c))
     \<and> (\<forall>i \<in> set (env_finish env). i < n \<and> dial_error (env_opens env i) = None \<longrightarrow>
          (\<exists>y. X (env_ids env i) = Some y
            \<and> greeting_sent sent pend (Some (cp_initialPathSelection (conn_ControlPlane c) ! i)) hello (env_opens env i) y))
     \<and> (\<forall>j. j \<notin> env_ids env ` {i \<in> set (env_finish env). i < n \<and> dial_error (env_opens env i) = None}
          \<longrightarrow> X j = dpl_Streams (conn_Dataplane c) j)"
proof -
  let ?P = "\<lambda>i. greeting_sent sent pend (Some (cp_initialPathSelection (conn_ControlPlane c) ! i)) hello (env_opens env i)"
  let ?is = "filter (\<lambda>i. i < n) (env_finish env)" and ?X = "dpl_Streams (conn_Dataplane c)"
  have "length ?is \<le> n"
    using distinct_card [of ?is] card_mono [of "{..<n}" "set ?is"] assms(6) by auto
  then have len: "k + length ?is < 2 ^ 31" using assms(7) by simp
  have set: "set ?is \<subseteq> {..<n}" "distinct ?is" using assms(6) by auto
  have step: "\<exists>y. greeting_sent sent pend (Some (cp_initialPathSelection (conn_ControlPlane c) ! i)) hello (env_opens env i) y
     \<and> race_dial env i (err, silenced w k, set_streams X c)
      = Goes (err @ error_part (dial_error (env_opens env i)), silenced w (k + dial_silences (env_opens env i)),
          set_streams (if dial_error (env_opens env i) = None then X(env_ids env i \<mapsto> y) else X) c)"
    if "i \<in> {..<n}" "k + 1 < 2 ^ 31" for i err k X
    using race_dial_step [OF assms(1,2) assms(4)] that assms(3) by auto
  from race_loop_outcome [where one = "race_dial env" and ids = "env_ids env" and k = k and err = "''''" and X = ?X,
      OF step silences_le(1) assms(5) set len]
  obtain X where run: "race_loop (race_dial env) ?is ('''', silenced w k, c)
        = Goes ('''' @ concat (map (\<lambda>i. error_part (dial_error (env_opens env i))) ?is),
            silenced w (k + sum_list (map (\<lambda>i. dial_silences (env_opens env i)) ?is)), set_streams X c)"
    and X: "\<And>i. i \<in> set ?is \<Longrightarrow> dial_error (env_opens env i) = None \<Longrightarrow> \<exists>y. X (env_ids env i) = Some y \<and> ?P i y"
      "\<And>j. j \<notin> env_ids env ` {i \<in> set ?is. dial_error (env_opens env i) = None} \<Longrightarrow> X j = ?X j"
    unfolding set_streams_same by blast
  have set_is: "{i \<in> set ?is. dial_error (env_opens env i) = None}
      = {i \<in> set (env_finish env). i < n \<and> dial_error (env_opens env i) = None}" by auto
  have "RaceDialDataplaneStreams env (silenced w k) c
      = Goes (race_end ''failed to dial at least one stream ''
          (concat (map (\<lambda>i. error_part (dial_error (env_opens env i))) ?is),
           silenced w (k + sum_list (map (\<lambda>i. dial_silences (env_opens env i)) ?is)), set_streams X c))"
    unfolding RaceDialDataplaneStreams_def assms(3) [symmetric] run by (simp only: lr_simps append_Nil)
  moreover have "\<forall>i \<in> set (env_finish env). i < n \<and> dial_error (env_opens env i) = None
      \<longrightarrow> (\<exists>y. X (env_ids env i) = Some y \<and> ?P i y)"
  proof (intro ballI impI)
    fix i
    assume "i \<in> set (env_finish env)" "i < n \<and> dial_error (env_opens env i) = None"
    then show "\<exists>y. X (env_ids env i) = Some y \<and> ?P i y" by (intro X(1)) simp_all
  qed
  ultimately show ?thesis using X(2) unfolding set_is by blast
qed

lemma listen_race:
  assumes "duplex (env_read env) (env_write env) pend sent" "race_ready c"
    and "\<And>i. i < n \<Longrightarrow> greeted pend (env_opens env i)" "inj_on (env_ids env) {..<n}" "distinct (env_finish env)"
    and "k + n < 2 ^ 31"
  shows "\<exists>X k'. RaceListenDataplaneStreams env n (silenced w k) c
       = Goes (race_end ''failed to listen at least one stream ''
           (concat (map (\<lambda>i. error_part (listen_error (env_opens env i))) (filter (\<lambda>i. i < n) (env_finish env))),
            silenced w k', set_streams X c))
     \<and> (\<forall>i \<in> set (env_finish env). i < n \<and> listen_error (env_opens env i) = None \<longrightarrow>
          (\<exists>y. X (env_ids env i) = Some y \<and> (\<forall>s. r_stream (env_opens env i) = Inr s \<longrightarrow>
            greeting_sent sent pend None (take 13 (pend s)) (env_opens env i) y)))
     \<and> (\<forall>j. j \<notin> env_ids env ` {i \<in> set (env_finish env). i < n \<and> listen_error (env_opens env i) = None}
          \<longrightarrow> X j = dpl_Streams (conn_Dataplane c) j)"
proof -
  let ?P = "\<lambda>i y. \<forall>s. r_stream (env_opens env i) = Inr s \<longrightarrow>
            greeting_sent sent pend None (take 13 (pend s)) (env_opens env i) y"
  let ?is = "filter (\<lambda>i. i < n) (env_finish env)" and ?X = "dpl_Streams (conn_Dataplane c)"
  have "length ?is \<le> n"
    using distinct_card [of ?is] card_mono [of "{..<n}" "set ?is"] assms(5) by auto
  then have len: "k + length ?is < 2 ^ 31" using assms(6) by simp
  have set: "set ?is \<subseteq> {..<n}" "distinct ?is" using assms(5) by auto
  have step: "\<exists>y. (\<forall>s. r_stream (env_opens env i) = Inr s \<longrightarrow>
          greeting_sent sent pend None (take 13 (pend s)) (env_opens env i) y)
     \<and> race_listen env i (err, silenced w k, set_streams X c)
      = Goes (err @ error_part (listen_error (env_opens env i)), silenced w (k + listen_silences (env_opens env i)),
          set_streams (if listen_error (env_opens env i) = None then X(env_ids env i \<mapsto> y) else X) c)"
    if "i \<in> {..<n}" "k + 1 < 2 ^ 31" for i err k X
    using race_listen_step [OF assms(1,2) assms(3)] that by auto
  from race_loop_outcome [where one = "race_listen env" and ids = "env_ids env" and k = k and err = "''''" and X = ?X,
      OF step silences_le(2) assms(4) set len]
  obtain X where run: "race_loop (race_listen env) ?is ('''', silenced w k, c)
        = Goes ('''' @ concat (map (\<lambda>i. error_part (listen_error (env_opens env i))) ?is),
            silenced w (k + sum_list (map (\<lambda>i. listen_silences (env_opens env i)) ?is)), set_streams X c)"
    and X: "\<And>i. i \<in> set ?is \<Longrightarrow> listen_error (env_opens env i) = None \<Longrightarrow> \<exists>y. X (env_ids env i) = Some y \<and> ?P i y"
      "\<And>j. j \<notin> env_ids env ` {i \<in> set ?is. listen_error (env_opens env i) = None} \<Longrightarrow> X j = ?X j"
    unfolding set_streams_same by blast
  have set_is: "{i \<in> set ?is. listen_error (env_opens env i) = None}
      = {i \<in> set (env_finish env). i < n \<and> listen_error (env_opens env i) = None}" by auto
  have "RaceListenDataplaneStreams env n (silenced w k) c
      = Goes (race_end ''failed to listen at least one stream ''
          (concat (map (\<lambda>i. error_part (listen_error (env_opens env i))) ?is),
           silenced w (k + sum_list (map (\<lambda>i. listen_silences (env_opens env i)) ?is)), set_streams X c))"
    unfolding RaceListenDataplaneStreams_def run by (simp only: lr_simps append_Nil)
  moreover have "\<forall>i \<in> set (env_finish env). i < n \<and> listen_error (env_opens env i) = None
      \<longrightarrow> (\<exists>y. X (env_ids env i) = Some y \<and> ?P i y)"
  proof (intro ballI impI)
    fix i
    assume "i \<in> set (env_finish env)" "i < n \<and> listen_error (env_opens env i) = None"
    then show "\<exists>y. X (env_ids env i) = Some y \<and> ?P i y" by (intro X(1)) simp_all
  qed
  ultimately show ?thesis using X(2) unfolding set_is by blast
qed

subsection \<open>Connecting\<close>

lemma first_scheduler: "sched_InitialPathSelection remote pref NewScheduler n = Inr n"
  by (simp add: sched_InitialPathSelection_def NewScheduler_def ActivatePlugin_def NewSchedulerECMP_def via_plugin_def
      ECMP_OnNewStream_def)

text \<open>What \<^verbatim>\<open>Connect\<close> needs to get as far as the wait for the reply.\<close>

definition connectable ::
  "('h, 'm, 's) environment \<Rightarrow> ('h, 'm) UDPAddr \<Rightarrow> 'm QPartsPath list \<Rightarrow> 's \<Rightarrow> 'm world \<Rightarrow> ('h, 'm, 's) QPartsConn \<Rightarrow> bool" where
  "connectable env remote sel s0 w c \<longleftrightarrow>
     (\<exists>p ps pc. PathCache_Get (env_meta env) (env_daemon env remote) (env_text env remote) (w_Paths w) = Inr (Inr (p # ps), pc))
     \<and> cp_Scheduler (conn_ControlPlane c) = NewScheduler
     \<and> ActivePaths (env_range env) (env_text env remote) (w_State w) = Inr sel
     \<and> dial_error (env_open env) = None \<and> r_stream (env_open env) = Inr s0
     \<and> (\<exists>wr n. w_silencer w = silenced wr n \<and> n + 1 < 2 ^ 31)"

lemma Connect_request_ok:
  assumes "duplex (env_read env) (env_write env) pend sent" "connectable env remote sel s0 w c"
  obtains w1 c1 s1 where "Connect_request env remote (w, c) = Goes (None, w1, c1)"
    "control_stream c1 = Some s1" "sent s1 = sent s0 @ hs_wire (handshake (env_rand env) 31500 31510 (of_nat (length sel)))"
    "pend s1 = pend s0" "cp_initialPathSelection (conn_ControlPlane c1) = sel"
    "cp_localHandshake (conn_ControlPlane c1) = Some ((handshake (env_rand env) 31500 31510 (of_nat (length sel)))
        \<lparr>hs_Data := hs_wire (handshake (env_rand env) 31500 31510 (of_nat (length sel)))\<rparr>)"
    "cp_remote (conn_ControlPlane c1) = Some remote" "conn_Dataplane c1 = conn_Dataplane c"
    "cp_dialOpts (conn_ControlPlane c1) = cp_dialOpts (conn_ControlPlane c)" "w_silencer w1 = w_silencer w"
    "cp_NewStreamChan (conn_ControlPlane c1) = cp_NewStreamChan (conn_ControlPlane c)"
proof -
  let ?hs = "handshake (env_rand env) 31500 31510 (of_nat (length sel))"
  obtain p ps pc wr n where g: "PathCache_Get (env_meta env) (env_daemon env remote) (env_text env remote) (w_Paths w)
      = Inr (Inr (p # ps), pc)" "cp_Scheduler (conn_ControlPlane c) = NewScheduler"
    "ActivePaths (env_range env) (env_text env remote) (w_State w) = Inr sel"
    "dial_error (env_open env) = None" "r_stream (env_open env) = Inr s0" "w_silencer w = silenced wr n" "n + 1 < 2 ^ 31"
    using assms(2) unfolding connectable_def by blast
  let ?addr = "remote\<lparr>ua_NextHop := Some (p_Internal p), ua_Path := Some (p_Internal p)\<rparr>"
  let ?c1 = "upd_cp (\<lambda>cp. cp\<lparr>cp_initialPathSelection := sel\<rparr>) c"
  have r: "r_optconn (env_open env) = None" "r_quic (env_open env) = None"
    using g(4) by (auto simp: dial_error_def split: option.splits)
  obtain conn where d: "DialAndOpenWithPath (env_open env) (w_silencer w) (cp_ControlConn (conn_ControlPlane ?c1))
      (cp_local (conn_ControlPlane ?c1)) ?addr (Some p) = (w_silencer w, Inr (conn, None))" "ssqc_stream conn = Some s0"
    using silenceLog_silenced [OF g(7), of wr] unsilenceLog_silenced [OF g(7), of wr] r g(5,6)
    by (simp add: DialAndOpenWithPath_def Let_def)
  let ?c3 = "upd_cp (\<lambda>cp. cp\<lparr>cp_initialPathSelection := sel, cp_ControlConn := conn, cp_remote := Some remote,
      cp_localHandshake := Some (?hs\<lparr>hs_Data := hs_wire ?hs\<rparr>)\<rparr>) c"
  have "control_stream ?c3 = Some s0" using d(2) by (simp add: control_stream_def)
  from ctl_write_ok [OF assms(1) this] obtain s1 where
    s1: "ctl_write (env_write env) (hs_wire ?hs) ?c3 = Goes (26, None, set_control_stream s1 ?c3)"
      "sent s1 = sent s0 @ hs_wire ?hs" "pend s1 = pend s0" by (metis hs_wire_length)
  have "Connect_request env remote (w, c)
      = Goes (None, w\<lparr>w_Paths := pc, w_State := w_State w, w_silencer := w_silencer w\<rparr>, set_control_stream s1 ?c3)"
    using g(1-3) d(1) s1(1)
    by (simp add: Connect_request_def first_scheduler go_index_def Let_def handshake_encode)
  then show ?thesis
    by (rule that [of _ _ s1]) (simp_all add: s1, simp_all add: set_control_stream_def)
qed

lemma ListenAndAccept_handshake_ok:
  assumes "duplex (env_read env) (env_write env) pend sent" "control_stream c = Some s" "pend s = hs_wire p"
  obtains c2 s2 where "cp_ListenAndAccept_handshake env c = Goes (None, c2)" "control_stream c2 = Some s2"
    "sent s2 = sent s @ hs_wire (handshake (env_rand env) 31600 31610 0)" "pend s2 = []"
    "cp_remoteHandshake (conn_ControlPlane c2) = Some (p\<lparr>hs_Data := hs_wire p\<rparr>)"
    "cp_localHandshake (conn_ControlPlane c2) = Some ((handshake (env_rand env) 31600 31610 0)
        \<lparr>hs_Data := hs_wire (handshake (env_rand env) 31600 31610 0)\<rparr>)"
    "cp_remote (conn_ControlPlane c2) = Some (env_peer env)" "conn_Dataplane c2 = conn_Dataplane c"
    "cp_listenOpts (conn_ControlPlane c2) = cp_listenOpts (conn_ControlPlane c)"
    "cp_Scheduler (conn_ControlPlane c2) = cp_Scheduler (conn_ControlPlane c)"
    "cp_NewStreamChan (conn_ControlPlane c2) = cp_NewStreamChan (conn_ControlPlane c)"
proof -
  let ?hs = "handshake (env_rand env) 31600 31610 0"
  have p: "pend s = hs_wire p @ []" using assms(3) by simp
  from read_handshake_ok [OF assms(1,2) p] obtain s1 where
    s1: "read_handshake env c = Goes (None, upd_cp (\<lambda>cp. cp\<lparr>cp_remoteHandshake := Some (p\<lparr>hs_Data := hs_wire p\<rparr>)\<rparr>)
        (set_control_stream s1 c))" "pend s1 = []" "sent s1 = sent s" .
  let ?c2 = "upd_cp (\<lambda>cp. cp\<lparr>cp_localHandshake := Some (?hs\<lparr>hs_Data := hs_wire ?hs\<rparr>), cp_remote := Some (env_peer env)\<rparr>)
      (upd_cp (\<lambda>cp. cp\<lparr>cp_remoteHandshake := Some (p\<lparr>hs_Data := hs_wire p\<rparr>)\<rparr>) (set_control_stream s1 c))"
  have "control_stream ?c2 = Some s1" by (simp add: control_stream_def set_control_stream_def)
  from ctl_write_ok [OF assms(1) this, of "hs_wire ?hs"] obtain s2 where
    s2: "ctl_write (env_write env) (hs_wire ?hs) ?c2 = Goes (26, None, set_control_stream s2 ?c2)"
      "sent s2 = sent s1 @ hs_wire ?hs" "pend s2 = pend s1" by auto
  have "cp_ListenAndAccept_handshake env c = Goes (None, set_control_stream s2 ?c2)"
    using s1(1) s2(1) by (simp add: cp_ListenAndAccept_handshake_def handshake_encode Let_def)
  then show ?thesis
    by (rule that [of _ s2]) (simp_all add: s1 s2, simp_all add: set_control_stream_def)
qed

section \<open>Properties\<close>

text \<open>C10: The handshake makes both hosts agree.  A \<^verbatim>\<open>Connect\<close> that finds a path and can dial sends one
  packet and waits; \<^verbatim>\<open>ListenAndAccept\<close>, given these bytes, answers with one packet; and given those,
  \<^verbatim>\<open>Connect\<close> goes on without an error.  Afterwards each host's copy of the other's handshake is what
  the other has sent, the listener knows the number of paths the dialler has selected, and for every
  \<open>i\<close> the port that the dialler's \<open>i\<close>-th stream goes to is the one the listener's \<open>i\<close>-th socket is
  opened on, and the same the other way round.\<close>

theorem handshake_agrees:
  fixes a :: "('h, 'm, 's) QPartsConn" and b :: "('h, 'n, 't) QPartsConn"
  assumes "duplex (env_read ea) (env_write ea) pend sent" "duplex (env_read eb) (env_write eb) pend' sent'"
    and "connectable ea remote sel s0 w a" "control_ready pend' b" "length sel < 2 ^ 16"
  shows "\<exists>w1 a1 bs. Connect_request ea remote (w, a) = Goes (None, w1, a1) \<and> control_sent sent a1 = sent s0 @ bs
     \<and> (\<forall>b1. receives pend' bs b b1 \<longrightarrow> (\<exists>b2 bs'. cp_ListenAndAccept_handshake eb b1 = Goes (None, b2)
       \<and> control_sent sent' b2 = control_sent sent' b1 @ bs'
       \<and> cp_remoteHandshake (conn_ControlPlane b2) = cp_localHandshake (conn_ControlPlane a1)
       \<and> (\<forall>a2. receives pend bs' a1 a2 \<longrightarrow> (\<exists>a3. read_handshake ea a2 = Goes (None, a3)
         \<and> race_ready a3 \<and> race_ready b2
         \<and> cp_remoteHandshake (conn_ControlPlane a3) = cp_localHandshake (conn_ControlPlane b2)
         \<and> cp_localHandshake (conn_ControlPlane a3) = cp_localHandshake (conn_ControlPlane a1)
         \<and> cp_remote (conn_ControlPlane a3) = Some remote
         \<and> (\<exists>hs. cp_remoteHandshake (conn_ControlPlane b2) = Some hs \<and> unat (hs_NumStreams hs) = length sel)
         \<and> cp_initialPathSelection (conn_ControlPlane a3) = sel
         \<and> (\<forall>i addr. port_address (Some addr) (cp_remoteHandshake (conn_ControlPlane a3)) i
               = Inr (addr\<lparr>ua_Port := 31600 + int i\<rparr>)
             \<and> port_address (Some (addr :: ('h, 'm) UDPAddr)) (cp_localHandshake (conn_ControlPlane b2)) i
               = Inr (addr\<lparr>ua_Port := 31600 + int i\<rparr>)
             \<and> port_address (Some addr) (cp_localHandshake (conn_ControlPlane a3)) i
               = Inr (addr\<lparr>ua_Port := 31500 + int i\<rparr>)
             \<and> port_address (Some addr) (cp_remoteHandshake (conn_ControlPlane b2)) i
               = Inr (addr\<lparr>ua_Port := 31500 + int i\<rparr>))))))"
proof -
  let ?ha = "handshake (env_rand ea) 31500 31510 (of_nat (length sel))" and ?hb = "handshake (env_rand eb) 31600 31610 0"
  let ?A = "Some (?ha\<lparr>hs_Data := hs_wire ?ha\<rparr>)" and ?B = "Some (?hb\<lparr>hs_Data := hs_wire ?hb\<rparr>)"
  obtain w1 a1 s1 where a1: "Connect_request ea remote (w, a) = Goes (None, w1, a1)" "control_stream a1 = Some s1"
    "sent s1 = sent s0 @ hs_wire ?ha" "cp_initialPathSelection (conn_ControlPlane a1) = sel"
    "cp_localHandshake (conn_ControlPlane a1) = ?A" "cp_remote (conn_ControlPlane a1) = Some remote"
    using Connect_request_ok [OF assms(1,3)] by metis
  have ports: "port_address (Some addr) ?A i = Inr (addr\<lparr>ua_Port := 31500 + int i\<rparr>)"
    "port_address (Some addr) ?B i = Inr (addr\<lparr>ua_Port := 31600 + int i\<rparr>)" for addr :: "('h, 'm) UDPAddr" and i
    by (simp_all add: port_address_def handshake_def)
  have num: "unat (hs_NumStreams (?ha\<lparr>hs_Data := hs_wire ?ha\<rparr>)) = length sel"
    using assms(5) by (simp add: handshake_def unat_of_nat take_bit_eq_mod)
  have "\<exists>b2. cp_ListenAndAccept_handshake eb b1 = Goes (None, b2)
      \<and> control_sent sent' b2 = control_sent sent' b1 @ hs_wire ?hb
      \<and> cp_remoteHandshake (conn_ControlPlane b2) = ?A \<and> cp_localHandshake (conn_ControlPlane b2) = ?B \<and> race_ready b2"
    if r: "receives pend' (hs_wire ?ha) b b1" for b1
  proof -
    from receives_simps [OF r] obtain t where t: "control_stream b1 = Some t" "pend' t = hs_wire ?ha" .
    from ListenAndAccept_handshake_ok [OF assms(2) t] obtain b2 t2 where
      "cp_ListenAndAccept_handshake eb b1 = Goes (None, b2)" "control_stream b2 = Some t2"
      "sent' t2 = sent' t @ hs_wire ?hb" "cp_remoteHandshake (conn_ControlPlane b2) = ?A"
      "cp_localHandshake (conn_ControlPlane b2) = ?B" "cp_remote (conn_ControlPlane b2) = Some (env_peer eb)" by metis
    with t(1) show ?thesis by (auto simp: control_sent_def race_ready_def)
  qed
  moreover have "\<exists>a3. read_handshake ea a2 = Goes (None, a3) \<and> race_ready a3
      \<and> cp_remoteHandshake (conn_ControlPlane a3) = ?B \<and> cp_localHandshake (conn_ControlPlane a3) = ?A
      \<and> cp_remote (conn_ControlPlane a3) = Some remote \<and> cp_initialPathSelection (conn_ControlPlane a3) = sel"
    if r: "receives pend (hs_wire ?hb) a1 a2" for a2
  proof -
    from r obtain t where t: "a2 = set_control_stream t a1" "pend t = hs_wire ?hb @ []" by (auto simp: receives_def)
    have "control_stream a2 = Some t" using t(1) by simp
    from read_handshake_ok [OF assms(1) this t(2)] obtain t' where
      "read_handshake ea a2 = Goes (None, upd_cp (\<lambda>cp. cp\<lparr>cp_remoteHandshake := ?B\<rparr>) (set_control_stream t' a2))" .
    then show ?thesis using a1(4-6) t(1)
      by (simp add: race_ready_def) (simp add: set_control_stream_def)
  qed
  moreover have "control_sent sent a1 = sent s0 @ hs_wire ?ha" using a1(2,3) by (simp add: control_sent_def)
  ultimately show ?thesis
    using a1(1,5) ports num
    by (intro exI [of _ w1] exI [of _ a1] exI [of _ "hs_wire ?ha"]) metis
qed

definition open_ok :: "'s \<Rightarrow> 's open_results" where
  "open_ok s = \<lparr>r_optconn = None, r_tls = None, r_quic = None, r_accept = None, r_stream = Inr s\<rparr>"

definition active_path :: "string \<Rightarrow> nat QPartsPath" where
  "active_path name = (named_path name)\<lparr>p_State := QPARTS_PATH_STATE_ACTIVE\<rparr>"

definition example_world :: "nat world" where
  "example_world = \<lparr>w_silencer = silenced (Some (Writer 1)) 0, w_Paths = NewPathCache,
     w_State = \<lparr>net_Remotes = [''r'' \<mapsto> [1 \<mapsto> NewPathMetrics\<lparr>pm_Path := Some (active_path ''a'')\<rparr>]], net_OnCongestionEvent = []\<rparr>\<rparr>"

definition example_env :: "(string, nat, byte list \<times> byte list) environment" where
  "example_env = \<lparr>env_meta = example_metadata, env_daemon = (\<lambda>_. Inr [4]), env_text = (\<lambda>_. ''r''), env_range = [1],
     env_open = open_ok ([], []), env_peer = example_addr, env_rand = 7, env_opens = (\<lambda>_. open_ok (hello, [])),
     env_ids = (\<lambda>i. of_nat i), env_finish = [1, 0], env_read = pair_read, env_write = pair_write\<rparr>"

lemma example_env: "duplex (env_read example_env) (env_write example_env) fst snd"
  by (simp add: example_env_def pair_duplex)

lemma example_connectable:
  "connectable example_env example_addr [active_path ''a''] ([], []) example_world (NewQPartsConn example_addr)"
proof -
  have "\<exists>p ps pc. PathCache_Get example_metadata (Inr [4]) ''r'' NewPathCache = Inr (Inr (p # ps), pc)"
    by (simp add: PathCache_Get_def Refresh_def QueryPaths_def to_QPartsPath_def IdFromSnetPath_def
        example_metadata_def SortPartsPaths_def NewPathCache_def)
  moreover have "ActivePaths [1] ''r'' (w_State example_world) = Inr [active_path ''a'']"
    by (simp add: ActivePaths_def remote_paths_def example_world_def active_path_def)
  moreover have "\<exists>wr n. w_silencer example_world = silenced wr n \<and> n + 1 < 2 ^ 31"
    by (intro exI [of _ "Some (Writer 1)"] exI [of _ 0]) (simp add: example_world_def)
  ultimately show ?thesis
    by (simp add: connectable_def example_env_def open_ok_def dial_error_def example_world_def
        NewQPartsConn_def NewQPartsControlPlane_def)
qed

theorem handshake_agrees_witness:
  "\<exists>w1 a1 b2. Connect_request example_env example_addr (example_world, NewQPartsConn example_addr) = Goes (None, w1, a1)
     \<and> cp_ListenAndAccept_handshake example_env (set_control_stream (control_sent snd a1, []) example_host) = Goes (None, b2)
     \<and> (\<exists>hs. cp_remoteHandshake (conn_ControlPlane b2) = Some hs \<and> unat (hs_NumStreams hs) = 1)"
proof -
  have l: "length [active_path ''a''] < 2 ^ 16" by simp
  from handshake_agrees [OF example_env example_env example_connectable example_host(1) l]
  obtain w1 a1 bs where
    a1: "Connect_request example_env example_addr (example_world, NewQPartsConn example_addr) = Goes (None, w1, a1)"
      "control_sent snd a1 = bs"
    and b: "\<And>b1. receives fst bs example_host b1 \<Longrightarrow> \<exists>b2 bs'. cp_ListenAndAccept_handshake example_env b1 = Goes (None, b2)
       \<and> (\<forall>a2. receives fst bs' a1 a2 \<longrightarrow> (\<exists>hs. cp_remoteHandshake (conn_ControlPlane b2) = Some hs
            \<and> unat (hs_NumStreams hs) = length [active_path ''a'']))"
    by (metis (no_types, lifting) append_Nil snd_conv)
  from b [OF receives_host, of "[]"] obtain b2 bs' where
    b2: "cp_ListenAndAccept_handshake example_env (set_control_stream (bs, []) example_host) = Goes (None, b2)"
    and num: "\<And>a2. receives fst bs' a1 a2 \<Longrightarrow> \<exists>hs. cp_remoteHandshake (conn_ControlPlane b2) = Some hs
      \<and> unat (hs_NumStreams hs) = length [active_path ''a'']" by blast
  from num [OF receives_host [of bs' a1 "[]"]] a1 b2 show ?thesis by auto
qed

lemma all_open:
  assumes "\<And>i. i < n \<Longrightarrow> \<exists>s. env_opens env i = open_ok s \<and> 13 \<le> length (pend s)" "i < n"
  shows "greeted pend (env_opens env i) \<and> dial_error (env_opens env i) = None \<and> listen_error (env_opens env i) = None"
  using assms(1) [OF assms(2)] by (auto simp: greeted_def dial_error_def listen_error_def open_ok_def)

lemma dial_race_ok:
  fixes c :: "('h, 'm, 's) QPartsConn"
  assumes "duplex (env_read env) (env_write env) pend sent" "race_ready c" "distinct (env_finish env)"
    and "{..<n} \<subseteq> set (env_finish env)" "inj_on (env_ids env) {..<n}" "k + n < 2 ^ 31"
    and "\<And>i. i < n \<Longrightarrow> \<exists>s. env_opens env i = open_ok s \<and> 13 \<le> length (pend s)"
    and "n = length (cp_initialPathSelection (conn_ControlPlane c))"
  shows "\<exists>X k'. RaceDialDataplaneStreams env (silenced w k) c = Goes (None, silenced w k', set_streams X c)
       \<and> (\<forall>i s. i < n \<and> env_opens env i = open_ok s \<longrightarrow> (\<exists>s'. X (env_ids env i)
            = Some (fresh_stream (Some (cp_initialPathSelection (conn_ControlPlane c) ! i)) s') \<and> sent s' = sent s @ hello \<and> pend s' = drop 13 (pend s)))
       \<and> (\<forall>j. j \<notin> env_ids env ` {..<n} \<longrightarrow> X j = dpl_Streams (conn_Dataplane c) j)"
proof -
  have g: "\<And>i. i < n \<Longrightarrow> greeted pend (env_opens env i)" using all_open [OF assms(7)] by blast
  have no_text: "concat (map (\<lambda>i. error_part (dial_error (env_opens env i))) (filter (\<lambda>i. i < n) (env_finish env))) = ''''"
    using all_open [OF assms(7)] by (auto simp: error_part_def)
  have ids: "{i \<in> set (env_finish env). i < n \<and> dial_error (env_opens env i) = None} = {..<n}"
    using all_open [OF assms(7)] assms(4) by auto
  from dial_race [OF assms(1,2) assms(8) g assms(5,3,6), of w] obtain X k' where
    X: "RaceDialDataplaneStreams env (silenced w k) c = Goes (None, silenced w k', set_streams X c)"
      "\<forall>i \<in> set (env_finish env). i < n \<and> dial_error (env_opens env i) = None \<longrightarrow> (\<exists>y. X (env_ids env i) = Some y
          \<and> greeting_sent sent pend (Some (cp_initialPathSelection (conn_ControlPlane c) ! i)) hello (env_opens env i) y)"
      "\<forall>j. j \<notin> env_ids env ` {..<n} \<longrightarrow> X j = dpl_Streams (conn_Dataplane c) j"
    unfolding no_text ids by (auto simp: race_end_def)
  have "\<exists>s'. X (env_ids env i) = Some (fresh_stream (Some (cp_initialPathSelection (conn_ControlPlane c) ! i)) s') \<and> sent s' = sent s @ hello \<and> pend s' = drop 13 (pend s)"
    if i: "i < n \<and> env_opens env i = open_ok s" for i s
  proof -
    have "i \<in> set (env_finish env)" "r_stream (env_opens env i) = Inr s" using i assms(4) by (auto simp: open_ok_def)
    then show ?thesis using X(2) i all_open [OF assms(7) conjunct1 [OF i]] unfolding greeting_sent_def by blast
  qed
  with X(1,3) show ?thesis by blast
qed

lemma listen_race_ok:
  fixes c :: "('h, 'm, 's) QPartsConn"
  assumes "duplex (env_read env) (env_write env) pend sent" "race_ready c" "distinct (env_finish env)"
    and "{..<n} \<subseteq> set (env_finish env)" "inj_on (env_ids env) {..<n}" "k + n < 2 ^ 31"
    and "\<And>i. i < n \<Longrightarrow> \<exists>s. env_opens env i = open_ok s \<and> 13 \<le> length (pend s)"
  shows "\<exists>X k'. RaceListenDataplaneStreams env n (silenced w k) c = Goes (None, silenced w k', set_streams X c)
       \<and> (\<forall>i s. i < n \<and> env_opens env i = open_ok s \<longrightarrow> (\<exists>s'. X (env_ids env i)
            = Some (fresh_stream None s') \<and> sent s' = sent s @ take 13 (pend s) \<and> pend s' = drop 13 (pend s)))
       \<and> (\<forall>j. j \<notin> env_ids env ` {..<n} \<longrightarrow> X j = dpl_Streams (conn_Dataplane c) j)"
proof -
  have g: "\<And>i. i < n \<Longrightarrow> greeted pend (env_opens env i)" using all_open [OF assms(7)] by blast
  have no_text: "concat (map (\<lambda>i. error_part (listen_error (env_opens env i))) (filter (\<lambda>i. i < n) (env_finish env))) = ''''"
    using all_open [OF assms(7)] by (auto simp: error_part_def)
  have ids: "{i \<in> set (env_finish env). i < n \<and> listen_error (env_opens env i) = None} = {..<n}"
    using all_open [OF assms(7)] assms(4) by auto
  from listen_race [OF assms(1,2) g assms(5,3,6), of w] obtain X k' where
    X: "RaceListenDataplaneStreams env n (silenced w k) c = Goes (None, silenced w k', set_streams X c)"
      "\<forall>i \<in> set (env_finish env). i < n \<and> listen_error (env_opens env i) = None \<longrightarrow> (\<exists>y. X (env_ids env i) = Some y
          \<and> (\<forall>s. r_stream (env_opens env i) = Inr s \<longrightarrow> greeting_sent sent pend None (take 13 (pend s)) (env_opens env i) y))"
      "\<forall>j. j \<notin> env_ids env ` {..<n} \<longrightarrow> X j = dpl_Streams (conn_Dataplane c) j"
    unfolding no_text ids by (auto simp: race_end_def)
  have "\<exists>s'. X (env_ids env i) = Some (fresh_stream None s') \<and> sent s' = sent s @ take 13 (pend s) \<and> pend s' = drop 13 (pend s)"
    if i: "i < n \<and> env_opens env i = open_ok s" for i s
  proof -
    have "i \<in> set (env_finish env)" "r_stream (env_opens env i) = Inr s" using i assms(4) by (auto simp: open_ok_def)
    then show ?thesis using X(2) i all_open [OF assms(7) conjunct1 [OF i]] unfolding greeting_sent_def by blast
  qed
  with X(1,3) show ?thesis by blast
qed

text \<open>C18: The races open what they are asked for: when every QUIC stream can be opened and the greeting
  arrives on it, \<^verbatim>\<open>RaceDialDataplaneStreams\<close> ends without an error, in whatever order the goroutines
  finish, with one idle data plane stream for each selected path, which carries that path and on
  which just the greeting was sent and the peer's greeting was read; \<^verbatim>\<open>RaceListenDataplaneStreams\<close> ends with as many streams, without
  a path, on each of which just what had come in was sent back.  Other streams stay as they are.\<close>

theorem races_open_streams:
  fixes c :: "('h, 'm, 's) QPartsConn"
  assumes "duplex (env_read env) (env_write env) pend sent" "race_ready c" "distinct (env_finish env)"
    and "{..<n} \<subseteq> set (env_finish env)" "inj_on (env_ids env) {..<n}" "k + n < 2 ^ 31"
    and "\<And>i. i < n \<Longrightarrow> \<exists>s. env_opens env i = open_ok s \<and> 13 \<le> length (pend s)"
  shows "(n = length (cp_initialPathSelection (conn_ControlPlane c)) \<longrightarrow>
      (\<exists>X k'. RaceDialDataplaneStreams env (silenced w k) c = Goes (None, silenced w k', set_streams X c)
       \<and> (\<forall>i s. i < n \<and> env_opens env i = open_ok s \<longrightarrow> (\<exists>s'. X (env_ids env i)
            = Some (fresh_stream (Some (cp_initialPathSelection (conn_ControlPlane c) ! i)) s') \<and> sent s' = sent s @ hello \<and> pend s' = drop 13 (pend s)))
       \<and> (\<forall>j. j \<notin> env_ids env ` {..<n} \<longrightarrow> X j = dpl_Streams (conn_Dataplane c) j)))
   \<and> (\<exists>X k'. RaceListenDataplaneStreams env n (silenced w k) c = Goes (None, silenced w k', set_streams X c)
       \<and> (\<forall>i s. i < n \<and> env_opens env i = open_ok s \<longrightarrow> (\<exists>s'. X (env_ids env i)
            = Some (fresh_stream None s') \<and> sent s' = sent s @ take 13 (pend s) \<and> pend s' = drop 13 (pend s)))
       \<and> (\<forall>j. j \<notin> env_ids env ` {..<n} \<longrightarrow> X j = dpl_Streams (conn_Dataplane c) j))"
  by (intro conjI impI, rule dial_race_ok [OF assms], assumption+, rule listen_race_ok [OF assms])

text \<open>A host after the handshake, with one selected path, and two environments: all QUIC streams open, and
  the one to the peer times out.\<close>

definition shaken_host :: "(string, nat, byte list \<times> byte list) QPartsConn" where
  "shaken_host = upd_cp (\<lambda>cp. cp\<lparr>cp_remote := Some example_addr, cp_initialPathSelection := [active_path ''a''],
     cp_localHandshake := Some (handshake 7 31500 31510 1), cp_remoteHandshake := Some (handshake 8 31600 31610 0)\<rparr>)
     (NewQPartsConn example_addr)"

definition failing_env :: "(string, nat, byte list \<times> byte list) environment" where
  "failing_env = example_env\<lparr>env_opens := (\<lambda>_. (open_ok (hello, []))\<lparr>r_quic := Some (IOError ''timeout'')\<rparr>)\<rparr>"

lemma shaken_host: "race_ready shaken_host" "length (cp_initialPathSelection (conn_ControlPlane shaken_host)) = 1"
  "dpl_Streams (conn_Dataplane shaken_host) = Map.empty"
  by (simp_all add: shaken_host_def race_ready_def)
    (simp add: NewQPartsConn_def NewQPartsDataplane_def)

theorem races_open_streams_witness:
  "\<exists>X k' s'. RaceDialDataplaneStreams example_env (silenced (Some (Writer 1)) 0) shaken_host
       = Goes (None, silenced (Some (Writer 1)) k', set_streams X shaken_host)
     \<and> X 0 = Some (fresh_stream (Some (active_path ''a'')) s') \<and> snd s' = hello"
proof -
  have e: "distinct (env_finish example_env)" "{..<1} \<subseteq> set (env_finish example_env)" "inj_on (env_ids example_env) {..<1}"
    "(0 :: nat) + 1 < 2 ^ 31" "env_ids example_env 0 = 0"
    by (auto simp: example_env_def inj_on_def)
  have opens: "\<exists>s. env_opens example_env i = open_ok s \<and> 13 \<le> length (fst s)" for i
    by (rule exI [of _ "(hello, [])"]) (simp add: example_env_def)
  have o: "env_opens example_env 0 = open_ok (hello, [])" by (simp add: example_env_def)
  from races_open_streams [OF example_env shaken_host(1) e(1-4) opens, THEN conjunct1, THEN mp,
      OF shaken_host(2) [symmetric]]
  obtain X k' where r: "RaceDialDataplaneStreams example_env (silenced (Some (Writer 1)) 0) shaken_host
       = Goes (None, silenced (Some (Writer 1)) k', set_streams X shaken_host)"
    and X: "\<forall>i s. i < 1 \<and> env_opens example_env i = open_ok s \<longrightarrow> (\<exists>s'. X (env_ids example_env i)
       = Some (fresh_stream (Some (cp_initialPathSelection (conn_ControlPlane shaken_host) ! i)) s')
         \<and> snd s' = snd s @ hello \<and> fst s' = drop 13 (fst s))" by blast
  have p: "cp_initialPathSelection (conn_ControlPlane shaken_host) ! 0 = active_path ''a''" by (simp add: shaken_host_def)
  from X [THEN spec, THEN spec, THEN mp, of 0 "(hello, [])"] o obtain s' where
    "X 0 = Some (fresh_stream (Some (active_path ''a'')) s')" "snd s' = hello"
    unfolding e(5) p by auto
  with r show ?thesis by blast
qed



lemma set_control_stream_rest:
  "cp_dialOpts (conn_ControlPlane (set_control_stream s c)) = cp_dialOpts (conn_ControlPlane c)"
  "cp_initialPathSelection (conn_ControlPlane (set_control_stream s c)) = cp_initialPathSelection (conn_ControlPlane c)"
  "control_stream (upd_cp (\<lambda>cp. cp\<lparr>cp_remoteHandshake := hs\<rparr>) c) = control_stream c"
  by (simp_all add: set_control_stream_def control_stream_def)

lemma connect_opens_nothing:
  fixes c :: "('h, 'm, 's) QPartsConn"
  assumes "duplex (env_read env) (env_write env) pend sent" "connectable env remote [] s0 w c"
    and "cp_dialOpts (conn_ControlPlane c) \<noteq> Some QPARTS_PATH_SEL_RESPONSIBILITY_SERVER"
  shows "(\<exists>w1 c1 hs. Connect_request env remote (w, c) = Goes (None, w1, c1)
       \<and> cp_localHandshake (conn_ControlPlane c1) = Some hs \<and> hs_NumStreams hs = 0
       \<and> (\<forall>c2 reply. receives pend (hs_wire reply) c1 c2 \<longrightarrow>
            (\<exists>w3 c3. Connect_reply env (w1, c2) = Goes (None, None, w3, c3)
              \<and> dpl_Streams (conn_Dataplane c3) = dpl_Streams (conn_Dataplane c)
              \<and> (cp_NewStreamChan (conn_ControlPlane c) = None \<longrightarrow> control_ready pend c3))))
   \<and> (\<forall>w' pc. PathCache_Get (env_meta env) (env_daemon env remote) (env_text env remote) (w_Paths w') = Inr (Inr [], pc)
        \<and> ActivePaths (env_range env) (env_text env remote) (w_State w') = Inr [] \<longrightarrow>
        Connect_request env remote (w', c) = Panics IndexOutOfRange)"
proof (intro conjI allI impI)
  obtain w1 c1 where c1: "Connect_request env remote (w, c) = Goes (None, w1, c1)"
    "cp_initialPathSelection (conn_ControlPlane c1) = []"
    "cp_localHandshake (conn_ControlPlane c1) = Some ((handshake (env_rand env) 31500 31510 (of_nat (length ([] :: 'm QPartsPath list))))
        \<lparr>hs_Data := hs_wire (handshake (env_rand env) 31500 31510 (of_nat (length ([] :: 'm QPartsPath list))))\<rparr>)"
    "conn_Dataplane c1 = conn_Dataplane c" "cp_dialOpts (conn_ControlPlane c1) = cp_dialOpts (conn_ControlPlane c)"
    "cp_NewStreamChan (conn_ControlPlane c1) = cp_NewStreamChan (conn_ControlPlane c)"
    using Connect_request_ok [OF assms(1,2)] by metis
  have "\<exists>w3 c3. Connect_reply env (w1, c2) = Goes (None, None, w3, c3)
      \<and> dpl_Streams (conn_Dataplane c3) = dpl_Streams (conn_Dataplane c)
      \<and> (cp_NewStreamChan (conn_ControlPlane c) = None \<longrightarrow> control_ready pend c3)"
    if r: "receives pend (hs_wire reply) c1 c2" for c2 reply
  proof -
    from r obtain t where t: "c2 = set_control_stream t c1" "pend t = hs_wire reply @ []" by (auto simp: receives_def)
    have "control_stream c2 = Some t" using t(1) by simp
    from read_handshake_ok [OF assms(1) this t(2)] obtain t' where
      "read_handshake env c2 = Goes (None, upd_cp (\<lambda>cp. cp\<lparr>cp_remoteHandshake := Some (reply\<lparr>hs_Data := hs_wire reply\<rparr>)\<rparr>)
         (set_control_stream t' c2))" "pend t' = []" .
    then show ?thesis using c1 assms(3) t(1)
      by (simp add: Connect_reply_def Let_def RaceDialDataplaneStreams_def race_end_def control_ready_def set_control_stream_rest)
  qed
  then show "\<exists>w1 c1 hs. Connect_request env remote (w, c) = Goes (None, w1, c1)
       \<and> cp_localHandshake (conn_ControlPlane c1) = Some hs \<and> hs_NumStreams hs = 0
       \<and> (\<forall>c2 reply. receives pend (hs_wire reply) c1 c2 \<longrightarrow>
            (\<exists>w3 c3. Connect_reply env (w1, c2) = Goes (None, None, w3, c3)
              \<and> dpl_Streams (conn_Dataplane c3) = dpl_Streams (conn_Dataplane c)
              \<and> (cp_NewStreamChan (conn_ControlPlane c) = None \<longrightarrow> control_ready pend c3)))"
    using c1(1,3) by (intro exI [of _ w1] exI [of _ c1]) (simp add: handshake_def)
next
  fix w' :: "'m world" and pc
  assume "PathCache_Get (env_meta env) (env_daemon env remote) (env_text env remote) (w_Paths w') = Inr (Inr [], pc)
        \<and> ActivePaths (env_range env) (env_text env remote) (w_State w') = Inr []"
  moreover have "cp_Scheduler (conn_ControlPlane c) = NewScheduler" using assms(2) by (simp add: connectable_def)
  ultimately show "Connect_request env remote (w', c) = Panics IndexOutOfRange"
    by (simp add: Connect_request_def first_scheduler go_index_def Let_def)
qed

text \<open>As the program is, \<^verbatim>\<open>Connect\<close> opens no data plane stream.  The scheduler's initial selection
  changes nothing, so as long as no path of the remote is active, the handshake announces 0 streams,
  and when the other side has answered, \<^verbatim>\<open>Connect\<close> returns without any error and without a single
  stream.  And if the daemon knows no path at all, \<^verbatim>\<open>Connect\<close> panics.\<close>

theorem connect_without_active_paths:
  fixes c :: "('h, 'm, 's) QPartsConn"
  assumes "duplex (env_read env) (env_write env) pend sent" "connectable env remote [] s0 w c"
    and "cp_dialOpts (conn_ControlPlane c) \<noteq> Some QPARTS_PATH_SEL_RESPONSIBILITY_SERVER"
  shows "(\<exists>w1 c1 hs. Connect_request env remote (w, c) = Goes (None, w1, c1)
       \<and> cp_localHandshake (conn_ControlPlane c1) = Some hs \<and> hs_NumStreams hs = 0
       \<and> (\<forall>c2 reply. receives pend (hs_wire reply) c1 c2 \<longrightarrow>
            (\<exists>w3 c3. Connect_reply env (w1, c2) = Goes (None, None, w3, c3)
              \<and> dpl_Streams (conn_Dataplane c3) = dpl_Streams (conn_Dataplane c))))
   \<and> (\<forall>w' pc. PathCache_Get (env_meta env) (env_daemon env remote) (env_text env remote) (w_Paths w') = Inr (Inr [], pc)
        \<and> ActivePaths (env_range env) (env_text env remote) (w_State w') = Inr [] \<longrightarrow>
        Connect_request env remote (w', c) = Panics IndexOutOfRange)"
  using connect_opens_nothing [OF assms] by blast

theorem connect_without_active_paths_witness:
  "\<exists>w1 c1 hs. Connect_request (example_env\<lparr>env_range := []\<rparr>) example_addr
       (example_world\<lparr>w_State := init_State\<rparr>, NewQPartsConn example_addr) = Goes (None, w1, c1)
     \<and> cp_localHandshake (conn_ControlPlane c1) = Some hs \<and> hs_NumStreams hs = 0
     \<and> (\<exists>w3 c3. Connect_reply (example_env\<lparr>env_range := []\<rparr>)
           (w1, set_control_stream (hs_wire (handshake 8 31600 31610 0), []) c1) = Goes (None, None, w3, c3)
         \<and> dpl_Streams (conn_Dataplane c3) = Map.empty)"
proof -
  let ?env = "example_env\<lparr>env_range := []\<rparr>" and ?w = "example_world\<lparr>w_State := init_State\<rparr>"
    and ?c = "NewQPartsConn example_addr :: (string, nat, byte list \<times> byte list) QPartsConn"
  have d: "duplex (env_read ?env) (env_write ?env) fst snd" using example_env by simp
  have "connectable ?env example_addr [] ([], []) ?w ?c"
    using example_connectable unfolding connectable_def by (simp add: ActivePaths_def example_env_def)
  moreover have "cp_dialOpts (conn_ControlPlane ?c) \<noteq> Some QPARTS_PATH_SEL_RESPONSIBILITY_SERVER"
    "dpl_Streams (conn_Dataplane ?c) = Map.empty"
    by (simp_all add: NewQPartsConn_def NewQPartsControlPlane_def NewQPartsDataplane_def)
  ultimately show ?thesis
    using connect_without_active_paths [OF d, of example_addr "([], [])" ?w ?c, THEN conjunct1] receives_host
    by metis
qed

end
