(* ===== verification/Session.thy ===== *)
theory Session
  imports Connection Handshake
begin

text \<open>
  From the races to the data path: the data plane streams that the two races open make a fresh connection,
  so that the traffic over them refines the channel that delivers whole writes.
\<close>

section \<open>What the races leave\<close>

lemma raced_streams:
  assumes "\<forall>i s. i < n \<and> env_opens env i = open_ok s \<longrightarrow> (\<exists>s'. X (env_ids env i)
        = Some (fresh_stream (path i) s') \<and> P i s s')"
    and "\<forall>j. j \<notin> env_ids env ` {..<n} \<longrightarrow> X j = dpl_Streams (conn_Dataplane c) j"
    and "\<And>i. i < n \<Longrightarrow> \<exists>s. env_opens env i = open_ok s \<and> Q s" "dpl_Streams (conn_Dataplane c) = Map.empty"
  shows "dom X = env_ids env ` {..<n}" "idle (conn_Dataplane (set_streams X c))"
    "dpl_completionStore (conn_Dataplane (set_streams X c)) = dpl_completionStore (conn_Dataplane c)"
proof -
  have one: "\<exists>s'. X (env_ids env i) = Some (fresh_stream (path i) s')" if "i < n" for i
    using assms(1,3) that by blast
  have "X j = None" if "j \<notin> env_ids env ` {..<n}" for j using assms(2,4) that by simp
  then have "dom X \<subseteq> env_ids env ` {..<n}" by (meson domIff subsetI)
  moreover have "env_ids env ` {..<n} \<subseteq> dom X" using one by fastforce
  ultimately show d: "dom X = env_ids env ` {..<n}" by (rule equalityI)
  have "entries (ds_Queue st) = []" if st: "X k = Some st" for k st
  proof -
    from st d obtain i where "i < n" "k = env_ids env i" by blast
    with one st show ?thesis by (fastforce simp: fresh_stream_def NewQueue_def)
  qed
  then show "idle (conn_Dataplane (set_streams X c))" by (simp add: idle_iff)
  show "dpl_completionStore (conn_Dataplane (set_streams X c)) = dpl_completionStore (conn_Dataplane c)"
    by (simp add: set_streams_def)
qed

text \<open>The data path after the races.  The greetings have been carried, nothing else is under way.\<close>

definition raced_connection ::
  "('s \<Rightarrow> byte list) \<Rightarrow> ('h, 'm, 's) QPartsConn \<Rightarrow> ('h, 'm, 't) QPartsConn
     \<Rightarrow> (('h, 'm) UDPAddr, 'm QPartsPath, 's, 't) connection" where
  "raced_connection sent c d = \<lparr>co_dp = conn_Dataplane c, co_calls = [],
     co_carried = (\<lambda>k. case dpl_Streams (conn_Dataplane c) k of None \<Rightarrow> 0 | Some st \<Rightarrow> length (sent (ds_ssqc st))),
     co_peer = conn_Dataplane d, co_held = Map.empty\<rparr>"

lemma raced_connection_simps [simp]:
  "co_dp (raced_connection sent c d) = conn_Dataplane c" "co_calls (raced_connection sent c d) = []"
  "co_peer (raced_connection sent c d) = conn_Dataplane d" "co_held (raced_connection sent c d) = Map.empty"
  "dpl_Streams (conn_Dataplane c) k = Some st \<Longrightarrow> co_carried (raced_connection sent c d) k = length (sent (ds_ssqc st))"
  by (simp_all add: raced_connection_def)

text \<open>New streams do not disturb a well-formed data plane.\<close>

lemma raced_wf:
  assumes "dataplane_wf (conn_Dataplane d, Map.empty)" "\<And>i. i < n \<Longrightarrow> \<exists>s. Y (ids i) = Some (fresh_stream path s)"
    and "\<forall>j. j \<notin> ids ` {..<n} \<longrightarrow> Y j = dpl_Streams (conn_Dataplane d) j"
  shows "dataplane_wf (conn_Dataplane (set_streams Y d), Map.empty)"
proof (rule dataplane_wf_step [OF assms(1)])
  have "da_DataplaneStream da = Some k" if "Y k = Some st" "da \<in> set (entries (ds_Queue st))" for k st da
  proof (cases "k \<in> ids ` {..<n}")
    case True
    then show ?thesis using assms(2) that by (fastforce simp: fresh_stream_def NewQueue_def)
  next
    case False
    then show ?thesis using assms(3) that queues_wfD [OF dataplane_wfD(2) [OF assms(1)]] by metis
  qed
  then show "queues_wf (dpl_Streams (conn_Dataplane (set_streams Y d)))" by (simp add: queues_wf_def)
qed (simp_all add: set_streams_def dataplane_wfD(1) [OF assms(1)])

lemma raced_fresh:
  fixes c :: "('h, 'm, 's) QPartsConn" and d :: "('h, 'm, 't) QPartsConn"
  assumes "idle (conn_Dataplane c)" "dom (dpl_Streams (conn_Dataplane c)) = ids ` {..<n}" "inj_on ids {..<n}" "inj_on ids' {..<n}"
    and "\<And>i. i < n \<Longrightarrow> peer (ids i) = ids' i"
    and "\<And>i. i < n \<Longrightarrow> \<exists>st. dpl_Streams (conn_Dataplane d) (ids' i) = Some st \<and> pend (ds_ssqc st) = []"
    and "dataplane_wf (conn_Dataplane d, Map.empty)"
    and "\<forall>q \<in> dom M. Completions (dpl_completionStore (conn_Dataplane d)) q = None" "traffic_ok M (conn_Streams d)"
  shows "fresh_connection sent pend peer M (raced_connection sent c d)"
proof -
  have "inj_on peer (ids ` {..<n})" using assms(4,5) by (auto simp: inj_on_def)
  moreover have "\<exists>rst. dpl_Streams (conn_Dataplane d) (peer k) = Some rst \<and> pend (ds_ssqc rst) = []"
    if "dpl_Streams (conn_Dataplane c) k = Some st" for k st
  proof -
    from that assms(2) obtain i where "i < n" "k = ids i" by blast
    then show ?thesis using assms(5,6) by simp
  qed
  ultimately show ?thesis using assms(1,2,7-9) by (simp add: fresh_connection_def conn_Streams_def)
qed

section \<open>Two hosts\<close>

text \<open>C3: From the races to any traffic: when both hosts have raced \<open>n\<close> streams without an error and
  exactly the greeting has come in on each, then for every interleaving of any number of concurrent calls
  of \<^verbatim>\<open>WriteForStream\<close> on the dialling host, the write loops, the transport of the bytes and the read loops
  of the listening host, stopped at any point, nothing panics and the streams that the listening host has
  accepted are those of a channel that has delivered some of the writes, each once and as a whole.\<close>

theorem raced_hosts_refine_channel:
  fixes c :: "('h, 'm, 's) QPartsConn" and d :: "('h, 'm, 't) QPartsConn"
  assumes "duplex (env_read env) (env_write env) pend sent" "race_ready c" "distinct (env_finish env)"
    and "{..<n} \<subseteq> set (env_finish env)" "inj_on (env_ids env) {..<n}" "k + n < 2 ^ 31"
    and "\<And>i. i < n \<Longrightarrow> \<exists>s. env_opens env i = open_ok s \<and> 13 \<le> length (pend s)"
    and "n = length (cp_initialPathSelection (conn_ControlPlane c))" "dpl_Streams (conn_Dataplane c) = Map.empty"
    and "duplex (env_read env') (env_write env') pend' sent'" "race_ready d" "distinct (env_finish env')"
    and "{..<n} \<subseteq> set (env_finish env')" "inj_on (env_ids env') {..<n}" "k' + n < 2 ^ 31"
    and "\<And>i. i < n \<Longrightarrow> \<exists>s. env_opens env' i = open_ok s \<and> length (pend' s) = 13"
    and "stream_feeds feed pend'" "\<And>i. i < n \<Longrightarrow> peer (env_ids env i) = env_ids env' i"
    and "dataplane_wf (conn_Dataplane d, Map.empty)"
    and "\<forall>q \<in> dom M. Completions (dpl_completionStore (conn_Dataplane d)) q = None" "traffic_ok M (conn_Streams d)"
    and "events_ok M (env_ids env ` {..<n}) es" "dom M = set (entered (writes_of es))"
  shows "\<exists>c1 d1 l l'. RaceDialDataplaneStreams env (silenced w k) c = Goes (None, silenced w l, c1)
     \<and> RaceListenDataplaneStreams env' n (silenced w' k') d = Goes (None, silenced w' l', d1)
     \<and> (\<exists>e ch. run_events (env_write env) (env_read env') sent feed peer es (raced_connection sent c1 d1) = Inr e
         \<and> map ca_seq (co_calls e) = entered (writes_of es)
         \<and> (channel_step M)\<^sup>*\<^sup>* \<lparr>ch_pending = dom M, ch_streams = conn_Streams d\<rparr> ch
         \<and> dpl_QPartsStreams (co_peer e) = ch_streams ch)"
proof -
  from dial_race_ok [OF assms(1-8), of w] obtain X l where
    r: "RaceDialDataplaneStreams env (silenced w k) c = Goes (None, silenced w l, set_streams X c)"
    and X: "\<forall>i s. i < n \<and> env_opens env i = open_ok s \<longrightarrow> (\<exists>s'. X (env_ids env i)
         = Some (fresh_stream (Some (cp_initialPathSelection (conn_ControlPlane c) ! i)) s') \<and> sent s' = sent s @ hello \<and> pend s' = drop 13 (pend s))"
      "\<forall>j. j \<notin> env_ids env ` {..<n} \<longrightarrow> X j = dpl_Streams (conn_Dataplane c) j" by blast
  have "\<And>i. i < n \<Longrightarrow> \<exists>s. env_opens env' i = open_ok s \<and> 13 \<le> length (pend' s)" using assms(16) by fastforce
  from listen_race_ok [OF assms(10-15) this, of w'] obtain Y l' where
    r': "RaceListenDataplaneStreams env' n (silenced w' k') d = Goes (None, silenced w' l', set_streams Y d)"
    and Y: "\<forall>i s. i < n \<and> env_opens env' i = open_ok s \<longrightarrow> (\<exists>s'. Y (env_ids env' i)
            = Some (fresh_stream None s') \<and> sent' s' = sent' s @ take 13 (pend' s) \<and> pend' s' = drop 13 (pend' s))"
      "\<forall>j. j \<notin> env_ids env' ` {..<n} \<longrightarrow> Y j = dpl_Streams (conn_Dataplane d) j" by blast
  let ?c = "set_streams X c" and ?d = "set_streams Y d"
  have read: "\<exists>s. Y (env_ids env' i) = Some (fresh_stream None s) \<and> pend' s = []" if "i < n" for i
    using assms(16) [OF that] Y(1) that by fastforce
  have idle: "dom (dpl_Streams (conn_Dataplane ?c)) = env_ids env ` {..<n}" "idle (conn_Dataplane ?c)"
    using raced_streams [OF X assms(7,9)] by simp_all
  have streams: "conn_Streams ?d = conn_Streams d" "dpl_QPartsStreams (conn_Dataplane ?d) = conn_Streams d"
    "dpl_completionStore (conn_Dataplane ?d) = dpl_completionStore (conn_Dataplane d)"
    by (simp_all add: set_streams_def conn_Streams_def)
  have "dataplane_wf (conn_Dataplane ?d, Map.empty)" by (rule raced_wf [OF assms(19) _ Y(2)]) (use read in blast)
  moreover have "\<exists>st. dpl_Streams (conn_Dataplane ?d) (env_ids env' i) = Some st \<and> pend' (ds_ssqc st) = []" if "i < n" for i
    using read [OF that] by (auto simp: fresh_stream_def)
  ultimately have "fresh_connection sent pend' peer M (raced_connection sent ?c ?d)"
    using raced_fresh [where c = ?c and d = ?d and ids = "env_ids env" and ids' = "env_ids env'" and sent = sent,
        OF idle(2,1) assms(5,14,18)] assms(20,21) unfolding streams by blast
  moreover have "events_ok M (dom (dpl_Streams (co_dp (raced_connection sent ?c ?d)))) es" using assms(22) idle(1) by simp
  ultimately obtain e G R where "run_events (env_write env) (env_read env') sent feed peer es (raced_connection sent ?c ?d) = Inr e"
    "map ca_seq (co_calls e) = entered (writes_of es)"
    "(channel_step M)\<^sup>*\<^sup>* \<lparr>ch_pending = dom M, ch_streams = dpl_QPartsStreams (co_peer (raced_connection sent ?c ?d))\<rparr>
       (to_channel M R (co_peer e))"
    by (rule fresh_run [OF duplexD(3) [OF assms(1)] duplexD(1,2) [OF assms(10)] assms(17)])
  moreover have "dpl_QPartsStreams (co_peer e) = ch_streams (to_channel M R (co_peer e))" by (simp add: to_channel_def)
  ultimately show ?thesis using r r' unfolding raced_connection_simps streams by blast
qed

text \<open>One part between two hosts with one path.\<close>

definition part_for :: "u64 \<Rightarrow> byte list \<Rightarrow> (string, nat) UDPAddr DataAssignment" where
  "part_for k d = zero_DataAssignment\<lparr>da_DataplaneStream := Some k, da_Data := d\<rparr>"

definition one_write :: "(string, nat) UDPAddr event list" where
  "one_write = [Writes (Enters 9 77 [part_for 0 [1, 2]]), Writes (Adds 0), Writes (Sends 0), Carries 0 20,
     Receives 0, Carries 0 30, Receives 0, Receives 0]"

theorem raced_hosts_refine_channel_witness:
  "\<exists>c1 d1 l l' e order.
     RaceDialDataplaneStreams example_env (silenced (Some (Writer 1)) 0) shaken_host = Goes (None, silenced (Some (Writer 1)) l, c1)
     \<and> RaceListenDataplaneStreams example_env 1 (silenced (Some (Writer 1)) 0) (put_stream (new_stream 9 0) shaken_host)
        = Goes (None, silenced (Some (Writer 1)) l', d1)
     \<and> run_events pair_write pair_read snd (\<lambda>s bs. (fst s @ bs, snd s)) id one_write (raced_connection snd c1 d1) = Inr e
     \<and> distinct order \<and> set order \<subseteq> {77}
     \<and> dpl_QPartsStreams (co_peer e) = fold (deliver [77 \<mapsto> (9, [[1, 2]])]) order [9 \<mapsto> new_stream 9 0]"
proof -
  let ?d = "put_stream (new_stream 9 0) shaken_host" and ?M = "[77 \<mapsto> (9, [[1, 2]])] :: traffic"
  let ?feed = "\<lambda>s bs. (fst s @ bs, snd s) :: byte list \<times> byte list"
  have e: "distinct (env_finish example_env)" "{..<1} \<subseteq> set (env_finish example_env)" "inj_on (env_ids example_env) {..<1}"
    "(0 :: nat) + 1 < 2 ^ 31" "env_ids example_env ` {..<1} = {0}" "env_write example_env = pair_write" "env_read example_env = pair_read"
    by (auto simp: example_env_def inj_on_def)
  have opens: "\<exists>s. env_opens example_env i = open_ok s \<and> 13 \<le> length (fst s)"
    "\<exists>s. env_opens example_env i = open_ok s \<and> length (fst s) = 13" for i
    by (rule exI [of _ "(hello, [])"], simp add: example_env_def)+
  have id: "ps_Id (new_stream 9 0) = 9" by (simp add: new_stream_def NewPartsStream_def)
  have fresh: "dpl_Streams (conn_Dataplane ?d) = Map.empty" "dpl_completionStore (conn_Dataplane ?d) = NewCompletionStore"
    "conn_Streams shaken_host = Map.empty"
    by (simp_all add: put_stream_def shaken_host_def NewQPartsConn_def NewQPartsDataplane_def conn_Streams_def)
  have d: "race_ready ?d" using shaken_host(1) unfolding race_ready_def put_stream_simps .
  have d9: "conn_Streams ?d = [9 \<mapsto> new_stream 9 0]" using id fresh(3) by (metis put_stream_simps(1))
  have wf: "dataplane_wf (conn_Dataplane ?d, Map.empty)"
    by (simp add: dataplane_wf.simps store_wf_def queues_wf_def held_wf_def fresh NewCompletionStore_def)
  have new: "\<forall>q \<in> dom ?M. Completions (dpl_completionStore (conn_Dataplane ?d)) q = None"
    by (simp add: fresh NewCompletionStore_def)
  have ok: "traffic_ok ?M (conn_Streams ?d)" unfolding d9 by (simp add: traffic_ok_def sendable_def maxAlloc_def)
  have ev: "events_ok ?M (env_ids example_env ` {..<1}) one_write" "dom ?M = set (entered (writes_of one_write))"
    unfolding e(5) by (auto simp: events_ok_def acts_ok_def one_write_def part_for_def sendable_def maxAlloc_def placed_def)
  have feeds: "stream_feeds ?feed fst" by (simp add: stream_feeds_def)
  from raced_hosts_refine_channel [OF example_env shaken_host(1) e(1-4) opens(1) shaken_host(2) [symmetric] shaken_host(3)
      example_env d e(1-4) opens(2) feeds id_apply wf new ok ev, of "Some (Writer 1)" "Some (Writer 1)"]
  obtain c1 d1 l l' g ch where r:
    "RaceDialDataplaneStreams example_env (silenced (Some (Writer 1)) 0) shaken_host = Goes (None, silenced (Some (Writer 1)) l, c1)"
    "RaceListenDataplaneStreams example_env 1 (silenced (Some (Writer 1)) 0) ?d = Goes (None, silenced (Some (Writer 1)) l', d1)"
    "run_events pair_write pair_read snd ?feed id one_write (raced_connection snd c1 d1) = Inr g"
    "(channel_step ?M)\<^sup>*\<^sup>* \<lparr>ch_pending = dom ?M, ch_streams = conn_Streams ?d\<rparr> ch" "dpl_QPartsStreams (co_peer g) = ch_streams ch"
    unfolding e(6,7) by blast
  obtain order where o: "distinct order" "set order \<subseteq> {77}" "ch_streams ch = fold (deliver ?M) order [9 \<mapsto> new_stream 9 0]"
    using channel_run [OF r(4)] unfolding d9 by auto
  show ?thesis
    by (rule exI [of _ c1], rule exI [of _ d1], rule exI [of _ l], rule exI [of _ l'], rule exI [of _ g], rule exI [of _ order])
      (intro conjI r(1-3) o(1,2) trans [OF r(5) o(3)])
qed

end
