(* ===== verification/Programs.thy ===== *)
theory Programs
  imports ControlPlane
begin

text \<open>
  The programs of \<^verbatim>\<open>examples/\<close> that use the library, from the point where their stream is open.  A program
  prints, and ends with \<^verbatim>\<open>log.Fatal\<close> on every error.  A read or a write that waits ends a run with \<open>Waiting\<close>: the run is then made again when
  more bytes have come.  The prints and hashes are left out.
\<close>

section \<open>Runs\<close>

datatype 'a run = Waiting | Fatal_exit io_err | Crash go_fault | Done 'a

definition run_bind :: "'a run \<Rightarrow> ('a \<Rightarrow> 'b run) \<Rightarrow> 'b run" where
  "run_bind m f = (case m of Waiting \<Rightarrow> Waiting | Fatal_exit e \<Rightarrow> Fatal_exit e | Crash e \<Rightarrow> Crash e | Done x \<Rightarrow> f x)"

lemma run_bind_simps [simp]:
  "run_bind (Done x) f = f x" "run_bind Waiting f = Waiting"
  "run_bind (Fatal_exit e) f = Fatal_exit e" "run_bind (Crash c) f = Crash c"
  by (simp_all add: run_bind_def)

definition of_go :: "'a go \<Rightarrow> 'a run" where
  "of_go m = (case m of Inl e \<Rightarrow> Crash e | Inr x \<Rightarrow> Done x)"

definition or_fatal :: "io_err + 'a \<Rightarrow> 'a run" where
  "or_fatal m = (case m of Inl e \<Rightarrow> Fatal_exit e | Inr x \<Rightarrow> Done x)"

text \<open>A call of \<^verbatim>\<open>Read\<close>, \<^verbatim>\<open>io.ReadFull\<close> or \<^verbatim>\<open>Write\<close> whose error is fatal.\<close>

definition io_result :: "('a \<times> io_err option \<times> 's) option \<Rightarrow> ('a \<times> 's) run" where
  "io_result r =
     (case r of
        None \<Rightarrow> Waiting
      | Some (x, Some e, s) \<Rightarrow> Fatal_exit e
      | Some (x, None, s) \<Rightarrow> Done (x, s))"

lemma run_simps [simp]:
  "of_go (Inl e) = Crash e" "of_go (Inr x) = Done x" "or_fatal (Inl err) = Fatal_exit err" "or_fatal (Inr x) = Done x"
  "io_result None = Waiting" "io_result (Some (y, Some err, s)) = Fatal_exit err" "io_result (Some (y, None, s)) = Done (y, s)"
  by (simp_all add: of_go_def or_fatal_def io_result_def)

text \<open>A \<^verbatim>\<open>Write\<close> of the library whose error is fatal; it may also panic.\<close>

type_synonym 's lib_write = "'s \<Rightarrow> byte list \<Rightarrow> (nat \<times> 's) run"

definition fatal_write :: "'s qwrite \<Rightarrow> 's lib_write" where
  "fatal_write wr = (\<lambda>s b. io_result (wr s b))"

section \<open>Sized messages\<close>

text \<open>What the programs send and receive: eight bytes with the length, then the content.  The length is
  read by one \<^verbatim>\<open>Read\<close>, which may fill less of its buffer, and the content by \<^verbatim>\<open>io.ReadFull\<close>.\<close>

definition recv_sized :: "'s qread \<Rightarrow> 's \<Rightarrow> (byte list \<times> 's) run" where
  "recv_sized rd s =
     run_bind (io_result (rd s 8)) (\<lambda>(bs, s1).
     run_bind (of_go (Uint64 (go_copy (replicate 8 0) bs))) (\<lambda>size.
     run_bind (of_go (go_make size)) (\<lambda>buf.
     run_bind (io_result (ReadAll rd s1 (length buf))) (\<lambda>(got, s2).
       Done (go_copy buf got, s2)))))"

definition send_sized :: "'s lib_write \<Rightarrow> byte list \<Rightarrow> 's \<Rightarrow> 's run" where
  "send_sized wr buf s =
     run_bind (wr s (PutUint64 (of_nat (length buf)))) (\<lambda>(n, s1).
     run_bind (wr s1 buf) (\<lambda>(n, s2). Done s2))"

section \<open>\<^verbatim>\<open>filetransfer\<close> and \<^verbatim>\<open>fileserver\<close>\<close>

text \<open>\<^verbatim>\<open>os.Stat(file).Size()\<close> and the content behind \<^verbatim>\<open>os.Open(file)\<close>; the two may differ.\<close>

record files =
  fs_Size :: "string \<Rightarrow> io_err + u64"
  fs_Open :: "string \<Rightarrow> io_err + byte list"

definition read_file :: "byte list \<Rightarrow> byte list \<Rightarrow> io_err + byte list" where
  "read_file content buf =
     (if length buf \<le> length content then Inr (take (length buf) content)
      else Inl (if content = [] then EOF else UnexpectedEOF))"

definition filetransfer_client :: "files \<Rightarrow> string \<Rightarrow> 's lib_write \<Rightarrow> 's \<Rightarrow> 's run" where
  "filetransfer_client fs file wr s =
     run_bind (or_fatal (fs_Size fs file)) (\<lambda>size.
     run_bind (wr s (PutUint64 size)) (\<lambda>(n, s1).
     run_bind (of_go (go_make size)) (\<lambda>buf.
     run_bind (or_fatal (fs_Open fs file)) (\<lambda>content.
     run_bind (or_fatal (read_file content buf)) (\<lambda>buf.
     run_bind (wr s1 buf) (\<lambda>(n, s2). Done s2))))))"

definition filetransfer_server :: "'s qread \<Rightarrow> 's \<Rightarrow> (byte list \<times> 's) run" where
  "filetransfer_server rd s = recv_sized rd s"

text \<open>Strings are their bytes.\<close>

definition string_bytes :: "string \<Rightarrow> byte list" where
  "string_bytes = map of_char"

definition bytes_string :: "byte list \<Rightarrow> string" where
  "bytes_string = map (\<lambda>b. char_of (unat b))"

definition fileserver_client_send :: "string \<Rightarrow> 's lib_write \<Rightarrow> 's \<Rightarrow> 's run" where
  "fileserver_client_send file wr s = send_sized wr (string_bytes file) s"

definition fileserver_client_receive :: "'s qread \<Rightarrow> 's \<Rightarrow> (byte list \<times> 's) run" where
  "fileserver_client_receive rd s = recv_sized rd s"

definition fileserver_server :: "files \<Rightarrow> 's qread \<Rightarrow> 's lib_write \<Rightarrow> 's \<Rightarrow> 's run" where
  "fileserver_server fs rd wr s =
     run_bind (recv_sized rd s) (\<lambda>(buf, s1).
     let file = bytes_string buf in
     run_bind (or_fatal (fs_Size fs file)) (\<lambda>fileSize.
     run_bind (of_go (go_make fileSize)) (\<lambda>buf.
     run_bind (or_fatal (fs_Open fs file)) (\<lambda>content.
     run_bind (or_fatal (read_file content buf)) (\<lambda>buf.
     run_bind (wr s1 (PutUint64 fileSize)) (\<lambda>(n, s2).
     run_bind (wr s2 buf) (\<lambda>(n, s3). Done s3)))))))"

text \<open>What the arguments ask for; \<^verbatim>\<open>os.Args[0]\<close> is the program.\<close>

datatype role = Server string | Client string string string

definition program_role :: "string list \<Rightarrow> role go" where
  "program_role args =
     go_bind (go_index args 1) (\<lambda>mode.
     go_bind (go_index args 2) (\<lambda>localAddr.
       if mode = ''server'' then Inr (Server localAddr)
       else
         go_bind (go_index args 3) (\<lambda>remoteAddr.
         go_bind (go_index args 4) (\<lambda>file. Inr (Client localAddr remoteAddr file)))))"

section \<open>\<^verbatim>\<open>pingpong\<close>\<close>

text \<open>One turn of the two loops; the client sends the same buffer again and again, and every program
  reads into the same buffer again and again.\<close>

definition pingpong_buffer :: "byte list" where
  "pingpong_buffer = go_copy (replicate 1400 0) (string_bytes ''Hello World'')"

definition pingpong_send :: "'s lib_write \<Rightarrow> 's \<Rightarrow> 's run" where
  "pingpong_send wr s = run_bind (wr s pingpong_buffer) (\<lambda>(n, s1). Done s1)"

definition pingpong_receive :: "'s qread \<Rightarrow> byte list \<Rightarrow> 's \<Rightarrow> ((nat \<times> string \<times> byte list) \<times> 's) run" where
  "pingpong_receive rd buf s =
     run_bind (io_result (rd s (length buf))) (\<lambda>(bs, s1).
       let buf = go_copy buf bs in Done ((length bs, bytes_string buf, buf), s1))"

section \<open>Lemmas\<close>

lemma bytes_of_string [simp]: "bytes_string (string_bytes s) = s"
proof -
  have "char_of (unat (of_char c :: byte)) = c" for c
  proof -
    have "unat (of_char c :: byte) = of_char c"
      by (subst of_nat_of_char [symmetric]) (simp add: unat_of_nat)
    then show ?thesis by simp
  qed
  then show ?thesis by (simp add: bytes_string_def string_bytes_def comp_def)
qed

text \<open>A stream whose \<^verbatim>\<open>Read\<close> returns all that there is, up to the length of the buffer, as the one of
  \<^verbatim>\<open>PartsStream\<close> does.\<close>

definition read_available :: "'s qread \<Rightarrow> ('s \<Rightarrow> byte list) \<Rightarrow> bool" where
  "read_available rd pend \<longleftrightarrow> (\<forall>s. pend s \<noteq> [] \<longrightarrow> (\<forall>n.
     (\<exists>s'. rd s n = Some (take n (pend s), None, s') \<and> pend s' = drop n (pend s))))"

lemma read_availableE:
  fixes n :: nat
  assumes "read_available rd pend" "pend s \<noteq> []"
  obtains s' where "rd s n = Some (take n (pend s), None, s')" "pend s' = drop n (pend s)"
  using assms unfolding read_available_def by blast

lemma read_available_delivers: "read_available rd pend \<Longrightarrow> stream_delivers rd pend"
  unfolding stream_delivers_def
proof (intro allI impI)
  fix s and n :: nat
  assume a: "read_available rd pend" "0 < n \<and> pend s \<noteq> []"
  then obtain s' where "rd s n = Some (take n (pend s), None, s')" "pend s' = drop n (pend s)"
    by (blast elim: read_availableE)
  then show "\<exists>k s'. 0 < k \<and> k \<le> n \<and> k \<le> length (pend s)
      \<and> rd s n = Some (take k (pend s), None, s') \<and> pend s' = drop k (pend s)"
    using a by (intro exI [of _ "min n (length (pend s))"] exI [of _ s']) (auto simp: min_def)
qed

lemma stream_rd_open:
  assumes "read_open now s" "pb_buffer (ps_ReadBuffer s) \<noteq> []"
  shows "stream_rd now s n = Some (take n (pb_buffer (ps_ReadBuffer s)), None,
     s\<lparr>ps_ReadBuffer := \<lparr>pb_buffer = drop n (pb_buffer (ps_ReadBuffer s))\<rparr>\<rparr>)"
  using Stream_Read_open [OF assms(1) refl assms(2), of "replicate n 0"] by (simp add: stream_rd_def min_def)

lemma stream_rd_empty: "read_open now s \<Longrightarrow> pb_buffer (ps_ReadBuffer s) = [] \<Longrightarrow> stream_rd now s n = None"
  by (auto simp: stream_rd_def Stream_Read_def read_open_def pb_Read_def)

lemma read_open_buffer [simp]: "read_open now (s\<lparr>ps_ReadBuffer := pb\<rparr>) = read_open now s"
  by (simp add: read_open_def)

lemma stream_rd_available: "read_available (stream_rd now) (readable now)"
  unfolding read_available_def
  by (auto simp: readable_def stream_rd_open split: if_splits)

lemma go_make_of_nat:
  assumes "n \<le> maxAlloc"
  shows "go_make (of_nat n) = Inr (replicate n 0)"
proof -
  have "unat (of_nat n :: u64) = n" using assms by (simp add: unat_of_nat maxAlloc_def)
  with assms show ?thesis by (simp add: go_make_def)
qed

lemma recv_sized_message:
  assumes "read_available rd pend" "pend s = PutUint64 (of_nat (length data)) @ data @ rest" "length data \<le> maxAlloc"
  shows "\<exists>s'. recv_sized rd s = Done (data, s') \<and> pend s' = rest"
proof -
  let ?h = "PutUint64 (of_nat (length data))"
  have "pend s \<noteq> []" using assms(2) by (metis append_is_Nil_conv length_0_conv length_PutUint(3) zero_neq_numeral)
  with assms(1) obtain s1 where s1: "rd s 8 = Some (take 8 (pend s), None, s1)" "pend s1 = drop 8 (pend s)"
    by (rule read_availableE)
  then have "rd s 8 = Some (?h, None, s1)" "pend s1 = data @ rest" by (simp_all add: assms(2))
  moreover obtain s2 where "ReadAll rd s1 (length data) = Some (data, None, s2)" "pend s2 = rest"
    using ReadAll_delivers [OF read_available_delivers [OF assms(1)], of "length data" s1] calculation(2) by auto
  ultimately show ?thesis by (simp add: recv_sized_def go_copy_full go_make_of_nat assms(3))
qed

lemma run_bind_Done: "run_bind m f = Done y \<longleftrightarrow> (\<exists>x. m = Done x \<and> f x = Done y)"
  by (cases m) simp_all

lemma io_result_Done: "io_result r = Done z \<longleftrightarrow> r = Some (fst z, None, snd z)"
  by (auto simp: io_result_def split: option.splits)

lemma recv_sized_keeps:
  assumes "\<And>s n bs e s'. rd s n = Some (bs, e, s') \<Longrightarrow> sent s' = sent s" "recv_sized rd s = Done (data, s')"
  shows "sent s' = sent s"
proof -
  from assms(2) obtain bs s1 n got where r: "rd s 8 = Some (bs, None, s1)" "ReadAll rd s1 n = Some (got, None, s')"
    by (auto simp: recv_sized_def run_bind_Done io_result_Done)
  have "sent s' = sent s1" by (rule ReadAll_keeps [OF assms(1) r(2)])
  also have "\<dots> = sent s" by (rule assms(1) [OF r(1)])
  finally show ?thesis .
qed

lemma filetransfer_client_sends:
  assumes "fs_Size fs file = Inr (of_nat (length content))" "fs_Open fs file = Inr content" "length content \<le> maxAlloc"
    and "wr s (PutUint64 (of_nat (length content))) = Done (n, s1)" "wr s1 content = Done (m, s2)"
  shows "filetransfer_client fs file wr s = Done s2"
  using assms by (simp add: filetransfer_client_def read_file_def go_make_of_nat)

text \<open>A first byte that is not zero makes the eight first bytes a length that cannot be allocated.\<close>

lemma Uint64_first:
  assumes "8 \<le> length bs" "hd bs \<noteq> 0"
  shows "\<exists>x. Uint64 bs = Inr x \<and> maxAlloc < unat x"
proof -
  from assms obtain b0 b1 b2 b3 b4 b5 b6 b7 tl where bs: "bs = b0 # b1 # b2 # b3 # b4 # b5 # b6 # b7 # tl" "b0 \<noteq> 0"
    by (auto simp: Suc_le_length_iff numeral_eq_Suc)
  let ?x = "ucast b7 OR push_bit 8 (ucast b6) OR push_bit 16 (ucast b5) OR push_bit 24 (ucast b4)
       OR push_bit 32 (ucast b3) OR push_bit 40 (ucast b2) OR push_bit 48 (ucast b1) OR push_bit 56 (ucast b0) :: u64"
  have "drop_bit 56 ?x = ucast b0"
  proof (rule bit_word_eqI)
    fix n assume "n < LENGTH(64)"
    then show "bit (drop_bit 56 ?x) n = bit (ucast b0 :: u64) n"
      by (cases "n < 8") (auto simp: bit_simps)
  qed
  moreover have "(ucast b0 :: u64) \<noteq> 0" using bs(2) by (force simp: bit_eq_iff bit_simps)
  ultimately have "unat (drop_bit 56 ?x) \<noteq> 0" by (simp only: unat_eq_0 not_False_eq_True)
  then have "drop_bit 56 (unat ?x) \<noteq> 0" by (simp only: unat_drop_bit_eq not_False_eq_True)
  then have "2 ^ 56 \<le> unat ?x" by (simp add: drop_bit_eq_div div_eq_0_iff)
  then have "maxAlloc < unat ?x" by (simp add: maxAlloc_def)
  then show ?thesis using bs(1) by auto
qed

lemma recv_sized_overtaken:
  assumes "read_available rd pend" "pend s = data @ rest" "8 \<le> length (data @ rest)" "data \<noteq> []" "hd data \<noteq> 0"
  shows "recv_sized rd s = Crash MakeSliceLen"
proof -
  have "pend s \<noteq> []" using assms(2,4) by simp
  with assms(1) obtain s1 where "rd s 8 = Some (take 8 (pend s), None, s1)" by (rule read_availableE)
  moreover have "length (take 8 (pend s)) = 8" "hd (take 8 (pend s)) \<noteq> 0"
    using assms(2-5) by (auto simp: hd_append)
  moreover from this obtain x where "Uint64 (take 8 (pend s)) = Inr x" "maxAlloc < unat x"
    using Uint64_first [of "take 8 (pend s)"] by auto
  ultimately show ?thesis by (simp add: recv_sized_def go_copy_full go_make_def)
qed

section \<open>A file over the data plane\<close>

text \<open>The write side of a \<^verbatim>\<open>PartsStream\<close> as a writer: the state is the data plane with the choices that
  are still to be made, for every call the orders of the two \<^verbatim>\<open>range\<close> loops, the random sequence number and
  the turns of the write loops until the call returns.\<close>

type_synonym write_choice = "u64 list \<times> u64 list \<times> u64 \<times> u64 list"

definition parts_write ::
  "'s qwrite \<Rightarrow> int \<Rightarrow> 'addr option \<Rightarrow> PartsStream
     \<Rightarrow> (('addr, 'path, 's) QPartsDataplane \<times> write_choice list) lib_write" where
  "parts_write wr now remote s = (\<lambda>(dp, choices) b.
     case choices of
       [] \<Rightarrow> Waiting
     | (order1, order2, rnd, ks) # rest \<Rightarrow>
         (case Stream_Write now b order1 order2 rnd remote s dp of
            Inr (Inr (A, n, dp1)) \<Rightarrow>
              (case run_writers wr ks dp1 of
                 Inr dp2 \<Rightarrow> if WriteForStream_returns A dp2 then Done (n, dp2, rest) else Waiting
               | Inl e \<Rightarrow> Crash e)
          | Inr (Inl err) \<Rightarrow> Fatal_exit (IOError err)
          | Inl e \<Rightarrow> Crash e))"

definition fair_choice :: "('addr, 'path, 's) QPartsDataplane \<Rightarrow> write_choice \<Rightarrow> bool" where
  "fair_choice dp = (\<lambda>(order1, order2, rnd, ks). visits order1 (dom (dpl_Streams dp)) \<and> visits order2 (dom (dpl_Streams dp))
     \<and> Completions (dpl_completionStore dp) rnd = None
     \<and> turns (5 * card (dom (dpl_Streams dp))) (dom (dpl_Streams dp)) ks)"

definition choice_seq :: "write_choice \<Rightarrow> u64" where
  "choice_seq = (\<lambda>(order1, order2, rnd, ks). rnd)"

lemma delivered_simps [simp]:
  "pb_buffer (ps_ReadBuffer (delivered s b)) = pb_buffer (ps_ReadBuffer s) @ b"
  "read_open now (delivered s b) = read_open now s"
  by (simp_all add: delivered_def pb_Append_def read_open_def)

text \<open>The QUIC streams of \<open>dp'\<close> have sent what those of \<open>dp\<close> have, and more.\<close>

definition sent_more ::
  "('s \<Rightarrow> byte list) \<Rightarrow> ('addr, 'path, 's) QPartsDataplane \<Rightarrow> ('addr, 'path, 's) QPartsDataplane \<Rightarrow> bool" where
  "sent_more sent dp dp' \<longleftrightarrow> dom (dpl_Streams dp') = dom (dpl_Streams dp)
     \<and> (\<forall>k st st'. dpl_Streams dp k = Some st \<longrightarrow> dpl_Streams dp' k = Some st' \<longrightarrow>
          sent (ds_ssqc st') = sent (ds_ssqc st) @ drop (length (sent (ds_ssqc st))) (sent (ds_ssqc st')))"

lemma has_sent_more: "has_sent sent sid rnd das dp dp' \<Longrightarrow> sent_more sent dp dp'"
  by (simp add: has_sent_def sent_more_def)

text \<open>What the QUIC streams have carried since \<open>dp\<close> arrives as the sequence \<open>b\<close> on the stream \<open>sid\<close>, in
  every schedule of the read loops with enough turns.\<close>

definition arrives ::
  "'t qread \<Rightarrow> ('s \<Rightarrow> byte list) \<Rightarrow> ('t \<Rightarrow> byte list) \<Rightarrow> u64 \<Rightarrow> u64 \<Rightarrow> byte list
     \<Rightarrow> ('addr, 'path, 's) QPartsDataplane \<Rightarrow> ('addr, 'path, 's) QPartsDataplane \<Rightarrow> bool" where
  "arrives rd sent pend sid q b dp dp' \<longleftrightarrow> (\<forall>(rdp :: ('addr, 'path, 't) QPartsDataplane) s0 peer rs.
     receiver_ready sent pend peer dp dp' sid q s0 rdp
       \<longrightarrow> turns (10 * card (dom (dpl_Streams dp))) (peer ` dom (dpl_Streams dp)) rs
       \<longrightarrow> (\<exists>rdp'. run_readers rd rs (rdp, Map.empty) = Inr (rdp', Map.empty)
         \<and> dpl_QPartsStreams rdp' sid = Some (delivered s0 b)
         \<and> Completions (dpl_completionStore rdp') = Completions (dpl_completionStore rdp)))"

lemma arrivesE:
  fixes rdp :: "('addr, 'path, 't) QPartsDataplane"
  assumes "arrives rd sent pend sid q b dp dp'" "receiver_ready sent pend peer dp dp' sid q s0 rdp"
    and "turns (10 * card (dom (dpl_Streams dp))) (peer ` dom (dpl_Streams dp)) rs"
  obtains rdp' where "run_readers rd rs (rdp, Map.empty) = Inr (rdp', Map.empty)"
    "dpl_QPartsStreams rdp' sid = Some (delivered s0 b)"
    "Completions (dpl_completionStore rdp') = Completions (dpl_completionStore rdp)"
  using assms unfolding arrives_def by blast

lemma parts_write_delivers:
  fixes dp :: "('addr, 'path, 's) QPartsDataplane" and rd :: "'t qread"
  assumes "stream_accepts wr sent" "stream_delivers rd pend" "stream_blocks rd pend"
    and "finite (dom (dpl_Streams dp))" "idle dp" "write_open now s" "splittable b (dom (dpl_Streams dp))" "fair_choice dp c"
  obtains dp2 where "\<And>cs. parts_write wr now remote s (dp, c # cs) b = Done (length b, dp2, cs)"
    "idle dp2" "sent_more sent dp dp2"
    "Completions (dpl_completionStore dp2) = Completions (dpl_completionStore dp)"
    "arrives rd sent pend (ps_Id s) (choice_seq c) b dp dp2"
proof -
  let ?K = "dom (dpl_Streams dp)"
  obtain order1 order2 rnd ks where c: "c = (order1, order2, rnd, ks)" by (cases c)
  with assms(8) have f: "visits order1 ?K" "visits order2 ?K" "Completions (dpl_completionStore dp) rnd = None"
    "turns (5 * card ?K) ?K ks" by (simp_all add: fair_choice_def)
  obtain das A dp1 dp2 where w: "Stream_Write now b order1 order2 rnd remote s dp = Inr (Inr (A, length b, dp1))"
    "run_writers wr ks dp1 = Inr dp2" "WriteForStream_returns A dp2" "idle dp2"
    "Completions (dpl_completionStore dp2) = Completions (dpl_completionStore dp)"
    and das: "sendable (map da_Data das)" "placed das ?K" "concat (map da_Data das) = b"
      "length das \<le> 5 * card ?K" "has_sent sent (ps_Id s) rnd das dp dp2"
    using Stream_Write_sends [OF assms(1,4,5,6,7) f] by blast
  have "parts_write wr now remote s (dp, c # cs) b = Done (length b, dp2, cs)" for cs
    using w(1-3) by (simp add: parts_write_def c)
  moreover have "arrives rd sent pend (ps_Id s) (choice_seq c) b dp dp2"
    unfolding arrives_def
  proof (intro allI impI)
    fix rdp :: "('addr, 'path, 't) QPartsDataplane" and s0 peer rs
    assume r: "receiver_ready sent pend peer dp dp2 (ps_Id s) (choice_seq c) s0 rdp" "turns (10 * card ?K) (peer ` ?K) rs"
    then have "peer_connected sent pend peer dp dp2 rdp" "dpl_QPartsStreams rdp (ps_Id s) = Some s0"
      "Completions (dpl_completionStore rdp) rnd = None" "turns (2 * (5 * card ?K)) (peer ` ?K) rs"
      by (simp_all add: receiver_ready_def c choice_seq_def)
    from connected_delivers [OF das(5) this(1) assms(2,3) das(1,2) this(2,3) das(4) this(4)] das(3)
    show "\<exists>rdp'. run_readers rd rs (rdp, Map.empty) = Inr (rdp', Map.empty)
         \<and> dpl_QPartsStreams rdp' (ps_Id s) = Some (delivered s0 b)
         \<and> Completions (dpl_completionStore rdp') = Completions (dpl_completionStore rdp)"
      by auto
  qed
  ultimately show thesis using that w(4,5) has_sent_more [OF das(5)] by blast
qed

lemma two_writes:
  fixes dp :: "('addr, 'path, 's) QPartsDataplane" and rd :: "'t qread"
  assumes "stream_accepts wr sent" "stream_delivers rd pend" "stream_blocks rd pend"
    and "finite (dom (dpl_Streams dp))" "idle dp" "write_open now s"
    and "splittable a (dom (dpl_Streams dp))" "splittable b (dom (dpl_Streams dp))" "fair_choice dp c1" "fair_choice dp c2"
  obtains dp2 dp4 where "\<And>cs. parts_write wr now remote s (dp, c1 # cs) a = Done (length a, dp2, cs)"
    "\<And>cs. parts_write wr now remote s (dp2, c2 # cs) b = Done (length b, dp4, cs)"
    "sent_more sent dp dp2" "sent_more sent dp2 dp4"
    "arrives rd sent pend (ps_Id s) (choice_seq c1) a dp dp2" "arrives rd sent pend (ps_Id s) (choice_seq c2) b dp2 dp4"
proof (rule parts_write_delivers [OF assms(1-7,9)])
  fix dp2
  assume first: "\<And>cs. parts_write wr now remote s (dp, c1 # cs) a = Done (length a, dp2, cs)"
    "arrives rd sent pend (ps_Id s) (choice_seq c1) a dp dp2"
    and dp2: "idle dp2" "sent_more sent dp dp2" "Completions (dpl_completionStore dp2) = Completions (dpl_completionStore dp)"
  have "dom (dpl_Streams dp2) = dom (dpl_Streams dp)" using dp2(2) by (simp add: sent_more_def)
  then have "finite (dom (dpl_Streams dp2))" "splittable b (dom (dpl_Streams dp2))" "fair_choice dp2 c2"
    using assms(4,8,10) dp2(3) by (simp_all add: fair_choice_def)
  note second = parts_write_delivers [OF assms(1-3) this(1) dp2(1) assms(6) this(2,3)]
  show thesis by (rule second) (rule that [OF first(1) _ dp2(2) _ first(2)])
qed

text \<open>The server of \<^verbatim>\<open>filetransfer\<close> on a stream that has received the size, and on one that has received
  the content after it.\<close>

lemma recv_sized_waits:
  assumes "read_open now s" "pb_buffer (ps_ReadBuffer s) = PutUint64 (of_nat (length data))"
    and "length data \<le> maxAlloc" "data \<noteq> []"
  shows "recv_sized (stream_rd now) s = Waiting"
proof -
  let ?h = "PutUint64 (of_nat (length data))" and ?s1 = "s\<lparr>ps_ReadBuffer := \<lparr>pb_buffer = []\<rparr>\<rparr>"
  have "pb_buffer (ps_ReadBuffer s) \<noteq> []" using assms(2) by (metis length_0_conv length_PutUint(3) zero_neq_numeral)
  then have "stream_rd now s 8 = Some (?h, None, ?s1)" using stream_rd_open [OF assms(1), of 8] assms(2) by simp
  moreover have "stream_rd now ?s1 n = None" for n by (rule stream_rd_empty) (simp_all add: assms(1))
  then have "ReadAll (stream_rd now) ?s1 (length data) = None"
    using assms(4) by (simp add: ReadAll_def read_at_least.simps)
  ultimately show ?thesis by (simp add: recv_sized_def go_copy_full go_make_of_nat assms(3))
qed

lemma filetransfer_server_stream:
  assumes "pb_buffer (ps_ReadBuffer s) = []" "read_open now s" "length data \<le> maxAlloc" "data \<noteq> []"
  shows "filetransfer_server (stream_rd now) (delivered s (PutUint64 (of_nat (length data)))) = Waiting"
    "\<exists>s'. filetransfer_server (stream_rd now) (delivered (delivered s (PutUint64 (of_nat (length data)))) data) = Done (data, s')"
proof -
  let ?h = "PutUint64 (of_nat (length data))"
  show "filetransfer_server (stream_rd now) (delivered s ?h) = Waiting"
    unfolding filetransfer_server_def by (rule recv_sized_waits [OF _ _ assms(3,4)]) (simp_all add: assms(1,2))
  have "readable now (delivered (delivered s ?h) data) = ?h @ data @ []" using assms(1,2) by (simp add: readable_def)
  from recv_sized_message [OF stream_rd_available this assms(3)]
  show "\<exists>s'. filetransfer_server (stream_rd now) (delivered (delivered s ?h) data) = Done (data, s')"
    unfolding filetransfer_server_def by blast
qed

section \<open>Properties\<close>

text \<open>C21: The program \<^verbatim>\<open>filetransfer\<close> transfers a file when its two writes arrive in order.  Over a
  data plane that is otherwise idle, the client's writes of the size and of the content both return;
  when the peer's read loops have had their turns on the first, its server waits for the content, and
  when the second arrives after that and the read loops have had their turns on it too, the server ends
  with exactly the content of the file, whatever the orders and schedules of all the loops.\<close>

theorem file_transferred:
  fixes dp :: "('addr, 'path, 's) QPartsDataplane"
  assumes "stream_accepts wr sent" "stream_delivers rd pend" "stream_blocks rd pend"
    and "finite (dom (dpl_Streams dp))" "idle dp" "write_open now s"
    and "fs_Size fs file = Inr (of_nat (length content))" "fs_Open fs file = Inr content"
    and "splittable content (dom (dpl_Streams dp))" "fair_choice dp c1" "fair_choice dp c2"
  shows "\<exists>dp2 dp4. parts_write wr now remote s (dp, [c1, c2]) (PutUint64 (of_nat (length content))) = Done (8, dp2, [c2])
     \<and> filetransfer_client fs file (parts_write wr now remote s) (dp, [c1, c2]) = Done (dp4, [])
     \<and> sent_more sent dp dp2 \<and> sent_more sent dp2 dp4
     \<and> (\<forall>(rdp :: ('addr, 'path, 't) QPartsDataplane) s0 peer rs now'.
          receiver_ready sent pend peer dp dp2 (ps_Id s) (choice_seq c1) s0 rdp
            \<and> pb_buffer (ps_ReadBuffer s0) = [] \<and> read_open now' s0
            \<and> turns (10 * card (dom (dpl_Streams dp))) (peer ` dom (dpl_Streams dp)) rs
          \<longrightarrow> (\<exists>rdp1 s1. run_readers rd rs (rdp, Map.empty) = Inr (rdp1, Map.empty)
            \<and> dpl_QPartsStreams rdp1 (ps_Id s) = Some s1 \<and> filetransfer_server (stream_rd now') s1 = Waiting
            \<and> Completions (dpl_completionStore rdp1) = Completions (dpl_completionStore rdp)
            \<and> (\<forall>(rdp2 :: ('addr, 'path, 't) QPartsDataplane) peer' rs'.
                 peer_connected sent pend peer' dp2 dp4 rdp2 \<and> dpl_QPartsStreams rdp2 = dpl_QPartsStreams rdp1
                   \<and> Completions (dpl_completionStore rdp2) (choice_seq c2) = None
                   \<and> turns (10 * card (dom (dpl_Streams dp))) (peer' ` dom (dpl_Streams dp)) rs'
                 \<longrightarrow> (\<exists>rdp3 s3 s4. run_readers rd rs' (rdp2, Map.empty) = Inr (rdp3, Map.empty)
                   \<and> dpl_QPartsStreams rdp3 (ps_Id s) = Some s3
                   \<and> filetransfer_server (stream_rd now') s3 = Done (content, s4)))))"
proof -
  let ?K = "dom (dpl_Streams dp)" and ?h = "PutUint64 (of_nat (length content))"
  have len: "length content \<le> maxAlloc" "content \<noteq> []" using assms(9) by (auto simp: splittable_def)
  have "splittable ?h ?K" using assms(9) by (auto simp: splittable_def maxAlloc_def PutUint64_def)
  from two_writes [OF assms(1-6) this assms(9-11)] obtain dp2 dp4 where
    w: "\<And>cs. parts_write wr now remote s (dp, c1 # cs) ?h = Done (8, dp2, cs)"
      "\<And>cs. parts_write wr now remote s (dp2, c2 # cs) content = Done (length content, dp4, cs)"
      "sent_more sent dp dp2" "sent_more sent dp2 dp4"
    and arr: "arrives rd sent pend (ps_Id s) (choice_seq c1) ?h dp dp2"
      "arrives rd sent pend (ps_Id s) (choice_seq c2) content dp2 dp4"
    unfolding length_PutUint by blast
  have dom: "dom (dpl_Streams dp2) = ?K" using w(3) by (simp add: sent_more_def)
  show ?thesis
  proof (rule exI [of _ dp2], rule exI [of _ dp4], intro conjI allI impI; (elim conjE)?)
    show "parts_write wr now remote s (dp, [c1, c2]) ?h = Done (8, dp2, [c2])" "sent_more sent dp dp2" "sent_more sent dp2 dp4"
      by (rule w)+
    show "filetransfer_client fs file (parts_write wr now remote s) (dp, [c1, c2]) = Done (dp4, [])"
      by (rule filetransfer_client_sends [OF assms(7,8) len(1) w(1,2)])
    fix rdp :: "('addr, 'path, 't) QPartsDataplane" and s0 peer rs now'
    assume r: "receiver_ready sent pend peer dp dp2 (ps_Id s) (choice_seq c1) s0 rdp" "pb_buffer (ps_ReadBuffer s0) = []"
      "read_open now' s0" "turns (10 * card ?K) (peer ` ?K) rs"
    note server = filetransfer_server_stream [OF r(2,3) len]
    obtain rdp1 where rdp1: "run_readers rd rs (rdp, Map.empty) = Inr (rdp1, Map.empty)"
      "dpl_QPartsStreams rdp1 (ps_Id s) = Some (delivered s0 ?h)"
      "Completions (dpl_completionStore rdp1) = Completions (dpl_completionStore rdp)" by (rule arrivesE [OF arr(1) r(1,4)])
    have "\<exists>rdp3 s3 s4. run_readers rd rs' (rdp2, Map.empty) = Inr (rdp3, Map.empty)
        \<and> dpl_QPartsStreams rdp3 (ps_Id s) = Some s3 \<and> filetransfer_server (stream_rd now') s3 = Done (content, s4)"
      if q: "peer_connected sent pend peer' dp2 dp4 rdp2" "dpl_QPartsStreams rdp2 = dpl_QPartsStreams rdp1"
        "Completions (dpl_completionStore rdp2) (choice_seq c2) = None" "turns (10 * card ?K) (peer' ` ?K) rs'"
      for rdp2 :: "('addr, 'path, 't) QPartsDataplane" and peer' rs'
    proof -
      have "receiver_ready sent pend peer' dp2 dp4 (ps_Id s) (choice_seq c2) (delivered s0 ?h) rdp2"
        using q rdp1(2) by (simp add: receiver_ready_def)
      from arrivesE [OF arr(2) this, unfolded dom, OF q(4)] server(2) show ?thesis by metis
    qed
    with rdp1 server(1) show "\<exists>rdp1 s1. run_readers rd rs (rdp, Map.empty) = Inr (rdp1, Map.empty)
        \<and> dpl_QPartsStreams rdp1 (ps_Id s) = Some s1 \<and> filetransfer_server (stream_rd now') s1 = Waiting
        \<and> Completions (dpl_completionStore rdp1) = Completions (dpl_completionStore rdp)
        \<and> (\<forall>(rdp2 :: ('addr, 'path, 't) QPartsDataplane) peer' rs'.
             peer_connected sent pend peer' dp2 dp4 rdp2 \<and> dpl_QPartsStreams rdp2 = dpl_QPartsStreams rdp1
               \<and> Completions (dpl_completionStore rdp2) (choice_seq c2) = None
               \<and> turns (10 * card ?K) (peer' ` ?K) rs'
             \<longrightarrow> (\<exists>rdp3 s3 s4. run_readers rd rs' (rdp2, Map.empty) = Inr (rdp3, Map.empty)
               \<and> dpl_QPartsStreams rdp3 (ps_Id s) = Some s3
               \<and> filetransfer_server (stream_rd now') s3 = Done (content, s4)))" by blast
  qed
qed

text \<open>C22: It can also crash: when the frame with the content overtakes the one with the size, on another
  data plane stream, the server takes the first bytes of the file for its size; if the first is not zero,
  \<^verbatim>\<open>make\<close> panics.  The order in which the two read loops get their turns decides which of both happens.\<close>

theorem overtaken_file_crashes:
  assumes "stream_delivers rd pend" "stream_blocks rd pend" "k \<noteq> j" "seq \<noteq> seq'"
    and "content \<noteq> []" "hd content \<noteq> 0" "length content \<le> maxAlloc"
    and "dpl_QPartsStreams dp sid = Some s0" "pb_buffer (ps_ReadBuffer s0) = []" "read_open now s0"
    and "Completions (dpl_completionStore dp) seq = None" "Completions (dpl_completionStore dp) seq' = None"
    and "dpl_Streams dp k = Some st" "pend (ds_ssqc st) = frames sid seq [PutUint64 (of_nat (length content))] [(0, PutUint64 (of_nat (length content)))]"
    and "dpl_Streams dp j = Some st'" "pend (ds_ssqc st') = frames sid seq' [content] [(0, content)]"
  shows "\<exists>dp1 s1 s2 dp2 s3. run_readers rd [k, k, j, j] (dp, Map.empty) = Inr (dp1, Map.empty)
     \<and> dpl_QPartsStreams dp1 sid = Some s1 \<and> filetransfer_server (stream_rd now) s1 = Done (content, s2)
     \<and> run_readers rd [j, j, k, k] (dp, Map.empty) = Inr (dp2, Map.empty)
     \<and> dpl_QPartsStreams dp2 sid = Some s3 \<and> filetransfer_server (stream_rd now) s3 = Crash MakeSliceLen"
proof -
  let ?h = "PutUint64 (of_nat (length content))"
  let ?s1 = "delivered (delivered s0 ?h) content" and ?s3 = "delivered (delivered s0 content) ?h"
  have "sendable [?h]" "sendable [content]" using assms(5,7) by (simp_all add: sendable_def maxAlloc_def PutUint64_def)
  from reordered_delivery [OF assms(1,2) this assms(3,4,8,11-16)] obtain dp1 dp2 where
    r: "run_readers rd [k, k, j, j] (dp, Map.empty) = Inr (dp1, Map.empty)" "dpl_QPartsStreams dp1 sid = Some ?s1"
      "run_readers rd [j, j, k, k] (dp, Map.empty) = Inr (dp2, Map.empty)" "dpl_QPartsStreams dp2 sid = Some ?s3"
    by blast
  have "readable now ?s1 = ?h @ content @ []" "readable now ?s3 = content @ ?h"
    using assms(9,10) by (simp_all add: readable_def)
  from recv_sized_message [OF stream_rd_available this(1) assms(7)] recv_sized_overtaken [OF stream_rd_available this(2) _ assms(5,6)]
  show ?thesis using r by (auto simp: filetransfer_server_def)
qed

definition two_bytes :: files where
  "two_bytes = \<lparr>fs_Size = (\<lambda>f. if f = ''f'' then Inr 2 else Inl (IOError ''no such file'')),
     fs_Open = (\<lambda>f. if f = ''f'' then Inr [65, 66] else Inl (IOError ''no such file''))\<rparr>"

definition one_stream :: "(nat, nat, byte list) QPartsDataplane" where
  "one_stream = AddDialStream 1 [] (Some 0) (NewQPartsDataplane Map.empty)"

text \<open>A receiver in state \<open>rdp\<close> to which the network brings what has been sent between \<open>dp\<close> and \<open>dp'\<close>.\<close>

definition bring ::
  "(nat, nat, byte list) QPartsDataplane \<Rightarrow> (nat, nat, byte list) QPartsDataplane \<Rightarrow> (nat, nat, byte list) QPartsDataplane
     \<Rightarrow> (nat, nat, byte list) QPartsDataplane" where
  "bring dp dp' rdp = rdp\<lparr>dpl_Streams := (\<lambda>k. case dpl_Streams dp k of None \<Rightarrow> None
     | Some st \<Rightarrow> map_option (\<lambda>st'. st'\<lparr>ds_ssqc := drop (length (ds_ssqc st)) (ds_ssqc st')\<rparr>) (dpl_Streams dp' k))\<rparr>"

lemma bring_connected: "sent_more id dp dp' \<Longrightarrow> peer_connected id id id dp dp' (bring dp dp' rdp)"
  by (auto simp: peer_connected_def sent_more_def bring_def)

lemma bring_simps [simp]:
  "dpl_QPartsStreams (bring dp dp' rdp) = dpl_QPartsStreams rdp" "dpl_completionStore (bring dp dp' rdp) = dpl_completionStore rdp"
  by (simp_all add: bring_def)

definition listening :: "(nat, nat, byte list) QPartsDataplane" where
  "listening = (NewQPartsDataplane Map.empty)\<lparr>dpl_QPartsStreams := [9 \<mapsto> NewPartsStream 9]\<rparr>"

lemma one_stream [simp]:
  "dom (dpl_Streams one_stream) = {1}" "idle one_stream" "Completions (dpl_completionStore one_stream) = Map.empty"
  by (auto simp: one_stream_def AddDialStream_def NewQPartsDataplane_def idle_def ran_def NewQueue_def
      NewCompletionStore_def split: if_splits)

lemma two_bytes_size: "fs_Size two_bytes ''f'' = Inr (of_nat (length [65 :: byte, 66]))" "fs_Open two_bytes ''f'' = Inr [65, 66]"
  by (simp_all add: two_bytes_def)

text \<open>Two bytes over one data plane stream.\<close>

theorem file_transferred_witness:
  "\<exists>dp2 dp4 rdp1 s1 rdp3 s3 s4. filetransfer_client two_bytes ''f'' (parts_write memory_write 0 None (NewPartsStream 9))
       (one_stream, [([1], [1], 77, replicate 5 1), ([1], [1], 78, replicate 5 1)]) = Done (dp4, [])
     \<and> run_readers memory_read (replicate 10 1) (bring one_stream dp2 listening, Map.empty) = Inr (rdp1, Map.empty)
     \<and> dpl_QPartsStreams rdp1 9 = Some s1 \<and> filetransfer_server (stream_rd 0) s1 = Waiting
     \<and> run_readers memory_read (replicate 10 1) (bring dp2 dp4 rdp1, Map.empty) = Inr (rdp3, Map.empty)
     \<and> dpl_QPartsStreams rdp3 9 = Some s3 \<and> filetransfer_server (stream_rd 0) s3 = Done ([65, 66], s4)"
proof -
  let ?c1 = "([1], [1], 77, replicate 5 1) :: write_choice" and ?c2 = "([1], [1], 78, replicate 5 1) :: write_choice"
  let ?s = "NewPartsStream 9"
  have s: "ps_Id ?s = 9" "write_open 0 ?s" "read_open 0 ?s" "pb_buffer (ps_ReadBuffer ?s) = []"
    by (simp_all add: NewPartsStream_def NewPacketBuffer_def read_open_def write_open_def)
  have K: "finite (dom (dpl_Streams one_stream))" "splittable [65, 66] (dom (dpl_Streams one_stream))"
    by (simp_all add: splittable_def maxAlloc_def)
  have t: "turns 5 {1} (replicate 5 1)" "turns 10 {1} (replicate 10 1)" by (simp_all add: turns_def numeral_eq_Suc)
  have c: "fair_choice one_stream ?c1" "fair_choice one_stream ?c2"
    using t(1) by (simp_all add: fair_choice_def visits_def)
  have seq: "choice_seq ?c1 = 77" "choice_seq ?c2 = 78" by (simp_all add: choice_seq_def)
  have l: "dpl_QPartsStreams listening 9 = Some ?s" "Completions (dpl_completionStore listening) = Map.empty"
    by (simp_all add: listening_def NewQPartsDataplane_def NewCompletionStore_def)
  from file_transferred [OF memory_write memory_read K(1) one_stream(2) s(2) two_bytes_size K(2) c, of None]
  obtain dp2 dp4 where d: "filetransfer_client two_bytes ''f'' (parts_write memory_write 0 None ?s) (one_stream, [?c1, ?c2]) = Done (dp4, [])"
    "sent_more id one_stream dp2" "sent_more id dp2 dp4"
    and r: "\<And>(rdp :: (nat, nat, byte list) QPartsDataplane) s0 peer rs now'.
      receiver_ready id id peer one_stream dp2 9 77 s0 rdp \<and> pb_buffer (ps_ReadBuffer s0) = [] \<and> read_open now' s0
        \<and> turns (10 * card {1 :: u64}) (peer ` {1}) rs
      \<Longrightarrow> \<exists>rdp1 s1. run_readers memory_read rs (rdp, Map.empty) = Inr (rdp1, Map.empty)
        \<and> dpl_QPartsStreams rdp1 9 = Some s1 \<and> filetransfer_server (stream_rd now') s1 = Waiting
        \<and> Completions (dpl_completionStore rdp1) = Completions (dpl_completionStore rdp)
        \<and> (\<forall>(rdp2 :: (nat, nat, byte list) QPartsDataplane) peer' rs'.
             peer_connected id id peer' dp2 dp4 rdp2 \<and> dpl_QPartsStreams rdp2 = dpl_QPartsStreams rdp1
               \<and> Completions (dpl_completionStore rdp2) 78 = None \<and> turns (10 * card {1 :: u64}) (peer' ` {1}) rs'
             \<longrightarrow> (\<exists>rdp3 s3 s4. run_readers memory_read rs' (rdp2, Map.empty) = Inr (rdp3, Map.empty)
               \<and> dpl_QPartsStreams rdp3 9 = Some s3 \<and> filetransfer_server (stream_rd now') s3 = Done ([65, 66], s4)))"
    unfolding one_stream(1) s(1) seq by blast
  have "receiver_ready id id id one_stream dp2 9 77 ?s (bring one_stream dp2 listening)"
    using bring_connected [OF d(2)] l by (simp add: receiver_ready_def)
  with r [of id ?s "bring one_stream dp2 listening" 0 "replicate 10 1"] s(3,4) t(2) obtain rdp1 s1 where
    r1: "run_readers memory_read (replicate 10 1) (bring one_stream dp2 listening, Map.empty) = Inr (rdp1, Map.empty)"
      "dpl_QPartsStreams rdp1 9 = Some s1" "filetransfer_server (stream_rd 0) s1 = Waiting"
      "Completions (dpl_completionStore rdp1) = Map.empty"
    and next2: "\<And>rdp2 peer' rs'. peer_connected id id peer' dp2 dp4 rdp2 \<and> dpl_QPartsStreams rdp2 = dpl_QPartsStreams rdp1
         \<and> Completions (dpl_completionStore rdp2) 78 = None \<and> turns (10 * card {1 :: u64}) (peer' ` {1}) rs'
       \<Longrightarrow> \<exists>rdp3 s3 s4. run_readers memory_read rs' (rdp2, Map.empty) = Inr (rdp3, Map.empty)
         \<and> dpl_QPartsStreams rdp3 9 = Some s3 \<and> filetransfer_server (stream_rd 0) s3 = Done ([65, 66], s4)"
    using l by auto
  from next2 [of id "bring dp2 dp4 rdp1" "replicate 10 1"] bring_connected [OF d(3)] r1(4) t(2)
  obtain rdp3 s3 s4 where "run_readers memory_read (replicate 10 1) (bring dp2 dp4 rdp1, Map.empty) = Inr (rdp3, Map.empty)"
    "dpl_QPartsStreams rdp3 9 = Some s3" "filetransfer_server (stream_rd 0) s3 = Done ([65, 66], s4)" by auto
  with d(1) r1(1-3) show ?thesis by blast
qed

definition two_arrived :: "(nat, nat, byte list) QPartsDataplane" where
  "two_arrived = AddListenStream 2 (frames 9 78 [[65, 66]] [(0, [65, 66])])
     (AddListenStream 1 (frames 9 77 [PutUint64 2] [(0, PutUint64 2)]) listening)"

theorem overtaken_file_crashes_witness:
  "\<exists>dp1 s1 s2 dp2 s3. run_readers memory_read [1, 1, 2, 2] (two_arrived, Map.empty) = Inr (dp1, Map.empty)
     \<and> dpl_QPartsStreams dp1 9 = Some s1 \<and> filetransfer_server (stream_rd 0) s1 = Done ([65, 66], s2)
     \<and> run_readers memory_read [2, 2, 1, 1] (two_arrived, Map.empty) = Inr (dp2, Map.empty)
     \<and> dpl_QPartsStreams dp2 9 = Some s3 \<and> filetransfer_server (stream_rd 0) s3 = Crash MakeSliceLen"
proof -
  let ?s = "NewPartsStream 9"
  have l: "dpl_QPartsStreams two_arrived 9 = Some ?s" "Completions (dpl_completionStore two_arrived) = Map.empty"
    "pb_buffer (ps_ReadBuffer ?s) = []" "read_open 0 ?s"
    by (simp_all add: two_arrived_def listening_def AddListenStream_def NewQPartsDataplane_def NewCompletionStore_def
        NewPartsStream_def NewPacketBuffer_def read_open_def)
  obtain st st' where k: "dpl_Streams two_arrived 1 = Some st" "ds_ssqc st = frames 9 77 [PutUint64 2] [(0, PutUint64 2)]"
    "dpl_Streams two_arrived 2 = Some st'" "ds_ssqc st' = frames 9 78 [[65, 66]] [(0, [65, 66])]"
    by (simp add: two_arrived_def AddListenStream_def)
  have "(1 :: u64) \<noteq> 2" "(77 :: u64) \<noteq> 78" "[65, 66 :: byte] \<noteq> []" "hd [65, 66 :: byte] \<noteq> 0"
    "length [65, 66 :: byte] \<le> maxAlloc" "(of_nat (length [65, 66 :: byte]) :: u64) = 2"
    by (simp_all add: maxAlloc_def)
  from overtaken_file_crashes [OF memory_read this(1-5) l(1,3,4) _ _ k(1) _ k(3), unfolded this(6)] k(2,4) l(2)
  show ?thesis by auto
qed



end
