(* ===== verification/Startup.thy ===== *)
theory Startup
  imports Programs Handshake
begin

text \<open>
  The programs of \<^verbatim>\<open>examples/\<close> from their arguments to an open stream: what \<^verbatim>\<open>main\<close> does on both sides, cut at
  the waits for the other side, and a whole session of a client and a server.
\<close>

section \<open>The phases of main\<close>

definition of_loop :: "'a loop_result \<Rightarrow> 'a run" where
  "of_loop r = (case r of Waits \<Rightarrow> Waiting | Panics e \<Rightarrow> Crash e | Goes x \<Rightarrow> Done x)"

lemma of_loop_simps [simp]:
  "of_loop Waits = Waiting" "of_loop (Panics e) = Crash e" "of_loop (Goes x) = Done x"
  by (simp_all add: of_loop_def)

definition unless :: "io_err option \<Rightarrow> 'a \<Rightarrow> 'a run" where
  "unless err x = (case err of Some e \<Rightarrow> Fatal_exit e | None \<Rightarrow> Done x)"

lemma unless_simps [simp]: "unless None x = Done x" "unless (Some e) x = Fatal_exit e"
  by (simp_all add: unless_def)

text \<open>\<open>parse\<close> is \<^verbatim>\<open>snet.ParseUDPAddr\<close>.  \<^verbatim>\<open>qparts.Dial\<close> up to its wait, and the rest.  The options are \<open>None\<close> in
  \<^verbatim>\<open>filetransfer\<close> and \<^verbatim>\<open>pingpong\<close>.\<close>

definition client_dial ::
  "('h, 'm, 's) environment \<Rightarrow> (string \<Rightarrow> string + ('h, 'm) UDPAddr) \<Rightarrow> byte option \<Rightarrow> string \<Rightarrow> string \<Rightarrow> 'm world
     \<Rightarrow> ('m world \<times> ('h, 'm, 's) QPartsConn) run" where
  "client_dial env parse opts localAddr remoteAddr w =
     run_bind (of_loop (DialWithOpts env (parse localAddr) (parse remoteAddr) opts w)) (\<lambda>r.
       case r of
         Inl err \<Rightarrow> Fatal_exit (IOError err)
       | Inr (err, w1, conn) \<Rightarrow> unless err (w1, conn))"

definition client_dialled ::
  "('h, 'm, 's) environment \<Rightarrow> 'm world \<times> ('h, 'm, 's) QPartsConn \<Rightarrow> ('m world \<times> ('h, 'm, 's) QPartsConn) run" where
  "client_dialled env wc =
     run_bind (of_loop (Connect_reply env wc)) (\<lambda>(err, dropped, w, conn). unless err (w, conn))"

definition client_open ::
  "('h, 'm, 's) environment \<Rightarrow> u64 \<Rightarrow> ('h, 'm, 's) QPartsConn
     \<Rightarrow> ((PartsStream \<times> QPartsNewStreamPacket) \<times> ('h, 'm, 's) QPartsConn) run" where
  "client_open env rnd conn =
     run_bind (of_loop (OpenStream_request (env_write env) 0 rnd conn)) (\<lambda>(r, conn).
       run_bind (or_fatal r) (\<lambda>request. Done (request, conn)))"

definition client_opened ::
  "('h, 'm, 's) environment \<Rightarrow> PartsStream \<times> QPartsNewStreamPacket \<Rightarrow> ('h, 'm, 's) QPartsConn
     \<Rightarrow> (PartsStream \<times> ('h, 'm, 's) QPartsConn) run" where
  "client_opened env request conn =
     run_bind (of_loop (conn_OpenStream_reply (env_read env) request conn)) (\<lambda>(r, conn).
       run_bind (or_fatal r) (\<lambda>stream. Done (stream, conn)))"

text \<open>\<^verbatim>\<open>Listen\<close>, and \<^verbatim>\<open>Accept\<close> up to its wait for the handshake, up to its reply and to its end.\<close>

definition server_listen ::
  "('h, 'm, 's) environment \<Rightarrow> (string \<Rightarrow> string + ('h, 'm) UDPAddr) \<Rightarrow> byte option \<Rightarrow> string \<Rightarrow> 'm world
     \<Rightarrow> ('m world \<times> ('h, 'm, 's) QPartsConn) run" where
  "server_listen env parse opts localAddr w =
     (case ListenWithOpts (parse localAddr) opts of
        Inl err \<Rightarrow> Fatal_exit (IOError err)
      | Inr listener \<Rightarrow>
          run_bind (of_loop (Listener_Accept env listener w)) (\<lambda>(err, w1, conn, listener). unless err (w1, conn)))"

definition server_handshake ::
  "('h, 'm, 's) environment \<Rightarrow> ('h, 'm, 's) QPartsConn \<Rightarrow> ('h, 'm, 's) QPartsConn run" where
  "server_handshake env conn =
     run_bind (of_loop (cp_ListenAndAccept_handshake env conn)) (\<lambda>(err, conn). unless err conn)"

definition server_race ::
  "('h, 'm, 's) environment \<Rightarrow> 'm world \<times> ('h, 'm, 's) QPartsConn \<Rightarrow> ('m world \<times> ('h, 'm, 's) QPartsConn) run" where
  "server_race env wc = run_bind (of_loop (cp_ListenAndAccept_race env wc)) (\<lambda>(dropped, w, conn). Done (w, conn))"

definition server_accept :: "('h, 'm, 's) QPartsConn \<Rightarrow> (PartsStream \<times> ('h, 'm, 's) QPartsConn) run" where
  "server_accept conn = of_loop (conn_AcceptStream conn)"

text \<open>The options of \<^verbatim>\<open>fileserver\<close> and of \<^verbatim>\<open>pingpong\<close>, and the arguments of \<^verbatim>\<open>pingpong\<close>, which has no file.\<close>

definition fileserver_dial ::
  "('h, 'm, 's) environment \<Rightarrow> (string \<Rightarrow> string + ('h, 'm) UDPAddr) \<Rightarrow> string \<Rightarrow> string \<Rightarrow> 'm world
     \<Rightarrow> ('m world \<times> ('h, 'm, 's) QPartsConn) run" where
  "fileserver_dial env parse = client_dial env parse (Some QPARTS_PATH_SEL_RESPONSIBILITY_SERVER)"

definition fileserver_listen ::
  "('h, 'm, 's) environment \<Rightarrow> (string \<Rightarrow> string + ('h, 'm) UDPAddr) \<Rightarrow> string \<Rightarrow> 'm world
     \<Rightarrow> ('m world \<times> ('h, 'm, 's) QPartsConn) run" where
  "fileserver_listen env parse = server_listen env parse (Some QPARTS_PATH_SEL_RESPONSIBILITY_SERVER)"

definition pingpong_dial ::
  "('h, 'm, 's) environment \<Rightarrow> (string \<Rightarrow> string + ('h, 'm) UDPAddr) \<Rightarrow> string \<Rightarrow> string \<Rightarrow> 'm world
     \<Rightarrow> ('m world \<times> ('h, 'm, 's) QPartsConn) run" where
  "pingpong_dial env parse = client_dial env parse None"

definition pingpong_listen ::
  "('h, 'm, 's) environment \<Rightarrow> (string \<Rightarrow> string + ('h, 'm) UDPAddr) \<Rightarrow> string \<Rightarrow> 'm world
     \<Rightarrow> ('m world \<times> ('h, 'm, 's) QPartsConn) run" where
  "pingpong_listen env parse = server_listen env parse None"

datatype pingpong_role = Ponger string | Pinger string string

definition pingpong_arguments :: "string list \<Rightarrow> pingpong_role go" where
  "pingpong_arguments args =
     go_bind (go_index args 1) (\<lambda>mode.
     go_bind (go_index args 2) (\<lambda>localAddr.
       if mode = ''server'' then Inr (Ponger localAddr)
       else go_bind (go_index args 3) (\<lambda>remoteAddr. Inr (Pinger localAddr remoteAddr))))"

section \<open>A session\<close>

text \<open>The network carries what one host has written to its control stream after the first \<open>n\<close> bytes.\<close>

definition ctl_carry ::
  "('s \<Rightarrow> byte list) \<Rightarrow> ('t \<Rightarrow> byte list \<Rightarrow> 't) \<Rightarrow> nat \<Rightarrow> ('h, 'm, 's) QPartsConn \<Rightarrow> ('h, 'm, 't) QPartsConn
     \<Rightarrow> ('h, 'm, 't) QPartsConn" where
  "ctl_carry sent feed n a b =
     (case control_stream b of
        None \<Rightarrow> b
      | Some t \<Rightarrow> set_control_stream (feed t (drop n (control_sent sent a))) b)"

text \<open>Both programs from the start to the stream, with the waits in the order in which they end; \<open>rnd\<close> is the id
  of the stream.\<close>

definition session ::
  "('h, 'm, 's) environment \<Rightarrow> ('h, 'm, 't) environment \<Rightarrow> ('s \<Rightarrow> byte list) \<Rightarrow> ('s \<Rightarrow> byte list \<Rightarrow> 's)
     \<Rightarrow> ('t \<Rightarrow> byte list) \<Rightarrow> ('t \<Rightarrow> byte list \<Rightarrow> 't) \<Rightarrow> (string \<Rightarrow> string + ('h, 'm) UDPAddr) \<Rightarrow> byte option
     \<Rightarrow> string \<Rightarrow> string \<Rightarrow> u64 \<Rightarrow> 'm world \<Rightarrow> 'm world
     \<Rightarrow> ((PartsStream \<times> ('h, 'm, 's) QPartsConn) \<times> (PartsStream \<times> ('h, 'm, 't) QPartsConn)) run" where
  "session env env' sent feed sent' feed' parse opts localAddr remoteAddr rnd w w' =
     run_bind (server_listen env' parse opts remoteAddr w') (\<lambda>(w'1, b1).
     run_bind (client_dial env parse opts localAddr remoteAddr w) (\<lambda>(w1, a1).
     run_bind (server_handshake env' (ctl_carry sent feed' 0 a1 b1)) (\<lambda>b2.
     run_bind (server_race env' (w'1, b2)) (\<lambda>(w'2, b3).
     run_bind (client_dialled env (w1, ctl_carry sent' feed 0 b2 a1)) (\<lambda>(w2, a2).
     run_bind (client_open env rnd a2) (\<lambda>(request, a3).
     run_bind (of_loop (cp_readLoop (env_read env') (env_write env')
         (ctl_carry sent feed' (length (control_sent sent a2)) a3 b3))) (\<lambda>b4.
     run_bind (server_accept b4) (\<lambda>(s', b5).
     run_bind (client_opened env request (ctl_carry sent' feed (length (control_sent sent' b3)) b4 a3)) (\<lambda>(s, a4).
       Done ((s, a4), (s', b5)))))))))))"

section \<open>The phases succeed\<close>

lemma client_dial_ok:
  fixes env :: "('h, 'm, 's) environment"
  assumes "duplex (env_read env) (env_write env) pend sent" "parse l = Inr local" "parse r = Inr remote"
    and "connectable env remote [] s0 w (NewQPartsConn local)"
  obtains w1 a s where "client_dial env parse opts l r w = Done (w1, a)" "control_stream a = Some s"
    "sent s = sent s0 @ hs_wire (handshake (env_rand env) 31500 31510 0)" "pend s = pend s0"
    "cp_initialPathSelection (conn_ControlPlane a) = []" "conn_Dataplane a = NewQPartsDataplane Map.empty"
    "cp_NewStreamChan (conn_ControlPlane a) = None"
proof -
  let ?c = "upd_cp (\<lambda>cp. cp\<lparr>cp_dialOpts := opts\<rparr>) (NewQPartsConn local) :: ('h, 'm, 's) QPartsConn"
  have "connectable env remote [] s0 w ?c" using assms(4) by (simp add: connectable_def)
  from Connect_request_ok [OF assms(1) this] obtain w1 a s where a:
    "Connect_request env remote (w, ?c) = Goes (None, w1, a)" "control_stream a = Some s"
    "sent s = sent s0 @ hs_wire (handshake (env_rand env) 31500 31510 (of_nat (length ([] :: 'm QPartsPath list))))" "pend s = pend s0"
    "cp_initialPathSelection (conn_ControlPlane a) = []" "conn_Dataplane a = conn_Dataplane ?c"
    "cp_NewStreamChan (conn_ControlPlane a) = cp_NewStreamChan (conn_ControlPlane ?c)" by metis
  have "client_dial env parse opts l r w = Done (w1, a)"
    using a(1) assms(2,3) by (simp add: client_dial_def DialWithOpts_def conn_DialAndOpen_def)
  then show thesis using a(2-7) by (intro that [of w1 a s]) (simp_all add: NewQPartsConn_def NewQPartsControlPlane_def)
qed

lemma client_dialled_ok:
  assumes "duplex (env_read env) (env_write env) pend sent" "control_stream a = Some s" "pend s = hs_wire p"
    and "cp_initialPathSelection (conn_ControlPlane a) = []"
  obtains w2 a2 s2 where "client_dialled env (w, a) = Done (w2, a2)" "control_stream a2 = Some s2" "pend s2 = []" "sent s2 = sent s"
    "conn_Dataplane a2 = conn_Dataplane a" "cp_NewStreamChan (conn_ControlPlane a2) = cp_NewStreamChan (conn_ControlPlane a)"
proof -
  have p: "pend s = hs_wire p @ []" using assms(3) by simp
  let ?a2 = "\<lambda>s2. upd_cp (\<lambda>cp. cp\<lparr>cp_remoteHandshake := Some (p\<lparr>hs_Data := hs_wire p\<rparr>)\<rparr>) (set_control_stream s2 a)"
  obtain s2 where s2: "read_handshake env a = Goes (None, ?a2 s2)" "pend s2 = []" "sent s2 = sent s"
    by (rule read_handshake_ok [OF assms(1,2) p])
  have "client_dialled env (w, a) = Done (w\<lparr>w_silencer := w_silencer w\<rparr>, ?a2 s2)"
    using s2(1) assms(4)
    by (simp add: client_dialled_def Connect_reply_def Let_def RaceDialDataplaneStreams_def RaceListenDataplaneStreams_def race_end_def
        set_control_stream_rest)
  from that [OF this, of s2] s2(2,3) show thesis by (simp add: set_control_stream_rest)
qed

lemma server_listen_ok:
  assumes "parse l = Inr local" "listen_error (env_open env) = None" "r_stream (env_open env) = Inr s0"
    and "w_silencer w = silenced wr n" "n + 1 < 2 ^ 31"
  obtains b where "server_listen env parse opts l w = Done (w, b)" "control_stream b = Some s0"
    "cp_listenOpts (conn_ControlPlane b) = opts" "cp_Scheduler (conn_ControlPlane b) = NewScheduler"
    "cp_NewStreamChan (conn_ControlPlane b) = None" "conn_Dataplane b = NewQPartsDataplane Map.empty"
proof -
  have r: "r_optconn (env_open env) = None" "r_tls (env_open env) = None" "r_quic (env_open env) = None"
    "r_accept (env_open env) = None" using assms(2) by (auto simp: listen_error_def split: option.splits)
  let ?b = "upd_cp (\<lambda>cp. cp\<lparr>cp_listenOpts := opts, cp_ControlConn := (NewSingleStreamQUICConn\<lparr>ssqc_local := Some local,
      ssqc_stream := Some s0, ssqc_listener := True\<rparr>)\<rparr>) (NewQPartsConn local)"
  have "server_listen env parse opts l w = Done (w, ?b)"
    using silenceLog_silenced [OF assms(5), of wr] unsilenceLog_silenced [OF assms(5), of wr] r assms(1,3,4)
    by (simp add: server_listen_def ListenWithOpts_def NewQPartsListener_def Listener_Accept_def conn_ListenAndAccept_def
        cp_ListenAndAccept_open_def ListenAndAccept_def Let_def NewQPartsConn_def NewQPartsControlPlane_def)
  then show thesis by (rule that) (simp_all add: control_stream_def NewQPartsConn_def NewQPartsControlPlane_def)
qed

lemma server_handshake_ok:
  assumes "duplex (env_read env) (env_write env) pend sent" "control_stream b = Some s" "pend s = hs_wire p"
  obtains b2 s2 where "server_handshake env b = Done b2" "control_stream b2 = Some s2" "pend s2 = []"
    "sent s2 = sent s @ hs_wire (handshake (env_rand env) 31600 31610 0)" "conn_Dataplane b2 = conn_Dataplane b"
    "cp_remoteHandshake (conn_ControlPlane b2) = Some (p\<lparr>hs_Data := hs_wire p\<rparr>)"
    "cp_listenOpts (conn_ControlPlane b2) = cp_listenOpts (conn_ControlPlane b)"
    "cp_Scheduler (conn_ControlPlane b2) = cp_Scheduler (conn_ControlPlane b)"
    "cp_NewStreamChan (conn_ControlPlane b2) = cp_NewStreamChan (conn_ControlPlane b)"
proof -
  obtain c2 s2 where c: "cp_ListenAndAccept_handshake env b = Goes (None, c2)" "control_stream c2 = Some s2" "pend s2 = []"
    "sent s2 = sent s @ hs_wire (handshake (env_rand env) 31600 31610 0)" "conn_Dataplane c2 = conn_Dataplane b"
    "cp_remoteHandshake (conn_ControlPlane c2) = Some (p\<lparr>hs_Data := hs_wire p\<rparr>)"
    "cp_listenOpts (conn_ControlPlane c2) = cp_listenOpts (conn_ControlPlane b)"
    "cp_Scheduler (conn_ControlPlane c2) = cp_Scheduler (conn_ControlPlane b)"
    "cp_NewStreamChan (conn_ControlPlane c2) = cp_NewStreamChan (conn_ControlPlane b)"
    by (rule ListenAndAccept_handshake_ok [OF assms])
  have "server_handshake env b = Done c2" using c(1) by (simp add: server_handshake_def)
  from that [OF this c(2-9)] show thesis .
qed

lemma server_race_ok:
  assumes "cp_remoteHandshake (conn_ControlPlane b) = Some hs" "hs_NumStreams hs = 0"
    and "cp_Scheduler (conn_ControlPlane b) = NewScheduler"
    and "ActivePaths (env_range env) (env_text env (env_peer env)) (w_State w) = Inr []"
  obtains w2 b2 where "server_race env (w, b) = Done (w2, b2)" "control_stream b2 = control_stream b"
    "cp_NewStreamChan (conn_ControlPlane b2) = cp_NewStreamChan (conn_ControlPlane b)" "conn_Dataplane b2 = conn_Dataplane b"
proof (cases "cp_listenOpts (conn_ControlPlane b) = Some QPARTS_PATH_SEL_RESPONSIBILITY_SERVER")
  case True
  let ?b2 = "upd_cp (\<lambda>cp. cp\<lparr>cp_initialPathSelection := []\<rparr>) b"
  have "server_race env (w, b) = Done (w\<lparr>w_State := w_State w, w_silencer := w_silencer w\<rparr>, ?b2)"
    using True assms(3,4)
    by (simp add: server_race_def cp_ListenAndAccept_race_def Let_def first_scheduler RaceDialDataplaneStreams_def race_end_def)
  then show thesis by (rule that) (simp_all add: control_stream_def)
next
  case False
  then have "server_race env (w, b) = Done (w\<lparr>w_silencer := w_silencer w\<rparr>, b)"
    using assms(1,2)
    by (simp add: server_race_def cp_ListenAndAccept_race_def Let_def RaceListenDataplaneStreams_def race_end_def)
  then show thesis by (rule that) simp_all
qed

text \<open>A stream as both sides of the control connection have it: what arrives can be read, and does not change
  what was sent.\<close>

definition duplex_feeds :: "('t \<Rightarrow> byte list \<Rightarrow> 't) \<Rightarrow> ('t \<Rightarrow> byte list) \<Rightarrow> ('t \<Rightarrow> byte list) \<Rightarrow> bool" where
  "duplex_feeds feed pend sent \<longleftrightarrow> (\<forall>s bs. pend (feed s bs) = pend s @ bs \<and> sent (feed s bs) = sent s)"

lemma ctl_carry_ok:
  assumes "duplex_feeds feed pend' sent'" "control_stream b = Some t" "drop n (control_sent sent a) = bs"
  obtains t' where "ctl_carry sent feed n a b = set_control_stream t' b" "pend' t' = pend' t @ bs" "sent' t' = sent' t"
  using assms by (intro that [of "feed t bs"]) (simp_all add: ctl_carry_def duplex_feeds_def)

lemma open_ok_phases:
  fixes a :: "('h, 'm, 's) QPartsConn" and b :: "('h, 'm, 't) QPartsConn"
  assumes "duplex (env_read env) (env_write env) pend sent" "duplex (env_read env') (env_write env') pend' sent'"
    and "duplex_feeds feed pend sent" "duplex_feeds feed' pend' sent'"
    and "control_ready pend a" "control_ready pend' b"
  obtains req a1 b1 s' b2 s a2 where "client_open env rnd a = Done (req, a1)"
    "cp_readLoop (env_read env') (env_write env') (ctl_carry sent feed' (length (control_sent sent a)) a1 b) = Goes b1"
    "server_accept b1 = Done (s', b2)" "client_opened env req (ctl_carry sent' feed (length (control_sent sent' b)) b1 a1) = Done (s, a2)"
    "s = new_stream rnd 0" "s' = new_stream rnd 0"
    "dpl_Streams (conn_Dataplane a2) = dpl_Streams (conn_Dataplane a)" "dpl_Streams (conn_Dataplane b2) = dpl_Streams (conn_Dataplane b)"
proof -
  let ?bs = "wire PARTS_MSG_STREAM_HS rnd 0" and ?s = "new_stream rnd 0"
  let ?p = "(hs_packet PARTS_MSG_STREAM_HS rnd 0)\<lparr>ns_Data := ?bs\<rparr>"
  from assms(5) obtain s0 where s0: "control_stream a = Some s0" "pend s0 = []" by (auto simp: control_ready_def)
  from assms(6) obtain t0 where t0: "control_stream b = Some t0" "pend' t0 = []" "cp_NewStreamChan (conn_ControlPlane b) = None"
    by (auto simp: control_ready_def)
  obtain s1 where s1: "OpenStream_request (env_write env) 0 rnd a = Goes (Inr (?s, ?p), set_control_stream s1 a)"
    "sent s1 = sent s0 @ ?bs" "pend s1 = pend s0" by (rule OpenStream_request_ok [OF assms(1) s0(1)])
  let ?a1 = "set_control_stream s1 a"
  have open1: "client_open env rnd a = Done ((?s, ?p), ?a1)" using s1(1) by (simp add: client_open_def)
  have new: "drop (length (control_sent sent a)) (control_sent sent ?a1) = ?bs" using s1(2) s0(1) by (simp add: control_sent_def)
  obtain t1 where t1: "ctl_carry sent feed' (length (control_sent sent a)) ?a1 b = set_control_stream t1 b"
    "pend' t1 = ?bs @ []" "sent' t1 = sent' t0" by (rule ctl_carry_ok [OF assms(4) t0(1) new]) (simp add: t0(2))
  let ?b = "set_control_stream t1 b"
  have c: "control_stream ?b = Some t1" "cp_NewStreamChan (conn_ControlPlane ?b) = None" by (simp_all add: t0(3))
  obtain t2 where t2: "pend' t2 = []" "sent' t2 = sent' t1 @ ?bs" "cp_readLoop (env_read env') (env_write env') ?b
      = Goes (upd_cp (\<lambda>cp. cp\<lparr>cp_NewStreamChan := Some ?s\<rparr>) (set_control_stream t2 ?b))"
    by (rule cp_readLoop_message [OF assms(2) c t1(2)]) simp_all
  let ?b1 = "upd_cp (\<lambda>cp. cp\<lparr>cp_NewStreamChan := Some ?s\<rparr>) (set_control_stream t2 ?b)"
  have pass: "cp_readLoop (env_read env') (env_write env') (ctl_carry sent feed' (length (control_sent sent a)) ?a1 b) = Goes ?b1"
    unfolding t1(1) by (rule t2(3))
  let ?b2 = "put_stream ?s (upd_cp (\<lambda>cp. cp\<lparr>cp_NewStreamChan := None\<rparr>) ?b1)"
  have accept: "server_accept ?b1 = Done (?s, ?b2)"
    by (simp add: server_accept_def conn_AcceptStream_def AcceptStream_def)
  have "control_stream ?b1 = Some t2" by (simp add: control_stream_def set_control_stream_def)
  then have "drop (length (control_sent sent' b)) (control_sent sent' ?b1) = ?bs"
    using t0(1) t1(3) t2(2) by (simp add: control_sent_def)
  from ctl_carry_ok [OF assms(3) _ this] obtain s2 where s2:
    "ctl_carry sent' feed (length (control_sent sent' b)) ?b1 ?a1 = set_control_stream s2 ?a1" "pend s2 = ?bs @ []"
    using s1(3) s0(2) by (metis append_Nil append_Nil2 control_simps(1))
  have "control_stream (set_control_stream s2 ?a1) = Some s2" by simp
  from reply_ok [OF assms(1) this _ s2(2), of ?p ?s] obtain s3 where
    "conn_OpenStream_reply (env_read env) (?s, ?p) (set_control_stream s2 ?a1)
      = Goes (Inr ?s, put_stream ?s (set_control_stream s3 (set_control_stream s2 ?a1)))" by auto
  then have opened: "client_opened env (?s, ?p) (ctl_carry sent' feed (length (control_sent sent' b)) ?b1 ?a1)
      = Done (?s, put_stream ?s (set_control_stream s3 a))" using s2(1) by (simp add: client_opened_def)
  from that [OF open1 pass accept opened] show thesis by (simp add: put_stream_def)
qed

text \<open>A \<^verbatim>\<open>Write\<close> without data plane streams, whose loops of the scheduler have nothing to visit.\<close>

lemma run_writers_none: "dpl_Streams dp = Map.empty \<Longrightarrow> run_writers wr ks dp = Inr dp"
  by (induction ks) (simp_all add: writeLoop_def)

lemma parts_write_none:
  assumes "dpl_Streams dp = Map.empty" "write_open now s"
  shows "parts_write wr now remote s (dp, ([], [], q, ks) # cs) b = (if length b \<le> 1000 then Crash NilDereference else Waiting)"
proof (cases "length b \<le> 1000")
  case True
  have "idle dp" using assms(1) by (simp add: idle_iff)
  from True no_streams_write [OF assms(2) this, of b q remote] show ?thesis by (simp add: parts_write_def)
next
  case False
  have "idle dp" using assms(1) by (simp add: idle_iff)
  with False no_streams_write [OF assms(2) this, of b q remote wr] obtain A dp1 where
    w: "Stream_Write now b [] [] q remote s dp = Inr (Inr (A, 0, dp1))"
    "\<forall>ks dp2. run_writers wr ks dp1 = Inr dp2 \<longrightarrow> \<not> WriteForStream_returns A dp2" by auto
  have "dpl_Streams dp1 = dpl_Streams dp"
    using w(1) assms(2) False by (auto simp: Stream_Write_def write_open_def ScheduleWrite_def set_remote_def
        splitBytes_def WriteForStream_def cs_alloc_def Let_def)
  then have "run_writers wr ks dp1 = Inr dp1" using assms(1) by (intro run_writers_none) simp
  then show ?thesis using False w by (simp add: parts_write_def)
qed

text \<open>Up to the end of \<^verbatim>\<open>Dial\<close> and \<^verbatim>\<open>Accept\<close>.\<close>

lemma connect_phases:
  fixes env :: "('h, 'm, 's) environment" and env' :: "('h, 'm, 't) environment"
  assumes "duplex (env_read env) (env_write env) pend sent" "duplex (env_read env') (env_write env') pend' sent'"
    and "duplex_feeds feed pend sent" "duplex_feeds feed' pend' sent'"
    and "parse l = Inr local" "parse r = Inr remote"
    and "connectable env remote [] s0 w (NewQPartsConn local)" "pend s0 = []" "sent s0 = []"
    and "listen_error (env_open env') = None" "r_stream (env_open env') = Inr t0" "pend' t0 = []" "sent' t0 = []"
    and "ActivePaths (env_range env') (env_text env' (env_peer env')) (w_State w') = Inr []"
    and "w_silencer w' = silenced wr n" "n + 1 < 2 ^ 31"
  obtains b1 w1 a1 b2 w'2 b3 w2 a2 where "server_listen env' parse opts r w' = Done (w', b1)"
    "client_dial env parse opts l r w = Done (w1, a1)" "server_handshake env' (ctl_carry sent feed' 0 a1 b1) = Done b2"
    "server_race env' (w', b2) = Done (w'2, b3)" "client_dialled env (w1, ctl_carry sent' feed 0 b2 a1) = Done (w2, a2)"
    "control_ready pend a2" "control_ready pend' b3" "dpl_Streams (conn_Dataplane a2) = Map.empty"
proof -
  let ?none = "NewQPartsDataplane Map.empty"
  obtain b1 where b1: "server_listen env' parse opts r w' = Done (w', b1)" "control_stream b1 = Some t0"
    "cp_Scheduler (conn_ControlPlane b1) = NewScheduler" "cp_NewStreamChan (conn_ControlPlane b1) = None"
    "conn_Dataplane b1 = ?none" by (rule server_listen_ok [where parse = parse and l = r and opts = opts, OF assms(6,10,11,15,16)])
  obtain w1 a1 s1 where a1: "client_dial env parse opts l r w = Done (w1, a1)" "control_stream a1 = Some s1"
    "sent s1 = sent s0 @ hs_wire (handshake (env_rand env) 31500 31510 0)" "pend s1 = pend s0"
    "cp_initialPathSelection (conn_ControlPlane a1) = []" "conn_Dataplane a1 = ?none"
    "cp_NewStreamChan (conn_ControlPlane a1) = None" by (rule client_dial_ok [where parse = parse and l = l and r = r and opts = opts, OF assms(1,5,6,7)])
  let ?hs = "handshake (env_rand env) 31500 31510 0" and ?hs' = "handshake (env_rand env') 31600 31610 0"
  have "drop 0 (control_sent sent a1) = hs_wire ?hs" using a1(2,3) assms(9) by (simp add: control_sent_def)
  then obtain t1 where t1: "ctl_carry sent feed' 0 a1 b1 = set_control_stream t1 b1" "pend' t1 = hs_wire ?hs" "sent' t1 = sent' t0"
    using ctl_carry_ok [OF assms(4) b1(2)] assms(12) by (metis append_Nil)
  have t1s: "control_stream (set_control_stream t1 b1) = Some t1" by simp
  obtain b2 t2 where b2: "server_handshake env' (set_control_stream t1 b1) = Done b2" "control_stream b2 = Some t2" "pend' t2 = []"
    "sent' t2 = sent' t1 @ hs_wire ?hs'" "conn_Dataplane b2 = conn_Dataplane (set_control_stream t1 b1)"
    "cp_remoteHandshake (conn_ControlPlane b2) = Some (?hs\<lparr>hs_Data := hs_wire ?hs\<rparr>)"
    "cp_Scheduler (conn_ControlPlane b2) = cp_Scheduler (conn_ControlPlane (set_control_stream t1 b1))"
    "cp_NewStreamChan (conn_ControlPlane b2) = cp_NewStreamChan (conn_ControlPlane (set_control_stream t1 b1))"
    by (rule server_handshake_ok [OF assms(2) t1s t1(2)])
  have sched: "cp_Scheduler (conn_ControlPlane b2) = NewScheduler" using b2(7) b1(3) by (simp add: set_control_stream_def)
  have "hs_NumStreams (?hs\<lparr>hs_Data := hs_wire ?hs\<rparr>) = 0" by (simp add: handshake_def)
  then obtain w'2 b3 where b3: "server_race env' (w', b2) = Done (w'2, b3)" "control_stream b3 = control_stream b2"
    "cp_NewStreamChan (conn_ControlPlane b3) = cp_NewStreamChan (conn_ControlPlane b2)" "conn_Dataplane b3 = conn_Dataplane b2"
    by (rule server_race_ok [OF b2(6) _ sched assms(14)])
  have "drop 0 (control_sent sent' b2) = hs_wire ?hs'" using b2(2,4) t1(3) assms(13) by (simp add: control_sent_def)
  then obtain s2 where s2: "ctl_carry sent' feed 0 b2 a1 = set_control_stream s2 a1" "pend s2 = hs_wire ?hs'"
    using ctl_carry_ok [OF assms(3) a1(2)] a1(4) assms(8) by (metis append_Nil)
  have s2s: "control_stream (set_control_stream s2 a1) = Some s2"
    "cp_initialPathSelection (conn_ControlPlane (set_control_stream s2 a1)) = []" using a1(5) by (simp_all add: set_control_stream_rest)
  obtain w2 a2 s3 where a2: "client_dialled env (w1, set_control_stream s2 a1) = Done (w2, a2)" "control_stream a2 = Some s3"
    "pend s3 = []" "conn_Dataplane a2 = conn_Dataplane (set_control_stream s2 a1)"
    "cp_NewStreamChan (conn_ControlPlane a2) = cp_NewStreamChan (conn_ControlPlane (set_control_stream s2 a1))"
    by (rule client_dialled_ok [OF assms(1) s2s(1) s2(2) s2s(2)])
  have ready: "control_ready pend a2" "control_ready pend' b3"
    using a2 a1(7) b2(2,3,8) b3(2,3) b1(4) by (simp_all add: control_ready_def)
  have "dpl_Streams (conn_Dataplane a2) = Map.empty" using a2(4) a1(6) by (simp add: NewQPartsDataplane_def)
  from that [OF b1(1) a1(1) b2(1) [folded t1(1)] b3(1) a2(1) [folded s2(1)] ready this] show thesis .
qed

section \<open>Whole sessions\<close>


text \<open>Two hosts without an active path, with streams in memory.\<close>

definition idle_env :: "(string, nat, byte list \<times> byte list) environment" where
  "idle_env = example_env\<lparr>env_range := []\<rparr>"

definition idle_world :: "nat world" where
  "idle_world = example_world\<lparr>w_State := init_State\<rparr>"

definition pair_feed :: "byte list \<times> byte list \<Rightarrow> byte list \<Rightarrow> byte list \<times> byte list" where
  "pair_feed s bs = (fst s @ bs, snd s)"


end
