(* ===== verification/Application.thy ===== *)
theory Application
  imports Connection
begin

text \<open>
  Concurrent calls of \<^verbatim>\<open>PartsStream.Write\<close>: what the scheduler makes of the data of each call enters the
  data path of \<open>Connection\<close>, and comes out at the peer as the data of whole calls.
\<close>

section \<open>Calls of Write\<close>

text \<open>The stream, the time of the call, the data, the orders of the two \<^verbatim>\<open>range\<close> loops of the scheduler, the
  random number of the sequence and the remote address of the connection.\<close>

record 'addr write_call =
  wc_stream :: PartsStream
  wc_now :: int
  wc_data :: "byte list"
  wc_order1 :: "u64 list"
  wc_order2 :: "u64 list"
  wc_rnd :: u64
  wc_remote :: "'addr option"

abbreviation wc_sid :: "'addr write_call \<Rightarrow> u64" where
  "wc_sid w \<equiv> ps_Id (wc_stream w)"

text \<open>\<^verbatim>\<open>Write\<close> up to the point where \<^verbatim>\<open>WriteForStream\<close> has made its completion; what follows is the cut
  call of \<open>Writers\<close>.\<close>

definition Write_enters :: "'addr write_call \<Rightarrow> (string + 'addr sender_action) go" where
  "Write_enters w =
     (if ps_deadlineSet (wc_stream w) \<and> ps_writeDeadline (wc_stream w) \<noteq> 0
         \<and> ps_writeDeadline (wc_stream w) < wc_now w
      then Inr (Inl ''write timeout'')
      else
        go_bind (ScheduleWrite (wc_data w) (wc_order1 w) (wc_order2 w)) (\<lambda>assignments.
        Inr (Inr (Enters (wc_sid w) (wc_rnd w) (Assignments (set_remote (wc_remote w) assignments))))))"

lemma decision_update: "(d :: 'addr SchedulingDecision)\<lparr>Assignments := x\<rparr> = \<lparr>Assignments = x\<rparr>"
  by (cases d) simp

text \<open>Entering and adding all parts without steps of others in between is \<open>Stream_Write\<close>.\<close>

lemma Write_enters_cut:
  "Stream_Write (wc_now w) (wc_data w) (wc_order1 w) (wc_order2 w) (wc_rnd w) (wc_remote w) (wc_stream w) dp
    = go_bind (Write_enters w) (\<lambda>r. case r of
        Inr (Enters sid rnd das) \<Rightarrow> go_bind (WriteForStream \<lparr>Assignments = das\<rparr> sid rnd dp) (\<lambda>r. Inr (Inr r))
      | Inl e \<Rightarrow> Inr (Inl e))"
  by (auto simp: Stream_Write_def Write_enters_def set_remote_def decision_update go_bind_def split: sum.split)

datatype 'addr app_event = Calls "'addr write_call" | Steps "'addr event"

fun app_step ::
  "'s qwrite \<Rightarrow> 't qread \<Rightarrow> ('s \<Rightarrow> byte list) \<Rightarrow> ('t \<Rightarrow> byte list \<Rightarrow> 't) \<Rightarrow> (u64 \<Rightarrow> u64) \<Rightarrow> 'addr app_event
     \<Rightarrow> ('addr, 'path, 's, 't) connection \<Rightarrow> ('addr, 'path, 's, 't) connection go" where
  "app_step wr rd sent feed peer (Calls w) c =
     go_bind (Write_enters w) (\<lambda>r. case r of
       Inl e \<Rightarrow> Inr c
     | Inr x \<Rightarrow> event_step wr rd sent feed peer (Writes x) c)"
| "app_step wr rd sent feed peer (Steps e) c = event_step wr rd sent feed peer e c"

fun run_app ::
  "'s qwrite \<Rightarrow> 't qread \<Rightarrow> ('s \<Rightarrow> byte list) \<Rightarrow> ('t \<Rightarrow> byte list \<Rightarrow> 't) \<Rightarrow> (u64 \<Rightarrow> u64) \<Rightarrow> 'addr app_event list
     \<Rightarrow> ('addr, 'path, 's, 't) connection \<Rightarrow> ('addr, 'path, 's, 't) connection go" where
  "run_app wr rd sent feed peer [] c = Inr c"
| "run_app wr rd sent feed peer (e # es) c =
     go_bind (app_step wr rd sent feed peer e c) (run_app wr rd sent feed peer es)"

section \<open>Calls as traffic\<close>

definition scheduled :: "'addr write_call \<Rightarrow> 'addr DataAssignment list" where
  "scheduled w = (case ScheduleWrite (wc_data w) (wc_order1 w) (wc_order2 w) of
     Inl _ \<Rightarrow> [] | Inr d \<Rightarrow> Assignments (set_remote (wc_remote w) d))"

abbreviation opened :: "'addr write_call \<Rightarrow> bool" where
  "opened w \<equiv> write_open (wc_now w) (wc_stream w)"

text \<open>The calls that do not time out.\<close>

fun calls_of :: "'addr app_event list \<Rightarrow> 'addr write_call list" where
  "calls_of [] = []"
| "calls_of (Calls w # es) = (if opened w then w # calls_of es else calls_of es)"
| "calls_of (Steps e # es) = calls_of es"

fun events_of :: "'addr app_event list \<Rightarrow> 'addr event list" where
  "events_of [] = []"
| "events_of (Calls w # es) =
     (if opened w then Writes (Enters (wc_sid w) (wc_rnd w) (scheduled w)) # events_of es else events_of es)"
| "events_of (Steps e # es) = e # events_of es"

definition traffic_of :: "'addr write_call list \<Rightarrow> traffic" where
  "traffic_of ws = map_of (map (\<lambda>w. (wc_rnd w, (wc_sid w, map da_Data (scheduled w)))) ws)"

fun step_ok :: "u64 set \<Rightarrow> 'addr event \<Rightarrow> bool" where
  "step_ok K (Writes (Enters sid rnd das)) = False"
| "step_ok K (Writes x) = True"
| "step_ok K (Carries k n) = True"
| "step_ok K (Receives k) = (k \<in> K)"

definition write_ok :: "u64 set \<Rightarrow> 'addr write_call \<Rightarrow> bool" where
  "write_ok K w \<longleftrightarrow> splittable (wc_data w) K \<and> visits (wc_order1 w) K \<and> visits (wc_order2 w) K"

definition app_ok :: "u64 set \<Rightarrow> 'addr app_event list \<Rightarrow> bool" where
  "app_ok K es \<longleftrightarrow> distinct (map wc_rnd (calls_of es)) \<and> (\<forall>w \<in> set (calls_of es). write_ok K w)
     \<and> (\<forall>e. Steps e \<in> set es \<longrightarrow> step_ok K e)"

lemma scheduled_ok:
  assumes "write_ok K w" "finite K"
  shows "\<exists>d. ScheduleWrite (wc_data w) (wc_order1 w) (wc_order2 w) = Inr d
       \<and> scheduled w = Assignments (set_remote (wc_remote w) d)"
    "sendable (map da_Data (scheduled w))" "placed (scheduled w) K" "concat (map da_Data (scheduled w)) = wc_data w"
    "length (scheduled w) \<le> 5 * card K"
proof -
  note ok = assms(1) [unfolded write_ok_def]
  obtain das :: "'a DataAssignment list" where das:
    "ScheduleWrite (wc_data w) (wc_order1 w) (wc_order2 w) = Inr \<lparr>Assignments = das\<rparr>"
    "sendable (map da_Data das)" "placed das K" "concat (map da_Data das) = wc_data w"
    using ScheduleWrite_sendable ok by metis
  have s: "scheduled w = map (\<lambda>da. da\<lparr>da_Remote := wc_remote w\<rparr>) das"
    using das(1) by (simp add: scheduled_def set_remote_def)
  show "\<exists>d. ScheduleWrite (wc_data w) (wc_order1 w) (wc_order2 w) = Inr d
       \<and> scheduled w = Assignments (set_remote (wc_remote w) d)"
    using das(1) s by (simp add: set_remote_def)
  show "sendable (map da_Data (scheduled w))" "placed (scheduled w) K" "concat (map da_Data (scheduled w)) = wc_data w"
    using das(2-4) unfolding s by simp_all
  have "length (wc_order2 w) = card K" "0 < card K"
    using ok assms(2) distinct_card [of "wc_order2 w"] by (auto simp: visits_def splittable_def card_gt_0_iff)
  from ScheduleWrite_count [OF das(1) this] show "length (scheduled w) \<le> 5 * card K" unfolding s by simp
qed

text \<open>The run of the application is a run of the data path.\<close>

lemma run_app_events:
  assumes "\<forall>w \<in> set (calls_of es). write_ok K w" "finite K"
  shows "run_app wr rd sent feed peer es c = run_events wr rd sent feed peer (events_of es) c"
  using assms(1)
proof (induction es arbitrary: c rule: calls_of.induct)
  case (2 w es)
  show ?case
  proof (cases "opened w")
    case True
    then obtain d where "ScheduleWrite (wc_data w) (wc_order1 w) (wc_order2 w) = Inr d"
      "scheduled w = Assignments (set_remote (wc_remote w) d)"
      using scheduled_ok(1) [OF _ assms(2), of w] "2.prems" by auto
    then have "Write_enters w = Inr (Inr (Enters (wc_sid w) (wc_rnd w) (scheduled w)))"
      using True by (auto simp: Write_enters_def write_open_def)
    with True 2 show ?thesis by (simp add: go_bind_def del: event_step.simps split: sum.split)
  next
    case False
    then have "Write_enters w = Inr (Inl ''write timeout'')" by (auto simp: Write_enters_def write_open_def)
    with False 2 show ?thesis by simp
  qed
qed (simp_all add: go_bind_def split: sum.split)

lemma entered_events_of:
  "(\<And>e. Steps e \<in> set es \<Longrightarrow> step_ok K e) \<Longrightarrow> entered (writes_of (events_of es)) = map wc_rnd (calls_of es)"
proof (induction es rule: calls_of.induct)
  case (3 e es)
  then have "step_ok K e" "entered (writes_of (events_of es)) = map wc_rnd (calls_of es)" by simp_all
  then show ?case by (cases "(K, e)" rule: step_ok.cases) simp_all
qed simp_all

lemma writes_of_iff: "x \<in> set (writes_of es) \<longleftrightarrow> Writes x \<in> set es"
  by (induction es) (auto simp: writes_of_def split: event.splits)

lemma events_of_iff:
  "e \<in> set (events_of es) \<longleftrightarrow> Steps e \<in> set es
     \<or> (\<exists>w \<in> set (calls_of es). e = Writes (Enters (wc_sid w) (wc_rnd w) (scheduled w)))"
  by (induction es rule: calls_of.induct) auto

lemma traffic_of:
  assumes "distinct (map wc_rnd ws)" "w \<in> set ws"
  shows "traffic_of ws (wc_rnd w) = Some (wc_sid w, map da_Data (scheduled w))"
  unfolding traffic_of_def using assms by (intro map_of_is_SomeI) (auto simp: comp_def)

lemma traffic_of_eq:
  "traffic_of ws q = Some x \<Longrightarrow> \<exists>w \<in> set ws. wc_rnd w = q \<and> x = (wc_sid w, map da_Data (scheduled w))"
  unfolding traffic_of_def using map_of_SomeD by fastforce

lemma dom_traffic_of: "dom (traffic_of ws) = wc_rnd ` set ws"
  by (simp add: traffic_of_def dom_map_of_conv_image_fst image_image)

lemma app_events_ok:
  assumes "app_ok K es" "finite K"
  shows "events_ok (traffic_of (calls_of es)) K (events_of es)"
    "entered (writes_of (events_of es)) = map wc_rnd (calls_of es)"
proof -
  have ok: "distinct (map wc_rnd (calls_of es))" "\<And>w. w \<in> set (calls_of es) \<Longrightarrow> write_ok K w"
    "\<And>e. Steps e \<in> set es \<Longrightarrow> step_ok K e" using assms(1) by (auto simp: app_ok_def)
  show e: "entered (writes_of (events_of es)) = map wc_rnd (calls_of es)" using entered_events_of ok(3) .
  have "traffic_of (calls_of es) rnd = Some (sid, map da_Data das) \<and> sendable (map da_Data das) \<and> placed das K"
    if enters: "Enters sid rnd das \<in> set (writes_of (events_of es))" for sid rnd das
  proof -
    have "\<not> Steps (Writes (Enters sid rnd das)) \<in> set es" using ok(3) [of "Writes (Enters sid rnd das)"] by auto
    then obtain w where "w \<in> set (calls_of es)" "sid = wc_sid w" "rnd = wc_rnd w" "das = scheduled w"
      using enters unfolding writes_of_iff events_of_iff by auto
    then show ?thesis using traffic_of [OF ok(1)] scheduled_ok(2,3) [OF ok(2) assms(2)] by simp
  qed
  moreover have "k \<in> K" if "Receives k \<in> set (events_of es)" for k
    using ok(3) [of "Receives k"] that by (auto simp: events_of_iff)
  ultimately show "events_ok (traffic_of (calls_of es)) K (events_of es)"
    using ok(1) by (simp add: events_ok_def acts_ok_def e)
qed

section \<open>What arrives\<close>

lemma list_of_keys:
  assumes "set qs = f ` set ws" "distinct qs"
  obtains ys where "map f ys = qs" "set ys \<subseteq> set ws" "distinct ys"
proof
  have f: "f (inv_into (set ws) f q) = q" if "q \<in> set qs" for q
    using assms(1) that by (simp add: f_inv_into_f)
  then show "map f (map (inv_into (set ws) f) qs) = qs" by (simp add: map_idI)
  show "set (map (inv_into (set ws) f) qs) \<subseteq> set ws" using assms(1) by (auto intro: inv_into_into)
  show "distinct (map (inv_into (set ws) f) qs)"
    using assms(2) f by (metis \<open>map f (map (inv_into (set ws) f) qs) = qs\<close> distinct_map)
qed

lemma keys_cover:
  assumes "map f ys = qs" "set ys \<subseteq> set ws" "set qs = f ` set ws" "distinct (map f ws)"
  shows "set ys = set ws"
proof
  show "set ws \<subseteq> set ys"
  proof
    fix w assume w: "w \<in> set ws"
    then have "f w \<in> f ` set ys" using assms(1,3) by (metis image_eqI list.set_map)
    then obtain y where "y \<in> set ys" "f w = f y" by blast
    then show "w \<in> set ys" using assms(2,4) w by (metis distinct_map inj_onD subsetD)
  qed
qed (rule assms(2))

text \<open>The peer knows the streams and does not use the numbers of the sequences yet.\<close>

definition peer_ready :: "('addr, 'path, 't) QPartsDataplane \<Rightarrow> 'addr write_call list \<Rightarrow> bool" where
  "peer_ready dp ws \<longleftrightarrow> (\<forall>w \<in> set ws. Completions (dpl_completionStore dp) (wc_rnd w) = None
     \<and> dpl_QPartsStreams dp (wc_sid w) \<noteq> None)"

lemma fresh_traffic:
  assumes "fresh_connection sent pend peer Map.empty c" "app_ok (dom (dpl_Streams (co_dp c))) es"
    and "peer_ready (co_peer c) (calls_of es)"
  shows "fresh_connection sent pend peer (traffic_of (calls_of es)) c"
proof -
  let ?K = "dom (dpl_Streams (co_dp c))" and ?M = "traffic_of (calls_of es)"
  have fin: "finite ?K" using assms(1) by (simp add: fresh_connection_def)
  have "sendable parts \<and> dpl_QPartsStreams (co_peer c) sid \<noteq> None" if M: "?M q = Some (sid, parts)" for q sid parts
  proof -
    obtain w where "w \<in> set (calls_of es)" "sid = wc_sid w" "parts = map da_Data (scheduled w)"
      using traffic_of_eq [OF M] by auto
    moreover from this(1) have "write_ok ?K w" using assms(2) unfolding app_ok_def by blast
    from scheduled_ok(2) [OF this fin] have "sendable (map da_Data (scheduled w))" .
    ultimately show ?thesis using assms(3) unfolding peer_ready_def by blast
  qed
  then have "traffic_ok ?M (dpl_QPartsStreams (co_peer c))" unfolding traffic_ok_def by blast
  moreover have "\<forall>q \<in> dom ?M. Completions (dpl_completionStore (co_peer c)) q = None"
    using assms(3) by (simp add: dom_traffic_of peer_ready_def)
  ultimately show ?thesis using assms(1) unfolding fresh_connection_def by blast
qed

text \<open>A call has at most five parts for each stream.\<close>

lemma parts_bound:
  assumes "senders_inv sent (traffic_of ws) K Z F dp calls" "\<And>w. w \<in> set ws \<Longrightarrow> write_ok K w"
  shows "sum_list (map (length \<circ> ca_parts) calls) \<le> 5 * card K * length calls"
proof -
  note inv = senders_invD [OF assms(1)]
  have "length (ca_parts d) \<le> 5 * card K" if d: "d \<in> set calls" for d
  proof -
    obtain n where "n < length calls" "d = calls ! n" using d by (metis in_set_conv_nth)
    then have "traffic_of ws (ca_seq d) = Some (ca_sid d, ca_data d)" using inv(3) by (simp add: calls_ok_def call_ok_def)
    then obtain w where "w \<in> set ws" "ca_data d = map da_Data (scheduled w)" using traffic_of_eq by blast
    then show ?thesis using scheduled_ok(5) [OF assms(2) inv(1)] by (metis length_map)
  qed
  then have "sum_list (map (length \<circ> ca_parts) calls) \<le> sum_list (map (\<lambda>_. 5 * card K) calls)"
    by (intro sum_list_mono) simp
  then show ?thesis by (simp add: sum_list_triv mult.commute)
qed

text \<open>What the traffic says of a call.\<close>

lemma traffic_of_call:
  assumes "distinct (map wc_rnd ws)" "w \<in> set ws" "write_ok K w" "finite K"
  shows "payload (traffic_of ws) (wc_rnd w) = wc_data w" "is_for (traffic_of ws) sid (wc_rnd w) \<longleftrightarrow> wc_sid w = sid"
  using traffic_of [OF assms(1,2)] scheduled_ok(4) [OF assms(3,4)] by (simp_all add: payload_def is_for_def)

text \<open>The calls have returned and what they sent has been carried to the peer.\<close>

definition all_sent_on :: "('s \<Rightarrow> byte list) \<Rightarrow> ('addr, 'path, 's, 't) connection \<Rightarrow> bool" where
  "all_sent_on sent c \<longleftrightarrow> (\<forall>d \<in> set (co_calls c). WriteForStream_returns (ca_obj d) (co_dp c))
     \<and> (\<forall>k st. dpl_Streams (co_dp c) k = Some st \<longrightarrow> co_carried c k = length (sent (ds_ssqc st)))"

text \<open>C2: Concurrent calls of \<^verbatim>\<open>PartsStream.Write\<close> arrive: any number of calls, on any streams of the connection
  and with the assignments that the scheduler makes of their data, interleaved with each other, the write
  loops, the transport and the peer's read loops in any way.  Nothing panics, and a call after its
  deadline changes nothing.  When all calls have returned and the bytes have been carried, any schedule of
  the peer's read loops that gives each ten turns per call and stream extends every read buffer by the
  data of all calls on this stream, each once, as a whole and in some order, and by nothing else.\<close>

theorem writes_arrive:
  fixes c :: "('addr, 'path, 's, 't) connection"
  assumes "stream_accepts wr sent" "stream_delivers rd pend" "stream_blocks rd pend" "stream_feeds feed pend"
    and "fresh_connection sent pend peer Map.empty c" "app_ok (dom (dpl_Streams (co_dp c))) es"
    and "peer_ready (co_peer c) (calls_of es)"
  shows "\<exists>c'. run_app wr rd sent feed peer es c = Inr c' \<and>
    (\<forall>rs. all_sent_on sent c' \<and> turns (10 * card (dom (dpl_Streams (co_dp c))) * length (calls_of es)) (dom (dpl_Streams (co_dp c))) rs \<longrightarrow>
      (\<exists>c'' order. run_events wr rd sent feed peer (map Receives rs) c' = Inr c'' \<and> distinct order \<and> set order = set (calls_of es)
        \<and> (\<forall>sid s. dpl_QPartsStreams (co_peer c) sid = Some s \<longrightarrow> (\<exists>s'. dpl_QPartsStreams (co_peer c'') sid = Some s' \<and>
             pb_buffer (ps_ReadBuffer s') = pb_buffer (ps_ReadBuffer s) @ concat (map wc_data (filter (\<lambda>w. wc_sid w = sid) order))))))"
proof -
  let ?K = "dom (dpl_Streams (co_dp c))" and ?ws = "calls_of es"
  let ?M = "traffic_of ?ws" and ?es = "events_of es"
  have fin: "finite ?K" using assms(5) by (simp add: fresh_connection_def)
  have ok: "distinct (map wc_rnd ?ws)" "\<And>w. w \<in> set ?ws \<Longrightarrow> write_ok ?K w" using assms(6) by (simp_all add: app_ok_def)
  note fresh = fresh_traffic [OF assms(5-7)] and ev = app_events_ok [OF assms(6) fin]
  have dom: "dom ?M = set (entered (writes_of ?es))" unfolding ev(2) by (simp add: dom_traffic_of)
  obtain c' F G R where run: "run_events wr rd sent feed peer ?es c = Inr c'"
    and inv: "connection_inv sent pend peer ?M ?K (\<lambda>k. sent (ds_ssqc (the (dpl_Streams (co_dp c) k)))) F G R c'"
    and seqs: "map ca_seq (co_calls c') = entered (writes_of ?es)"
    by (rule fresh_run [OF assms(1-4) fresh ev(1)])
  have len: "length (co_calls c') = length ?ws" using seqs unfolding ev(2) by (metis length_map)
  have bound: "2 * sum_list (map (length \<circ> ca_parts) (co_calls c')) \<le> 10 * card ?K * length ?ws"
    using parts_bound [OF connection_invD(2) [OF inv] ok(2)] unfolding len mult.assoc by linarith
  have app: "run_app wr rd sent feed peer es c = Inr c'" using run_app_events [OF _ fin] ok(2) run by metis
  have "\<exists>c'' order. run_events wr rd sent feed peer (map Receives rs) c' = Inr c'' \<and> distinct order \<and> set order = set ?ws
      \<and> (\<forall>sid s. dpl_QPartsStreams (co_peer c) sid = Some s \<longrightarrow> (\<exists>s'. dpl_QPartsStreams (co_peer c'') sid = Some s' \<and>
           pb_buffer (ps_ReadBuffer s') = pb_buffer (ps_ReadBuffer s) @ concat (map wc_data (filter (\<lambda>w. wc_sid w = sid) order))))"
    if rs: "all_sent_on sent c'" "turns (10 * card ?K * length ?ws) ?K rs" for rs
  proof -
    obtain c'' qs where c'': "run_events wr rd sent feed peer (map Receives rs) c' = Inr c''" "distinct qs" "set qs = dom ?M"
      and bufs: "\<forall>sid s. dpl_QPartsStreams (co_peer c) sid = Some s \<longrightarrow> (\<exists>s'. dpl_QPartsStreams (co_peer c'') sid = Some s' \<and>
          pb_buffer (ps_ReadBuffer s') = pb_buffer (ps_ReadBuffer s) @ concat (map (payload ?M) (filter (is_for ?M sid) qs)))"
      using connection_delivers [OF assms(1-4) fresh ev(1) dom run _ _ rs(2) bound] rs(1) unfolding all_sent_on_def by blast
    have keys: "set qs = wc_rnd ` set ?ws" using c''(3) by (simp add: dom_traffic_of)
    obtain ys where ys: "map wc_rnd ys = qs" "set ys \<subseteq> set ?ws" "distinct ys" using list_of_keys [OF keys c''(2)] .
    have same: "map (payload ?M) (filter (is_for ?M sid) qs) = map wc_data (filter (\<lambda>w. wc_sid w = sid) ys)" for sid
    proof -
      have "w \<in> set ?ws" if "w \<in> set ys" for w using ys(2) that by blast
      then have call: "payload ?M (wc_rnd w) = wc_data w" "is_for ?M sid (wc_rnd w) \<longleftrightarrow> wc_sid w = sid" if "w \<in> set ys" for w
        using traffic_of_call [OF ok(1) _ ok(2) fin] that by blast+
      have "filter (is_for ?M sid) qs = map wc_rnd (filter (\<lambda>w. wc_sid w = sid) ys)"
        unfolding ys(1) [symmetric] filter_map using call(2) by (simp add: comp_def cong: filter_cong)
      then show ?thesis using call(1) by simp
    qed
    show ?thesis
      by (rule exI [of _ c''], rule exI [of _ ys])
        (intro conjI c''(1) ys(3) keys_cover [OF ys(1,2) keys ok(1)] bufs [unfolded same])
  qed
  with app show ?thesis by blast
qed

text \<open>Two calls on one stream, and one that comes too late.\<close>

definition write_of :: "u64 \<Rightarrow> byte list \<Rightarrow> u64 list \<Rightarrow> nat write_call" where
  "write_of rnd b order = \<lparr>wc_stream = NewPartsStream 9, wc_now = 5, wc_data = b, wc_order1 = order, wc_order2 = order,
     wc_rnd = rnd, wc_remote = None\<rparr>"

definition late_write :: "nat write_call" where
  "late_write = (write_of 79 [4] [1, 2])\<lparr>wc_stream := (NewPartsStream 9)\<lparr>ps_deadlineSet := True, ps_writeDeadline := 1\<rparr>\<rparr>"

definition two_writes :: "nat \<Rightarrow> nat \<Rightarrow> nat app_event list" where
  "two_writes n m = [Calls (write_of 77 [1, 2] [1, 2]), Calls late_write, Calls (write_of 78 [3] [2, 1]),
     Steps (Writes (Adds 1)), Steps (Writes (Adds 0)), Steps (Writes (Sends 1)), Steps (Writes (Sends 2)),
     Steps (Carries 1 n), Steps (Carries 2 m)]"

definition two_entered :: "nat sender_action list" where
  "two_entered = [Enters 9 77 [part_on 1 [1, 2]], Enters 9 78 [part_on 2 [3]], Adds 1, Adds 0]"

lemma two_writes_facts:
  "calls_of (two_writes n m) = [write_of 77 [1, 2] [1, 2], write_of 78 [3] [2, 1]]"
  "events_of (two_writes n m) = map Writes (two_entered @ map Sends [1, 2]) @ [Carries 1 n, Carries 2 m]"
  "app_ok {1, 2} (two_writes n m)"
proof -
  have "opened (write_of r b k)" "\<not> opened late_write" for r b k
    by (simp_all add: write_of_def late_write_def write_open_def NewPartsStream_def)
  moreover have "scheduled (write_of 77 [1, 2] [1, 2]) = [part_on 1 [1, 2]]" "scheduled (write_of 78 [3] [2, 1]) = [part_on 2 [3]]"
    by (simp_all add: scheduled_def ScheduleWrite_def write_of_def set_remote_def part_on_def zero_DataAssignment_def)
  ultimately show c: "calls_of (two_writes n m) = [write_of 77 [1, 2] [1, 2], write_of 78 [3] [2, 1]]"
    and "events_of (two_writes n m) = map Writes (two_entered @ map Sends [1, 2]) @ [Carries 1 n, Carries 2 m]"
    by (simp_all add: two_writes_def two_entered_def) (simp add: write_of_def NewPartsStream_def)
  show "app_ok {1, 2} (two_writes n m)"
    unfolding app_ok_def c
    by (auto simp: two_writes_def write_ok_def write_of_def splittable_def visits_def maxAlloc_def)
qed

lemma two_entered_run:
  "\<exists>dp calls. run_write_actions memory_write two_entered (two_queues, []) = Inr (dp, calls)
     \<and> (\<forall>c \<in> set calls. ca_next c = length (ca_parts c)) \<and> (\<forall>k. queue_len dp k \<le> count_list [1, 2] k)"
  by (simp add: two_entered_def two_queues_def part_on_def cs_alloc_def Let_def AddListenStream_def NewQPartsDataplane_def
      set_stream_def Queue_Add_def NewQueue_def queue_len_def)

theorem writes_arrive_witness:
  "\<exists>n m c' c'' s. run_app memory_write memory_read id (@) id (two_writes n m) two_hosts = Inr c'
     \<and> run_events memory_write memory_read id (@) id (map Receives (concat (replicate 40 [2, 1]))) c' = Inr c''
     \<and> dpl_QPartsStreams (co_peer c'') 9 = Some s \<and> pb_buffer (ps_ReadBuffer s) \<in> {[1, 2, 3], [3, 1, 2]}"
proof -
  let ?M = "[77 \<mapsto> (9, [[1, 2]]), 78 \<mapsto> (9, [[3]])] :: traffic"
  have K: "dom (dpl_Streams (co_dp two_hosts)) = {1, 2}" "card {1, 2 :: u64} = 2" "finite {1, 2 :: u64}"
    by (simp_all add: two_hosts_def two_queues)
  have acts: "acts_ok ?M {1, 2} two_entered"
    by (auto simp: acts_ok_def two_entered_def part_on_def sendable_def maxAlloc_def placed_def)
  obtain dp1 calls where r: "run_write_actions memory_write two_entered (two_queues, []) = Inr (dp1, calls)"
    "\<forall>c \<in> set calls. ca_next c = length (ca_parts c)" "\<forall>k. queue_len dp1 k \<le> count_list [1, 2] k"
    using two_entered_run by blast
  obtain dp F where w: "run_write_actions memory_write (two_entered @ map Sends [1, 2]) (two_queues, []) = Inr (dp, calls)"
    "senders_inv id ?M {1, 2} (\<lambda>k. id (ds_ssqc (the (dpl_Streams two_queues k)))) F dp calls"
    "\<forall>c \<in> set calls. WriteForStream_returns (ca_obj c) dp"
    by (rule calls_then_sends [OF memory_write two_queues(1) K(3) two_queues(2) acts r])
  obtain n m c' where c: "run_events memory_write memory_read id (@) id [Carries 1 n, Carries 2 m]
      (two_hosts\<lparr>co_dp := dp, co_calls := calls\<rparr>) = Inr c'" "co_dp c' = dp" "co_calls c' = calls"
    "\<forall>k st. dpl_Streams dp k = Some st \<longrightarrow> co_carried c' k = length (id (ds_ssqc st))"
    by (rule two_hosts_carried [OF senders_invD(2) [OF w(2)]])
  have sent: "all_sent_on id c'" using w(3) c(4) unfolding all_sent_on_def c(2,3) by blast
  have run: "run_app memory_write memory_read id (@) id (two_writes n m) two_hosts = Inr c'"
    using run_app_events [of "two_writes n m" "{1, 2}"] two_writes_facts(3) K(3) two_hosts_writes [OF w(1)] c(1)
    unfolding two_writes_facts(2) app_ok_def by metis
  have ok: "app_ok (dom (dpl_Streams (co_dp two_hosts))) (two_writes n m)" unfolding K(1) by (rule two_writes_facts(3))
  have fresh: "fresh_connection id id id Map.empty two_hosts"
    using two_hosts_fresh unfolding fresh_connection_def by (simp add: traffic_ok_def)
  have ready: "peer_ready (co_peer two_hosts) (calls_of (two_writes n m))"
    unfolding two_writes_facts(1)
    by (simp add: peer_ready_def two_hosts_def fresh_peer_def write_of_def NewPartsStream_def NewCompletionStore_def)
  have turns: "turns (10 * card (dom (dpl_Streams (co_dp two_hosts))) * length (calls_of (two_writes n m)))
      (dom (dpl_Streams (co_dp two_hosts))) (concat (replicate 40 [2, 1]))"
    unfolding K two_writes_facts(1) by (simp add: turns_def numeral_eq_Suc)
  obtain c1 where c1: "run_app memory_write memory_read id (@) id (two_writes n m) two_hosts = Inr c1"
    and arrive: "\<forall>rs. all_sent_on id c1 \<and> turns (10 * card (dom (dpl_Streams (co_dp two_hosts))) * length (calls_of (two_writes n m)))
        (dom (dpl_Streams (co_dp two_hosts))) rs \<longrightarrow>
      (\<exists>c'' order. run_events memory_write memory_read id (@) id (map Receives rs) c1 = Inr c'' \<and> distinct order
        \<and> set order = set (calls_of (two_writes n m))
        \<and> (\<forall>sid s. dpl_QPartsStreams (co_peer two_hosts) sid = Some s \<longrightarrow> (\<exists>s'. dpl_QPartsStreams (co_peer c'') sid = Some s' \<and>
             pb_buffer (ps_ReadBuffer s') = pb_buffer (ps_ReadBuffer s) @ concat (map wc_data (filter (\<lambda>w. wc_sid w = sid) order)))))"
    using writes_arrive [OF memory_write memory_read memory_feeds fresh ok ready] by (elim exE conjE) (rule that)
  have "c1 = c'" using c1 run by simp
  with arrive sent turns obtain c'' order where
    o: "run_events memory_write memory_read id (@) id (map Receives (concat (replicate 40 [2, 1]))) c' = Inr c''"
      "distinct order" "set order = {write_of 77 [1, 2] [1, 2], write_of 78 [3] [2, 1]}"
    and bufs: "\<forall>sid s. dpl_QPartsStreams (co_peer two_hosts) sid = Some s \<longrightarrow> (\<exists>s'. dpl_QPartsStreams (co_peer c'') sid = Some s' \<and>
       pb_buffer (ps_ReadBuffer s') = pb_buffer (ps_ReadBuffer s) @ concat (map wc_data (filter (\<lambda>w. wc_sid w = sid) order)))"
    unfolding two_writes_facts(1) by auto
  have "write_of 77 [1, 2] [1, 2] \<noteq> write_of 78 [3] [2, 1]" by (simp add: write_of_def)
  with o(2,3) have "order = [write_of 77 [1, 2] [1, 2], write_of 78 [3] [2, 1]]
      \<or> order = [write_of 78 [3] [2, 1], write_of 77 [1, 2] [1, 2]]" by (rule orders_of_two)
  moreover obtain s where "dpl_QPartsStreams (co_peer c'') 9 = Some s"
    "pb_buffer (ps_ReadBuffer s) = concat (map wc_data (filter (\<lambda>w. wc_sid w = 9) order))"
    using spec [OF spec [OF bufs, of 9], of "NewPartsStream 9"]
    by (auto simp: two_hosts_def fresh_peer_def NewPartsStream_def NewPacketBuffer_def)
  moreover have "wc_sid (write_of r b k) = 9" "wc_data (write_of r b k) = b" for r b k
    by (simp_all add: write_of_def NewPartsStream_def)
  ultimately have "pb_buffer (ps_ReadBuffer s) \<in> {[1, 2, 3], [3, 1, 2]}" by (elim disjE) simp_all
  with run o(1) \<open>dpl_QPartsStreams (co_peer c'') 9 = Some s\<close> show ?thesis by blast
qed

end
