(* ===== verification/Float64.thy ===== *)
theory Float64
  imports Complex_Main Prelude
begin

text \<open>
  The arithmetic of Go's \<^verbatim>\<open>float64\<close> (IEEE 754 binary64, round to nearest, ties to even) on rational
  numbers: an operation gives its exact result rounded to 53 significant bits.  The code applies it to
  ratios of 64-bit counters, whose values and differences are zero or between \<open>2^-200\<close> and \<open>2^64\<close> in
  magnitude, far from overflow and from the subnormal numbers, so the exponent is not bounded here.
\<close>

section \<open>Rounding\<close>

fun bit_len :: "nat \<Rightarrow> nat" where
  "bit_len n = (if n = 0 then 0 else Suc (bit_len (n div 2)))"

declare bit_len.simps [simp del]

text \<open>The exponent of a positive number: \<open>2 powi e \<le> x < 2 powi (e + 1)\<close>.\<close>

definition binary_exponent :: "rat \<Rightarrow> int" where
  "binary_exponent x = (if 1 \<le> x then int (bit_len (nat \<lfloor>x\<rfloor>)) - 1 else - int (bit_len (nat (\<lceil>1 / x\<rceil> - 1))))"

definition round_half_even :: "rat \<Rightarrow> int" where
  "round_half_even y =
     (if y - of_int \<lfloor>y\<rfloor> < 1 / 2 then \<lfloor>y\<rfloor>
      else if 1 / 2 < y - of_int \<lfloor>y\<rfloor> then \<lfloor>y\<rfloor> + 1
      else if even \<lfloor>y\<rfloor> then \<lfloor>y\<rfloor> else \<lfloor>y\<rfloor> + 1)"

definition float64 :: "rat \<Rightarrow> rat" where
  "float64 x = (if x = 0 then 0 else
     let e = binary_exponent \<bar>x\<bar> - 52
     in sgn x * of_int (round_half_even (\<bar>x\<bar> / 2 powi e)) * 2 powi e)"

definition float_of_u64 :: "u64 \<Rightarrow> rat" where
  "float_of_u64 w = float64 (of_nat (unat w))"

definition float_div :: "rat \<Rightarrow> rat \<Rightarrow> rat" where
  "float_div a b = float64 (a / b)"

definition float_sub :: "rat \<Rightarrow> rat \<Rightarrow> rat" where
  "float_sub a b = float64 (a - b)"

section \<open>The error of an operation\<close>

lemma bit_len_bounds: "0 < n \<Longrightarrow> 2 ^ (bit_len n - 1) \<le> n \<and> n < 2 ^ bit_len n \<and> 0 < bit_len n"
proof (induction n rule: bit_len.induct)
  case (1 n)
  show ?case
  proof (cases "n div 2 = 0")
    case True
    with 1(2) have "n = 1" by linarith
    then show ?thesis by (simp add: bit_len.simps)
  next
    case False
    with 1 have IH: "2 ^ (bit_len (n div 2) - 1) \<le> n div 2" "n div 2 < 2 ^ bit_len (n div 2)" "0 < bit_len (n div 2)" by auto
    obtain k where k: "bit_len (n div 2) = Suc k" using IH(3) gr0_implies_Suc by blast
    have "bit_len n = Suc (Suc k)" using 1(2) k by (subst bit_len.simps) simp
    with IH show ?thesis by (simp add: k) linarith
  qed
qed

lemma binary_exponent_bounds:
  assumes "0 < x"
  shows "2 powi (binary_exponent x) \<le> x"
proof (cases "1 \<le> x")
  case True
  then have "1 \<le> \<lfloor>x\<rfloor>" by linarith
  then have n: "0 < nat \<lfloor>x\<rfloor>" by simp
  obtain k where k: "bit_len (nat \<lfloor>x\<rfloor>) = Suc k" using bit_len_bounds [OF n] gr0_implies_Suc by blast
  have "2 ^ k \<le> nat \<lfloor>x\<rfloor>" using bit_len_bounds [OF n] k by simp
  then have "(of_nat (2 ^ k) :: rat) \<le> of_nat (nat \<lfloor>x\<rfloor>)" by (simp only: of_nat_le_iff)
  also have "\<dots> \<le> x" using \<open>1 \<le> \<lfloor>x\<rfloor>\<close> by simp
  finally show ?thesis using True k by (simp add: binary_exponent_def)
next
  case False
  let ?n = "nat (\<lceil>1 / x\<rceil> - 1)"
  have "1 < 1 / x" using False assms by (simp add: field_simps)
  then have "1 < \<lceil>1 / x\<rceil>" by linarith
  then have n: "0 < ?n" by simp
  have "\<lceil>1 / x\<rceil> \<le> int (2 ^ bit_len ?n)" using bit_len_bounds [OF n] \<open>1 < \<lceil>1 / x\<rceil>\<close> by linarith
  then have "1 / x \<le> of_int (int (2 ^ bit_len ?n))" by (simp only: ceiling_le_iff)
  then have "1 / x \<le> 2 ^ bit_len ?n" by simp
  then have "1 / 2 ^ bit_len ?n \<le> x" using assms by (simp add: field_simps)
  then show ?thesis using False by (simp add: binary_exponent_def power_int_minus inverse_eq_divide)
qed

lemma round_half_even_error: "\<bar>of_int (round_half_even y) - y\<bar> \<le> 1 / 2"
  using floor_correct [of y] by (auto simp: round_half_even_def abs_le_iff)

lemma float64_0 [simp]: "float64 0 = 0"
  by (simp add: float64_def)

lemma float64_minus: "float64 (- x) = - float64 x"
  by (simp add: float64_def Let_def sgn_minus)

lemma float_sub_commute: "\<bar>float_sub a b\<bar> = \<bar>float_sub b a\<bar>"
  using float64_minus [of "a - b"] by (simp add: float_sub_def)

lemma float64_error: "\<bar>float64 x - x\<bar> \<le> \<bar>x\<bar> / 2 ^ 53"
proof (cases "x = 0")
  case False
  let ?e = "binary_exponent \<bar>x\<bar> - 52"
  let ?s = "2 powi ?e :: rat" and ?y = "\<bar>x\<bar> / 2 powi ?e"
  have s: "0 < ?s" by simp
  have "?s = 2 powi (binary_exponent \<bar>x\<bar>) / 2 ^ 52" by (simp add: power_int_diff)
  then have small: "?s / 2 \<le> \<bar>x\<bar> / 2 ^ 53" using binary_exponent_bounds [of "\<bar>x\<bar>"] False by simp
  have "float64 x - x = sgn x * (of_int (round_half_even ?y) * ?s - \<bar>x\<bar>)"
    using False by (simp add: float64_def Let_def right_diff_distrib sgn_mult_abs mult.assoc)
  also have "of_int (round_half_even ?y) * ?s - \<bar>x\<bar> = (of_int (round_half_even ?y) - ?y) * ?s"
    using s by (simp add: left_diff_distrib)
  finally have "\<bar>float64 x - x\<bar> = \<bar>of_int (round_half_even ?y) - ?y\<bar> * ?s"
    using False s by (simp add: abs_mult abs_sgn_eq)
  also have "\<dots> \<le> 1 / 2 * ?s" using round_half_even_error s by (intro mult_right_mono) simp_all
  finally show ?thesis using small by simp
qed simp

section \<open>The ratio of two counters\<close>

definition float_ratio :: "u64 \<Rightarrow> u64 \<Rightarrow> rat" where
  "float_ratio a b = float_div (float_of_u64 a) (float_of_u64 b)"

definition ratio :: "u64 \<Rightarrow> u64 \<Rightarrow> rat" where
  "ratio a b = of_nat (unat a) / of_nat (unat b)"

lemma float64_between:
  assumes "0 \<le> x"
  shows "x * (1 - 1 / 2 ^ 53) \<le> float64 x" "float64 x \<le> x * (1 + 1 / 2 ^ 53)"
proof -
  have "float64 x - x \<le> x / 2 ^ 53 \<and> - (float64 x - x) \<le> x / 2 ^ 53"
    using float64_error [of x] unfolding abs_le_iff [symmetric] using assms by (simp only: abs_of_nonneg)
  then show "x * (1 - 1 / 2 ^ 53) \<le> float64 x" "float64 x \<le> x * (1 + 1 / 2 ^ 53)"
    by (simp_all add: right_diff_distrib distrib_left)
qed

lemma error_iff: "\<bar>f - r\<bar> \<le> q \<longleftrightarrow> r - q \<le> f \<and> f \<le> r + q" for f r q :: rat
  by linarith

lemma ratio_nonneg: "0 \<le> ratio a b"
  unfolding ratio_def by (intro divide_nonneg_nonneg of_nat_0_le_iff)

lemma float_ratio_error:
  assumes "b \<noteq> 0"
  shows "\<bar>float_ratio a b - ratio a b\<bar> \<le> ratio a b / 2 ^ 51"
proof -
  let ?u = "1 / 2 ^ 53 :: rat" and ?a = "of_nat (unat a) :: rat" and ?b = "of_nat (unat b) :: rat"
  have b: "0 < ?b" using assms unfolding of_nat_0_less_iff by (rule unat_gt_0 [THEN iffD2])
  have a: "0 \<le> ?a" by (rule of_nat_0_le_iff)
  note A = float64_between [OF a] and B = float64_between [OF less_imp_le [OF b]]
  let ?A = "float64 ?a" and ?B = "float64 ?b"
  have Bpos: "0 < ?b * (1 - ?u)" "0 < ?B" using b less_le_trans [OF _ B(1)] by (simp_all del: of_nat_unat)
  have Apos: "0 \<le> ?a * (1 - ?u)" "0 \<le> ?A" using a order_trans [OF _ A(1)] by (simp_all del: of_nat_unat)
  have hi: "?A / ?B \<le> (?a * (1 + ?u)) / (?b * (1 - ?u))"
    using A(2) B(1) Bpos Apos by (intro frac_le) simp_all
  have lo: "(?a * (1 - ?u)) / (?b * (1 + ?u)) \<le> ?A / ?B"
    using A(1) B(2) Bpos Apos by (intro frac_le) simp_all
  have pos: "0 \<le> ?A / ?B" using Apos Bpos by simp
  note Q = float64_between [OF pos]
  have "float_ratio a b \<le> (?a * (1 + ?u)) / (?b * (1 - ?u)) * (1 + ?u)"
    using Q(2) hi unfolding float_ratio_def float_div_def float_of_u64_def
    by (meson mult_right_mono order_trans zero_le_divide_1_iff add_nonneg_nonneg zero_le_one zero_le_numeral zero_le_power)
  also have "\<dots> = ratio a b * ((1 + ?u) / (1 - ?u) * (1 + ?u))" by (simp add: ratio_def)
  also have "\<dots> \<le> ratio a b * (1 + 1 / 2 ^ 51)" by (rule mult_left_mono [OF _ ratio_nonneg]) simp
  finally have up: "float_ratio a b \<le> ratio a b * (1 + 1 / 2 ^ 51)" .
  have "ratio a b * (1 - 1 / 2 ^ 51) \<le> ratio a b * ((1 - ?u) / (1 + ?u) * (1 - ?u))"
    by (rule mult_left_mono [OF _ ratio_nonneg]) simp
  also have "\<dots> = (?a * (1 - ?u)) / (?b * (1 + ?u)) * (1 - ?u)" by (simp add: ratio_def)
  also have "\<dots> \<le> ?A / ?B * (1 - ?u)" using lo by (rule mult_right_mono) simp
  also have "\<dots> \<le> float_ratio a b" using Q(1) unfolding float_ratio_def float_div_def float_of_u64_def .
  finally show ?thesis using up unfolding error_iff by (simp add: right_diff_distrib distrib_left)
qed

lemma float_difference_error:
  assumes "b \<noteq> 0" "d \<noteq> 0"
  shows "\<bar>\<bar>float_sub (float_ratio a b) (float_ratio c d)\<bar> - \<bar>ratio a b - ratio c d\<bar>\<bar>
    \<le> (ratio a b + ratio c d) / 2 ^ 50"
proof -
  let ?f = "float_ratio a b" and ?g = "float_ratio c d" and ?r = "ratio a b" and ?s = "ratio c d"
  have nonneg: "0 \<le> ?r" "0 \<le> ?s" by (rule ratio_nonneg)+
  define t where "t = (?r + ?s) / 2 ^ 52"
  have "\<bar>?f - ?r\<bar> \<le> ?r / 2 ^ 51" "\<bar>?g - ?s\<bar> \<le> ?s / 2 ^ 51" using float_ratio_error assms by simp_all
  then have d: "\<bar>(?f - ?g) - (?r - ?s)\<bar> \<le> 2 * t" unfolding error_iff t_def add_divide_distrib by simp
  have "\<bar>?r - ?s\<bar> \<le> ?r + ?s" using nonneg by linarith
  then have m: "\<bar>?r - ?s\<bar> \<le> 2 ^ 52 * t" by (simp add: t_def)
  have "0 \<le> t" using nonneg by (simp add: t_def)
  moreover have "\<bar>?f - ?g\<bar> / 2 ^ 53 \<le> t" using d m \<open>0 \<le> t\<close> by simp
  moreover have "\<bar>float_sub ?f ?g - (?f - ?g)\<bar> \<le> \<bar>?f - ?g\<bar> / 2 ^ 53" unfolding float_sub_def by (rule float64_error)
  ultimately have "\<bar>\<bar>float_sub ?f ?g\<bar> - \<bar>?r - ?s\<bar>\<bar> \<le> 4 * t" using d by linarith
  also have "4 * t = (?r + ?s) / 2 ^ 50" by (simp add: t_def)
  finally show ?thesis .
qed

end
