(* ===== verification/Congestion.thy ===== *)
theory Congestion
  imports Metrics Float64 "HOL-Library.Multiset"
begin

text \<open>
  The shared-bottleneck detection of \<^verbatim>\<open>qparts_dataplane.go\<close>: \<^verbatim>\<open>FindSimilarPaths\<close>, \<^verbatim>\<open>DetectCongestion\<close>
  and one tick of \<^verbatim>\<open>runDetectionTicker\<close>.  The iteration order of the nested maps is an argument: the
  remotes in the order of the outer loop, each with its path numbers in the order of the inner one.
\<close>

section \<open>\<^verbatim>\<open>FindSimilarPaths\<close>\<close>

definition isSimilar :: "rat \<Rightarrow> rat \<Rightarrow> rat \<Rightarrow> bool" where
  "isSimilar a b tol \<longleftrightarrow> \<bar>float_sub a b\<bar> \<le> tol"

text \<open>The constant \<^verbatim>\<open>0.1\<close>.\<close>

definition tolerance :: rat where
  "tolerance = float64 (1 / 10)"

fun similar_row :: "rat \<Rightarrow> 'm PathMetrics \<Rightarrow> 'm PathMetrics list \<Rightarrow> 'm PathMetrics list list" where
  "similar_row tol p [] = []"
| "similar_row tol p (q # qs) =
     (if pm_Throughput p = 0 \<or> pm_Throughput q = 0 then similar_row tol p qs
      else if pm_Packetloss p = 0 \<or> pm_Packetloss q = 0 then similar_row tol p qs
      else
        let ratio1Loss = float_ratio (pm_Packetloss p) (pm_Throughput p);
            ratio2Loss = float_ratio (pm_Packetloss q) (pm_Throughput q);
            ratio1Cwnd = float_ratio (pm_CwndDecreaseEvents p) (pm_Throughput p);
            ratio2Cwnd = float_ratio (pm_CwndDecreaseEvents q) (pm_Throughput q)
        in (if isSimilar ratio1Loss ratio2Loss tol \<or> isSimilar ratio1Cwnd ratio2Cwnd tol
            then [[p, q]] else []) @ similar_row tol p qs)"

fun FindSimilarPaths :: "rat \<Rightarrow> 'm PathMetrics list \<Rightarrow> 'm PathMetrics list list" where
  "FindSimilarPaths tol [] = []"
| "FindSimilarPaths tol (p # ps) = similar_row tol p ps @ FindSimilarPaths tol ps"

section \<open>\<^verbatim>\<open>DetectCongestion\<close> and the ticker\<close>

fun measured_loop :: "u64 list \<Rightarrow> (u64 \<rightharpoonup> 'm PathMetrics) \<Rightarrow> 'm PathMetrics list go" where
  "measured_loop [] m = Inr []"
| "measured_loop (k # ks) m =
     (case m k of
        None \<Rightarrow> measured_loop ks m
      | Some pm \<Rightarrow>
          (case pm_Path pm of
             None \<Rightarrow> Inl NilDereference
           | Some p \<Rightarrow>
               go_bind (measured_loop ks m) (\<lambda>pms.
                 Inr (if p_Id p = 0 \<or> pm_Throughput pm = 0 then pms else pm # pms))))"

fun all_paths_loop :: "(string \<times> u64 list) list \<Rightarrow> 'm NetworkState \<Rightarrow> 'm PathMetrics list go" where
  "all_paths_loop [] n = Inr []"
| "all_paths_loop ((r, ks) # rs) n =
     go_bind (measured_loop ks (remote_paths r n)) (\<lambda>pms.
     go_bind (all_paths_loop rs n) (\<lambda>rest. Inr (pms @ rest)))"

fun print_pairs :: "'m PathMetrics list list \<Rightarrow> (string \<times> string) list go" where
  "print_pairs [] = Inr []"
| "print_pairs (pair # pairs) =
     go_bind (go_index pair 0) (\<lambda>a. go_bind (go_index pair 1) (\<lambda>b.
     go_bind (deref p_Sorter (pm_Path a)) (\<lambda>s. go_bind (deref p_Sorter (pm_Path b)) (\<lambda>t.
     go_bind (print_pairs pairs) (\<lambda>rest. Inr ((s, t) # rest))))))"

text \<open>The result is what is printed.\<close>

definition DetectCongestion ::
  "(string \<times> u64 list) list \<Rightarrow> 'm NetworkState \<Rightarrow> (string \<times> string) list go" where
  "DetectCongestion order n =
     go_bind (all_paths_loop order n) (\<lambda>allPaths. print_pairs (FindSimilarPaths tolerance allPaths))"

definition detection_tick ::
  "(string \<times> u64 list) list \<Rightarrow> 'm NetworkState \<Rightarrow> ((string \<times> string) list \<times> 'm NetworkState) go" where
  "detection_tick order n = go_bind (DetectCongestion order n) (\<lambda>report. Inr (report, reset_interval n))"

section \<open>All pairs\<close>

text \<open>The condition under which a pair is reported.\<close>

definition bottleneck :: "rat \<Rightarrow> 'm PathMetrics \<Rightarrow> 'm PathMetrics \<Rightarrow> bool" where
  "bottleneck tol p q \<longleftrightarrow> pm_Throughput p \<noteq> 0 \<and> pm_Throughput q \<noteq> 0 \<and> pm_Packetloss p \<noteq> 0 \<and> pm_Packetloss q \<noteq> 0
     \<and> (\<bar>float_sub (float_ratio (pm_Packetloss p) (pm_Throughput p)) (float_ratio (pm_Packetloss q) (pm_Throughput q))\<bar> \<le> tol
        \<or> \<bar>float_sub (float_ratio (pm_CwndDecreaseEvents p) (pm_Throughput p))
              (float_ratio (pm_CwndDecreaseEvents q) (pm_Throughput q))\<bar> \<le> tol)"

lemma bottleneck_commute: "bottleneck tol p q = bottleneck tol q p"
  by (auto simp: bottleneck_def float_sub_commute)

lemma similar_row_filter: "similar_row tol p qs = map (\<lambda>q. [p, q]) (filter (bottleneck tol p) qs)"
  by (induction qs) (simp_all add: bottleneck_def isSimilar_def Let_def)

lemma filter_upt: "map (\<lambda>j. f (xs ! j)) (filter (\<lambda>j. P (xs ! j)) [k..<length xs]) = map f (filter P (drop k xs))"
proof -
  have "drop k xs = map ((!) xs) [k..<length xs]" by (rule nth_equalityI) simp_all
  then show ?thesis by (simp add: filter_map comp_def)
qed

lemma FindSimilarPaths_rows:
  "FindSimilarPaths tol ps = concat (map (\<lambda>i. similar_row tol (ps ! i) (drop (Suc i) ps)) [0..<length ps])"
proof (induction ps)
  case (Cons p ps)
  have "[0..<length (p # ps)] = 0 # map Suc [0..<length ps]" by (simp add: upt_conv_Cons map_Suc_upt del: upt_Suc)
  then have "concat (map (\<lambda>i. similar_row tol ((p # ps) ! i) (drop (Suc i) (p # ps))) [0..<length (p # ps)])
      = similar_row tol p ps @ concat (map (\<lambda>i. similar_row tol (ps ! i) (drop (Suc i) ps)) [0..<length ps])"
    by (simp only: list.map concat.simps map_map comp_def nth_Cons_0 nth_Cons_Suc drop_Suc_Cons drop_0)
  then show ?case by (simp only: FindSimilarPaths.simps Cons)
qed simp

text \<open>C34: \<^verbatim>\<open>FindSimilarPaths\<close> compares every path with every later one, once: its result is the list of
  the pairs of positions \<open>i < j\<close>, in lexicographic order, at which both counters are not zero and one
  of the two ratios differs by at most the tolerance.\<close>

theorem similar_paths_pairs:
  "FindSimilarPaths tol ps = concat (map (\<lambda>i. map (\<lambda>j. [ps ! i, ps ! j])
     (filter (\<lambda>j. bottleneck tol (ps ! i) (ps ! j)) [Suc i..<length ps])) [0..<length ps])"
  unfolding FindSimilarPaths_rows similar_row_filter filter_upt [of "\<lambda>q. [_, q]"] ..

section \<open>Rounding\<close>

text \<open>C35: The rounding of \<^verbatim>\<open>float64\<close> only matters next to the threshold: with \<open>e\<close> the sum of the two
  ratios and one, divided by \<open>2^50\<close>, ratios that differ by at most \<open>0.1 - e\<close> are always found similar
  and ratios that are found similar differ by at most \<open>0.1 + e\<close>.\<close>

theorem similarity_decided:
  assumes "t1 \<noteq> 0" "t2 \<noteq> 0" "e = (ratio a t1 + ratio c t2 + 1) / 2 ^ 50"
  shows "(\<bar>ratio a t1 - ratio c t2\<bar> \<le> 1 / 10 - e \<longrightarrow> isSimilar (float_ratio a t1) (float_ratio c t2) tolerance)
   \<and> (isSimilar (float_ratio a t1) (float_ratio c t2) tolerance \<longrightarrow> \<bar>ratio a t1 - ratio c t2\<bar> \<le> 1 / 10 + e)"
proof -
  have "\<bar>tolerance - 1 / 10\<bar> \<le> 1 / 2 ^ 50"
    unfolding tolerance_def by (rule order_trans [OF float64_error]) simp
  moreover have "e = (ratio a t1 + ratio c t2) / 2 ^ 50 + 1 / 2 ^ 50" unfolding assms(3) by (rule add_divide_distrib)
  moreover note float_difference_error [OF assms(1,2), of a c]
  ultimately show ?thesis unfolding isSimilar_def by linarith
qed

theorem similarity_decided_witness: "isSimilar (float_ratio 1 10) (float_ratio 1 9) tolerance"
  by (rule similarity_decided [OF _ _ refl, THEN conjunct1, THEN mp]) (simp_all add: ratio_def)

section \<open>The iteration order\<close>

definition paths_known :: "'m NetworkState \<Rightarrow> bool" where
  "paths_known n \<longleftrightarrow> (\<forall>r k pm. remote_paths r n k = Some pm \<longrightarrow> pm_Path pm \<noteq> None)"

definition visits_state :: "(string \<times> u64 list) list \<Rightarrow> 'm NetworkState \<Rightarrow> bool" where
  "visits_state order n \<longleftrightarrow> distinct (map fst order) \<and> set (map fst order) = dom (net_Remotes n)
     \<and> (\<forall>(r, ks) \<in> set order. distinct ks \<and> set ks = dom (remote_paths r n))"

definition measured :: "'m PathMetrics \<Rightarrow> bool" where
  "measured pm \<longleftrightarrow> pm_Throughput pm \<noteq> 0 \<and> p_Id (the (pm_Path pm)) \<noteq> 0"

lemma measured_loop_filter:
  assumes "\<forall>k pm. m k = Some pm \<longrightarrow> pm_Path pm \<noteq> None"
  shows "measured_loop ks m = Inr (filter measured (map (the \<circ> m) (filter (\<lambda>k. m k \<noteq> None) ks)))"
proof (induction ks)
  case (Cons k ks)
  show ?case
  proof (cases "m k")
    case (Some pm)
    then obtain p where "pm_Path pm = Some p" using assms by blast
    with Some Cons show ?thesis by (simp add: measured_def)
  qed (use Cons in simp)
qed simp

lemma measured_loop_panics:
  "k \<in> set ks \<Longrightarrow> m k = Some pm \<Longrightarrow> pm_Path pm = None \<Longrightarrow> measured_loop ks m = Inl NilDereference"
  by (induction ks) (auto split: option.split)

lemma all_paths_loop_panics:
  "(r, ks) \<in> set order \<Longrightarrow> k \<in> set ks \<Longrightarrow> remote_paths r n k = Some pm \<Longrightarrow> pm_Path pm = None \<Longrightarrow>
    all_paths_loop order n = Inl NilDereference"
proof (induction order)
  case (Cons x order)
  obtain r' ks' where x: "x = (r', ks')" by (cases x)
  have only: "measured_loop ks' m = Inl e \<Longrightarrow> e = NilDereference" for m :: "u64 \<rightharpoonup> 'b PathMetrics" and e
    by (induction ks') (auto simp: go_bind_def split: option.splits sum.splits)
  show ?case
  proof (cases "x = (r, ks)")
    case True
    with Cons.prems show ?thesis by (simp add: measured_loop_panics)
  next
    case False
    with Cons have "all_paths_loop order n = Inl NilDereference" by simp
    then show ?thesis using only by (auto simp: x go_bind_def split: sum.split)
  qed
qed simp

text \<open>What one remote contributes, whatever the order.\<close>

definition contribution :: "'m NetworkState \<Rightarrow> string \<Rightarrow> 'm PathMetrics multiset" where
  "contribution n r = filter_mset measured (image_mset (the \<circ> remote_paths r n) (mset_set (dom (remote_paths r n))))"

lemma all_paths_loop_mset:
  assumes "paths_known n" "\<forall>(r, ks) \<in> set order. distinct ks \<and> set ks = dom (remote_paths r n)"
  shows "\<exists>pms. all_paths_loop order n = Inr pms \<and> mset pms = sum_mset (image_mset (contribution n) (mset (map fst order)))
    \<and> (\<forall>pm \<in> set pms. pm_Path pm \<noteq> None)"
  using assms(2)
proof (induction order)
  case (Cons x order)
  obtain r ks where x: "x = (r, ks)" by (cases x)
  let ?m = "remote_paths r n"
  let ?one = "filter measured (map (the \<circ> ?m) (filter (\<lambda>k. ?m k \<noteq> None) ks))"
  have known: "\<forall>k pm. ?m k = Some pm \<longrightarrow> pm_Path pm \<noteq> None" using assms(1) by (simp add: paths_known_def)
  have ks: "distinct ks" "set ks = dom ?m" using Cons.prems x by simp_all
  have "filter (\<lambda>k. ?m k \<noteq> None) ks = ks" using ks(2) by (simp add: filter_id_conv dom_def)
  moreover have "mset ks = mset_set (dom ?m)" using mset_set_set [OF ks(1)] ks(2) by simp
  ultimately have one: "mset ?one = contribution n r" by (simp add: contribution_def)
  have "\<forall>pm \<in> set ?one. pm_Path pm \<noteq> None" using known by auto
  moreover obtain pms where "all_paths_loop order n = Inr pms"
    "mset pms = sum_mset (image_mset (contribution n) (mset (map fst order)))" "\<forall>pm \<in> set pms. pm_Path pm \<noteq> None"
    using Cons by auto
  ultimately show ?case
    using one by (intro exI [of _ "?one @ pms"]) (simp add: x measured_loop_filter [OF known], blast)
qed simp

text \<open>The reported pairs do not depend on the order of the paths.\<close>

definition unordered_pairs :: "rat \<Rightarrow> 'm PathMetrics list \<Rightarrow> 'm PathMetrics multiset multiset" where
  "unordered_pairs tol ps = mset (map mset (FindSimilarPaths tol ps))"

lemma unordered_pairs_insert:
  "unordered_pairs tol (xs @ p # ys) = unordered_pairs tol (xs @ ys)
     + image_mset (\<lambda>q. {#p, q#}) (filter_mset (bottleneck tol p) (mset (xs @ ys)))"
proof (induction xs)
  case (Cons x xs)
  then show ?case
    by (simp add: unordered_pairs_def similar_row_filter comp_def bottleneck_commute [of tol x p] add_mset_commute)
qed (simp add: unordered_pairs_def similar_row_filter comp_def)

lemma unordered_pairs_order: "mset ps = mset qs \<Longrightarrow> unordered_pairs tol ps = unordered_pairs tol qs"
proof (induction ps arbitrary: qs)
  case (Cons p ps)
  then have "p \<in> set qs" by (metis list.set_intros(1) mset_eq_setD)
  then obtain xs ys where qs: "qs = xs @ p # ys" by (auto simp: in_set_conv_decomp)
  with Cons.prems have "mset ps = mset (xs @ ys)" by simp
  moreover from this have "unordered_pairs tol ps = unordered_pairs tol (xs @ ys)" by (rule Cons.IH)
  ultimately show ?case
    unfolding qs unordered_pairs_insert using unordered_pairs_insert [of tol "[]" p ps] by simp
qed simp

lemma print_pairs_ok:
  "\<forall>pair \<in> set pairs. \<exists>a b. pair = [a, b] \<and> pm_Path a \<noteq> None \<and> pm_Path b \<noteq> None \<Longrightarrow>
    \<exists>report. print_pairs pairs = Inr report \<and> mset (map (\<lambda>(s, t). {#s, t#}) report)
      = image_mset (image_mset (\<lambda>pm. p_Sorter (the (pm_Path pm)))) (mset (map mset pairs))"
  by (induction pairs) (auto simp: go_index_def deref_def)

lemma FindSimilarPaths_members:
  "pair \<in> set (FindSimilarPaths tol ps) \<Longrightarrow> \<exists>a b. pair = [a, b] \<and> a \<in> set ps \<and> b \<in> set ps"
  by (induction ps) (auto simp: similar_row_filter)

lemma DetectCongestion_report:
  assumes "paths_known n" "\<forall>(r, ks) \<in> set order. distinct ks \<and> set ks = dom (remote_paths r n)"
  shows "\<exists>pms report. DetectCongestion order n = Inr report
    \<and> mset pms = sum_mset (image_mset (contribution n) (mset (map fst order)))
    \<and> mset (map (\<lambda>(s, t). {#s, t#}) report)
      = image_mset (image_mset (\<lambda>pm. p_Sorter (the (pm_Path pm)))) (unordered_pairs tolerance pms)"
proof -
  from all_paths_loop_mset [OF assms] obtain pms where
    pms: "all_paths_loop order n = Inr pms" "mset pms = sum_mset (image_mset (contribution n) (mset (map fst order)))"
    "\<forall>pm \<in> set pms. pm_Path pm \<noteq> None" by blast
  have "\<forall>pair \<in> set (FindSimilarPaths tolerance pms). \<exists>a b. pair = [a, b] \<and> pm_Path a \<noteq> None \<and> pm_Path b \<noteq> None"
  proof
    fix pair
    assume "pair \<in> set (FindSimilarPaths tolerance pms)"
    from FindSimilarPaths_members [OF this] obtain a b where "pair = [a, b]" "a \<in> set pms" "b \<in> set pms" by blast
    with pms(3) show "\<exists>a b. pair = [a, b] \<and> pm_Path a \<noteq> None \<and> pm_Path b \<noteq> None" by simp
  qed
  from print_pairs_ok [OF this] pms show ?thesis
    unfolding DetectCongestion_def unordered_pairs_def by (metis go_bind_Inr)
qed

text \<open>C36: A tick of the detection does not depend on the random iteration order of the maps: two orders
  that visit every remote and every path once print the same pairs of paths, up to the order of the
  lines and of the two names in a line, and leave the same state, in which every interval counter is
  zero and every other metric as it was.  It panics, in every order, exactly if the state holds
  metrics without a path.\<close>

theorem detection_order:
  assumes "visits_state order n" "visits_state order' n"
  shows "if paths_known n then (\<exists>report report' n'. detection_tick order n = Inr (report, n')
       \<and> detection_tick order' n = Inr (report', n')
       \<and> mset (map (\<lambda>(s, t). {#s, t#}) report) = mset (map (\<lambda>(s, t). {#s, t#}) report')
       \<and> (\<forall>r k. GetPathMetrics r k n'
            = map_option (\<lambda>pm. pm\<lparr>pm_Throughput := 0, pm_Packetloss := 0\<rparr>) (GetPathMetrics r k n)))
     else detection_tick order n = Inl NilDereference"
proof (cases "paths_known n")
  case True
  have "set (map fst order) = set (map fst order')" "distinct (map fst order)" "distinct (map fst order')"
    using assms by (simp_all add: visits_state_def)
  then have same: "mset (map fst order) = mset (map fst order')" by (simp only: set_eq_iff_mset_eq_distinct)
  have keys: "\<forall>(r, ks) \<in> set order. distinct ks \<and> set ks = dom (remote_paths r n)"
    "\<forall>(r, ks) \<in> set order'. distinct ks \<and> set ks = dom (remote_paths r n)"
    using assms by (simp_all add: visits_state_def)
  from DetectCongestion_report [OF True keys(1)] obtain pms report where
    r: "DetectCongestion order n = Inr report" "mset pms = sum_mset (image_mset (contribution n) (mset (map fst order)))"
    "mset (map (\<lambda>(s, t). {#s, t#}) report)
      = image_mset (image_mset (\<lambda>pm. p_Sorter (the (pm_Path pm)))) (unordered_pairs tolerance pms)" by blast
  from DetectCongestion_report [OF True keys(2)] obtain pms' report' where
    r': "DetectCongestion order' n = Inr report'" "mset pms' = sum_mset (image_mset (contribution n) (mset (map fst order')))"
    "mset (map (\<lambda>(s, t). {#s, t#}) report')
      = image_mset (image_mset (\<lambda>pm. p_Sorter (the (pm_Path pm)))) (unordered_pairs tolerance pms')" by blast
  have "mset pms = mset pms'" using r(2) r'(2) same by simp
  then have "unordered_pairs tolerance pms = unordered_pairs tolerance pms'" by (rule unordered_pairs_order)
  then have "mset (map (\<lambda>(s, t). {#s, t#}) report) = mset (map (\<lambda>(s, t). {#s, t#}) report')"
    unfolding r(3) r'(3) by (rule arg_cong)
  moreover have "\<forall>r k. GetPathMetrics r k (reset_interval n)
      = map_option (\<lambda>pm. pm\<lparr>pm_Throughput := 0, pm_Packetloss := 0\<rparr>) (GetPathMetrics r k n)"
    by (simp add: GetPathMetrics_def reset_interval_def split: option.split)
  ultimately show ?thesis using True r(1) r'(1) by (simp add: detection_tick_def)
next
  case False
  then obtain r k pm where pm: "remote_paths r n k = Some pm" "pm_Path pm = None" unfolding paths_known_def by blast
  then have "r \<in> dom (net_Remotes n)" by (auto simp: remote_paths_def split: option.splits)
  then have "r \<in> fst ` set order" using assms(1) by (simp add: visits_state_def)
  then obtain ks where "(r, ks) \<in> set order" by (metis imageE prod.collapse)
  moreover from this have "k \<in> set ks" using assms(1) pm(1) unfolding visits_state_def by fastforce
  ultimately have "all_paths_loop order n = Inl NilDereference" using pm by (rule all_paths_loop_panics)
  with False show ?thesis by (simp add: detection_tick_def DetectCongestion_def)
qed

text \<open>Two paths with the same loss rate behind one bottleneck.\<close>

definition lossy :: "string \<Rightarrow> u64 \<Rightarrow> nat PathMetrics" where
  "lossy s t = NewPathMetrics\<lparr>pm_Path := Some ((named_path s)\<lparr>p_Id := 1\<rparr>), pm_Throughput := t, pm_Packetloss := 1\<rparr>"

definition lossy_state :: "nat NetworkState" where
  "lossy_state = \<lparr>net_Remotes = [''r'' \<mapsto> [1 \<mapsto> lossy ''a'' 10, 2 \<mapsto> lossy ''b'' 9]], net_OnCongestionEvent = []\<rparr>"

theorem detection_order_witness:
  "\<exists>report report' n'. detection_tick [(''r'', [1, 2])] lossy_state = Inr (report, n')
     \<and> detection_tick [(''r'', [2, 1])] lossy_state = Inr (report', n')
     \<and> mset (map (\<lambda>(s, t). {#s, t#}) report) = mset (map (\<lambda>(s, t). {#s, t#}) report')"
proof -
  have "visits_state [(''r'', [1, 2])] lossy_state" "visits_state [(''r'', [2, 1])] lossy_state"
    by (auto simp: visits_state_def lossy_state_def remote_paths_def)
  moreover have "paths_known lossy_state"
    by (auto simp: paths_known_def lossy_state_def remote_paths_def lossy_def split: if_splits)
  ultimately show ?thesis using detection_order by (metis (no_types, lifting))
qed

end
