(* ===== verification/Logging.thy ===== *)
theory Logging
  imports Prelude
begin

text \<open>
  \<^verbatim>\<open>pkg/qplogging/logging.go\<close>: the levelled logger.  The file it writes to is the list of its characters;
  the results of \<^verbatim>\<open>WriteString\<close> are ignored by the code.  The formatted time, \<^verbatim>\<open>Sprintf("%v", arg)\<close>
  and \<^verbatim>\<open>Sprintf(value, args...)\<close> are arguments.  The second component of the two \<^verbatim>\<open>Fatal\<close> methods says
  that they end the program with \<^verbatim>\<open>os.Exit(1)\<close>.
\<close>

section \<open>The logger\<close>

definition PARTS_LOG_LEVEL_DEBUG :: int where "PARTS_LOG_LEVEL_DEBUG = 0"
definition PARTS_LOG_LEVEL_INFO :: int where "PARTS_LOG_LEVEL_INFO = 1"
definition PARTS_LOG_LEVEL_WARN :: int where "PARTS_LOG_LEVEL_WARN = 2"
definition PARTS_LOG_LEVEL_ERROR :: int where "PARTS_LOG_LEVEL_ERROR = 3"
definition PARTS_LOG_LEVEL_FATAL :: int where "PARTS_LOG_LEVEL_FATAL = 4"

record PartsLogger =
  lg_out :: string
  lg_Level :: int

definition init_Log :: "string \<Rightarrow> PartsLogger" where
  "init_Log stdout = \<lparr>lg_out = stdout, lg_Level = PARTS_LOG_LEVEL_DEBUG\<rparr>"

definition SetLogOutput :: "string \<Rightarrow> PartsLogger \<Rightarrow> PartsLogger" where
  "SetLogOutput out l = l\<lparr>lg_out := out\<rparr>"

definition SetLogLevel :: "int \<Rightarrow> PartsLogger \<Rightarrow> PartsLogger" where
  "SetLogLevel level l = l\<lparr>lg_Level := level\<rparr>"

definition WriteString :: "string \<Rightarrow> PartsLogger \<Rightarrow> PartsLogger" where
  "WriteString s l = l\<lparr>lg_out := lg_out l @ s\<rparr>"

fun write_args :: "('v \<Rightarrow> string) \<Rightarrow> string \<Rightarrow> 'v list \<Rightarrow> PartsLogger \<Rightarrow> PartsLogger" where
  "write_args v sep [] l = l"
| "write_args v sep (a # args) l = write_args v sep args (WriteString (v a @ sep) l)"

definition newline :: string where
  "newline = [CHR 0x0A]"

section \<open>\<^verbatim>\<open>Print\<close>-like methods\<close>

definition Info :: "('v \<Rightarrow> string) \<Rightarrow> string \<Rightarrow> string \<Rightarrow> 'v list \<Rightarrow> PartsLogger \<Rightarrow> PartsLogger" where
  "Info v t val args l =
     (if lg_Level l > PARTS_LOG_LEVEL_INFO then l
      else WriteString newline (write_args v '', '' args (WriteString (t @ '' INFO: '' @ val) l)))"

definition Debug :: "('v \<Rightarrow> string) \<Rightarrow> string \<Rightarrow> string \<Rightarrow> 'v list \<Rightarrow> PartsLogger \<Rightarrow> PartsLogger" where
  "Debug v t val args l =
     (if lg_Level l > PARTS_LOG_LEVEL_DEBUG then l
      else WriteString newline (write_args v '''' args (WriteString (t @ '' DEBUG: '' @ val) l)))"

definition Error :: "('v \<Rightarrow> string) \<Rightarrow> string \<Rightarrow> string \<Rightarrow> 'v list \<Rightarrow> PartsLogger \<Rightarrow> PartsLogger" where
  "Error v t val args l =
     (if lg_Level l > PARTS_LOG_LEVEL_ERROR then l
      else WriteString newline (write_args v '''' args (WriteString (t @ '' ERROR: '' @ val) l)))"

definition Warn :: "('v \<Rightarrow> string) \<Rightarrow> string \<Rightarrow> string \<Rightarrow> 'v list \<Rightarrow> PartsLogger \<Rightarrow> PartsLogger" where
  "Warn v t val args l =
     (if lg_Level l > PARTS_LOG_LEVEL_WARN then l
      else WriteString newline (write_args v '''' args (WriteString (t @ '' WARN: '' @ val) l)))"

definition Fatal :: "('v \<Rightarrow> string) \<Rightarrow> string \<Rightarrow> string \<Rightarrow> 'v list \<Rightarrow> PartsLogger \<Rightarrow> PartsLogger \<times> bool" where
  "Fatal v t val args l =
     (if lg_Level l > PARTS_LOG_LEVEL_FATAL then (l, False)
      else (WriteString newline (write_args v '''' args (WriteString (t @ '' FATAL: '' @ val) l)), True))"

section \<open>\<^verbatim>\<open>Printf\<close>-like methods\<close>

definition Infof :: "(string \<Rightarrow> 'v list \<Rightarrow> string) \<Rightarrow> string \<Rightarrow> string \<Rightarrow> 'v list \<Rightarrow> PartsLogger \<Rightarrow> PartsLogger" where
  "Infof f t val args l =
     (if lg_Level l > PARTS_LOG_LEVEL_INFO then l
      else WriteString newline (WriteString (t @ '' INFO: '' @ f val args) l))"

definition Debugf :: "(string \<Rightarrow> 'v list \<Rightarrow> string) \<Rightarrow> string \<Rightarrow> string \<Rightarrow> 'v list \<Rightarrow> PartsLogger \<Rightarrow> PartsLogger" where
  "Debugf f t val args l =
     (if lg_Level l > PARTS_LOG_LEVEL_DEBUG then l
      else WriteString newline (WriteString (t @ '' DEBUG: '' @ f val args) l))"

definition Errorf :: "(string \<Rightarrow> 'v list \<Rightarrow> string) \<Rightarrow> string \<Rightarrow> string \<Rightarrow> 'v list \<Rightarrow> PartsLogger \<Rightarrow> PartsLogger" where
  "Errorf f t val args l =
     (if lg_Level l > PARTS_LOG_LEVEL_ERROR then l
      else WriteString newline (WriteString (t @ '' ERROR: '' @ f val args) l))"

definition Warnf :: "(string \<Rightarrow> 'v list \<Rightarrow> string) \<Rightarrow> string \<Rightarrow> string \<Rightarrow> 'v list \<Rightarrow> PartsLogger \<Rightarrow> PartsLogger" where
  "Warnf f t val args l =
     (if lg_Level l > PARTS_LOG_LEVEL_WARN then l
      else WriteString newline (WriteString (t @ '' WARN: '' @ f val args) l))"

definition Fatalf :: "(string \<Rightarrow> 'v list \<Rightarrow> string) \<Rightarrow> string \<Rightarrow> string \<Rightarrow> 'v list \<Rightarrow> PartsLogger \<Rightarrow> PartsLogger \<times> bool" where
  "Fatalf f t val args l =
     (if lg_Level l > PARTS_LOG_LEVEL_FATAL then (l, False)
      else (WriteString newline (WriteString (t @ '' FATAL: '' @ f val args) l), True))"

section \<open>Programs that log\<close>

datatype severity = DebugS | InfoS | WarnS | ErrorS | FatalS

text \<open>A call: the method's severity, whether it is the \<^verbatim>\<open>f\<close> variant, the time and its arguments.\<close>

record 'v log_call =
  lc_severity :: severity
  lc_formatted :: bool
  lc_time :: string
  lc_value :: string
  lc_args :: "'v list"

fun severity_level :: "severity \<Rightarrow> int" where
  "severity_level DebugS = PARTS_LOG_LEVEL_DEBUG"
| "severity_level InfoS = PARTS_LOG_LEVEL_INFO"
| "severity_level WarnS = PARTS_LOG_LEVEL_WARN"
| "severity_level ErrorS = PARTS_LOG_LEVEL_ERROR"
| "severity_level FatalS = PARTS_LOG_LEVEL_FATAL"

definition log_method ::
  "('v \<Rightarrow> string) \<Rightarrow> (string \<Rightarrow> 'v list \<Rightarrow> string) \<Rightarrow> 'v log_call \<Rightarrow> PartsLogger \<Rightarrow> PartsLogger \<times> bool" where
  "log_method v f c l =
     (let t = lc_time c; val = lc_value c; args = lc_args c in
      case (lc_severity c, lc_formatted c) of
        (DebugS, False) \<Rightarrow> (Debug v t val args l, False) | (DebugS, True) \<Rightarrow> (Debugf f t val args l, False)
      | (InfoS, False) \<Rightarrow> (Info v t val args l, False) | (InfoS, True) \<Rightarrow> (Infof f t val args l, False)
      | (WarnS, False) \<Rightarrow> (Warn v t val args l, False) | (WarnS, True) \<Rightarrow> (Warnf f t val args l, False)
      | (ErrorS, False) \<Rightarrow> (Error v t val args l, False) | (ErrorS, True) \<Rightarrow> (Errorf f t val args l, False)
      | (FatalS, False) \<Rightarrow> Fatal v t val args l | (FatalS, True) \<Rightarrow> Fatalf f t val args l)"

text \<open>Calls in order, up to one that ends the program.\<close>

fun log_run ::
  "('v \<Rightarrow> string) \<Rightarrow> (string \<Rightarrow> 'v list \<Rightarrow> string) \<Rightarrow> 'v log_call list \<Rightarrow> PartsLogger \<Rightarrow> PartsLogger \<times> bool" where
  "log_run v f [] l = (l, False)"
| "log_run v f (c # cs) l =
     (let (l', ended) = log_method v f c l in if ended then (l', True) else log_run v f cs l')"

text \<open>The line of a call that is written.\<close>

definition log_line :: "('v \<Rightarrow> string) \<Rightarrow> (string \<Rightarrow> 'v list \<Rightarrow> string) \<Rightarrow> 'v log_call \<Rightarrow> string" where
  "log_line v f c = lc_time c
     @ (case lc_severity c of DebugS \<Rightarrow> '' DEBUG: '' | InfoS \<Rightarrow> '' INFO: '' | WarnS \<Rightarrow> '' WARN: ''
        | ErrorS \<Rightarrow> '' ERROR: '' | FatalS \<Rightarrow> '' FATAL: '')
     @ (if lc_formatted c then f (lc_value c) (lc_args c)
        else lc_value c @ concat (map (\<lambda>a. v a @ (if lc_severity c = InfoS then '', '' else [])) (lc_args c)))
     @ newline"

fun until_fatal :: "'v log_call list \<Rightarrow> 'v log_call list" where
  "until_fatal [] = []"
| "until_fatal (c # cs) = (if lc_severity c = FatalS then [c] else c # until_fatal cs)"

lemma write_args_out: "write_args v sep args l = WriteString (concat (map (\<lambda>a. v a @ sep) args)) l"
  by (induction args arbitrary: l) (simp_all add: WriteString_def)

lemma log_method_line:
  "log_method v f c l =
     (if severity_level (lc_severity c) < lg_Level l then (l, False)
      else (WriteString (log_line v f c) l, lc_severity c = FatalS))"
  by (cases "lc_severity c"; cases "lc_formatted c")
    (simp_all add: log_method_def log_line_def write_args_out WriteString_def Debug_def Debugf_def Info_def Infof_def
      Warn_def Warnf_def Error_def Errorf_def Fatal_def Fatalf_def)

text \<open>C37: Of the calls of a goroutine the logger writes exactly the lines of those whose severity is not
  below its level, in order, up to and including the first \<^verbatim>\<open>Fatal\<close> or \<^verbatim>\<open>Fatalf\<close>, which ends the
  program, and nothing else; but with a level above \<^verbatim>\<open>PARTS_LOG_LEVEL_FATAL\<close> no call writes anything
  and not even \<^verbatim>\<open>Fatal\<close> ends the program.\<close>

theorem logger_filters:
  "log_run v f calls l =
     (let cs = until_fatal (filter (\<lambda>c. lg_Level l \<le> severity_level (lc_severity c)) calls)
      in (l\<lparr>lg_out := lg_out l @ concat (map (log_line v f) cs)\<rparr>,
          \<exists>c \<in> set calls. lc_severity c = FatalS \<and> lg_Level l \<le> PARTS_LOG_LEVEL_FATAL))"
proof (induction calls arbitrary: l)
  case (Cons c cs)
  show ?case
  proof (cases "lg_Level l \<le> severity_level (lc_severity c)")
    case True
    with Cons show ?thesis
      by (cases "lc_severity c = FatalS") (auto simp: log_method_line WriteString_def Let_def)
  next
    case False
    with Cons show ?thesis by (cases "lc_severity c = FatalS") (auto simp: log_method_line Let_def)
  qed
qed simp

end
