(* ===== verification/Certificate.thy ===== *)
theory Certificate
  imports Prelude
begin

text \<open>
  \<^verbatim>\<open>pkg/qpcrypto/certs_insecure.go\<close>: the self-signed certificate of a host without PILA.  The cryptography
  and the encodings of \<^verbatim>\<open>crypto/rsa\<close>, \<^verbatim>\<open>crypto/x509\<close>, \<^verbatim>\<open>encoding/pem\<close> and \<^verbatim>\<open>crypto/tls\<close> are arguments, each
  with its result or its error.  A pointer result and an error result are a pair; \<open>None\<close> is nil.
\<close>

section \<open>The template\<close>

definition x509_KeyUsageDigitalSignature :: goint where "x509_KeyUsageDigitalSignature = push_bit 0 1"
definition x509_KeyUsageKeyEncipherment :: goint where "x509_KeyUsageKeyEncipherment = push_bit 2 1"
definition x509_ExtKeyUsageServerAuth :: goint where "x509_ExtKeyUsageServerAuth = 1"

text \<open>Nanoseconds.\<close>

definition time_Hour :: int where "time_Hour = 60 * 60 * 1000000000"

record x509_Certificate =
  SerialNumber :: int
  Subject_Organization :: "string list"
  NotBefore :: int
  NotAfter :: int
  KeyUsage :: goint
  ExtKeyUsage :: "goint list"
  BasicConstraintsValid :: bool
  DNSNames :: "string list"

record ('key, 'pub, 'cert) crypto =
  rsa_GenerateKey :: "nat \<Rightarrow> string + 'key"
  rsa_PublicKey :: "'key \<Rightarrow> 'pub"
  rand_Int :: "int \<Rightarrow> string + int"
  x509_CreateCertificate :: "x509_Certificate \<Rightarrow> x509_Certificate \<Rightarrow> 'pub \<Rightarrow> 'key \<Rightarrow> string + byte list"
  x509_MarshalPKCS8PrivateKey :: "'key \<Rightarrow> string + byte list"
  pem_Encode :: "string \<Rightarrow> byte list \<Rightarrow> string + byte list"
  tls_X509KeyPair :: "byte list \<Rightarrow> byte list \<Rightarrow> 'cert \<times> string option"

definition certificate_template :: "int \<Rightarrow> int \<Rightarrow> x509_Certificate" where
  "certificate_template serialNumber notBefore =
     \<lparr>SerialNumber = serialNumber, Subject_Organization = [''scionlab''], NotBefore = notBefore,
      NotAfter = notBefore + 365 * 24 * time_Hour,
      KeyUsage = x509_KeyUsageKeyEncipherment OR x509_KeyUsageDigitalSignature,
      ExtKeyUsage = [x509_ExtKeyUsageServerAuth], BasicConstraintsValid = True, DNSNames = [''dummy'']\<rparr>"

section \<open>The certificate\<close>

definition rsaGenerateKey :: "('key, 'pub, 'cert) crypto \<Rightarrow> string + 'key" where
  "rsaGenerateKey lib = rsa_GenerateKey lib 2048"

definition createCertificate ::
  "('key, 'pub, 'cert) crypto \<Rightarrow> int \<Rightarrow> 'key \<Rightarrow> 'cert option \<times> string option" where
  "createCertificate lib now priv =
     (case rand_Int lib (push_bit 128 1) of
        Inl err \<Rightarrow> (None, Some (''failed to generate serial number: '' @ err))
      | Inr serialNumber \<Rightarrow>
          let template = certificate_template serialNumber now in
          (case x509_CreateCertificate lib template template (rsa_PublicKey lib priv) priv of
             Inl err \<Rightarrow> (None, Some err)
           | Inr derBytes \<Rightarrow>
               (case pem_Encode lib ''CERTIFICATE'' derBytes of
                  Inl err \<Rightarrow> (None, Some err)
                | Inr certPEM \<Rightarrow>
                    (case x509_MarshalPKCS8PrivateKey lib priv of
                       Inl err \<Rightarrow> (None, Some (''unable to marshal private key: '' @ err))
                     | Inr privBytes \<Rightarrow>
                         (case pem_Encode lib ''PRIVATE KEY'' privBytes of
                            Inl err \<Rightarrow> (None, Some err)
                          | Inr keyPEM \<Rightarrow>
                              let (cert, err) = tls_X509KeyPair lib certPEM keyPEM in (Some cert, err))))))"

definition GenerateSelfSignedCert ::
  "('key, 'pub, 'cert) crypto \<Rightarrow> int \<Rightarrow> 'cert option \<times> string option" where
  "GenerateSelfSignedCert lib now =
     (case rsaGenerateKey lib of Inl err \<Rightarrow> (None, Some err) | Inr priv \<Rightarrow> createCertificate lib now priv)"

text \<open>An error is a panic.\<close>

definition MustGenerateSelfSignedCert :: "('key, 'pub, 'cert) crypto \<Rightarrow> int \<Rightarrow> 'cert list go" where
  "MustGenerateSelfSignedCert lib now =
     (case GenerateSelfSignedCert lib now of
        (cert, Some err) \<Rightarrow> Inl (ExplicitPanic err)
      | (None, None) \<Rightarrow> Inl NilDereference
      | (Some cert, None) \<Rightarrow> Inr [cert])"

section \<open>Lemmas\<close>

text \<open>The certificate is signed with the key that it certifies, and valid for a year from \<open>now\<close>.\<close>

definition self_signed :: "('key, 'pub, 'cert) crypto \<Rightarrow> int \<Rightarrow> 'cert \<Rightarrow> bool" where
  "self_signed lib now cert \<longleftrightarrow> (\<exists>priv template derBytes certPEM privBytes keyPEM.
     x509_CreateCertificate lib template template (rsa_PublicKey lib priv) priv = Inr derBytes
     \<and> NotBefore template = now \<and> NotAfter template - now = 31536000 * 10 ^ 9
     \<and> bit (KeyUsage template) 0 \<and> bit (KeyUsage template) 2
     \<and> pem_Encode lib ''CERTIFICATE'' derBytes = Inr certPEM
     \<and> x509_MarshalPKCS8PrivateKey lib priv = Inr privBytes \<and> pem_Encode lib ''PRIVATE KEY'' privBytes = Inr keyPEM
     \<and> tls_X509KeyPair lib certPEM keyPEM = (cert, None))"

lemma template_validity:
  "NotBefore (certificate_template n t) = t" "NotAfter (certificate_template n t) - t = 31536000 * 10 ^ 9"
  by (simp_all add: certificate_template_def time_Hour_def)

lemma template_usage: "bit (KeyUsage (certificate_template n t)) 0" "bit (KeyUsage (certificate_template n t)) 2"
  by (simp_all add: certificate_template_def x509_KeyUsageKeyEncipherment_def x509_KeyUsageDigitalSignature_def bit_simps)

lemma createCertificate_nil: "createCertificate lib now priv \<noteq> (None, None)"
  by (auto simp: createCertificate_def Let_def split: sum.split prod.split)

lemma self_signedI:
  assumes "x509_CreateCertificate lib (certificate_template n now) (certificate_template n now) (rsa_PublicKey lib priv) priv
      = Inr derBytes"
    and "pem_Encode lib ''CERTIFICATE'' derBytes = Inr certPEM" "x509_MarshalPKCS8PrivateKey lib priv = Inr privBytes"
    and "pem_Encode lib ''PRIVATE KEY'' privBytes = Inr keyPEM" "tls_X509KeyPair lib certPEM keyPEM = (cert, None)"
  shows "self_signed lib now cert"
  unfolding self_signed_def
  by (intro exI conjI) (rule assms template_validity template_usage)+

lemma createCertificate_self_signed:
  "createCertificate lib now priv = (Some cert, None) \<Longrightarrow> self_signed lib now cert"
  by (auto simp: createCertificate_def Let_def split: sum.splits prod.splits intro: self_signedI)

text \<open>The only panic is the one with the error.\<close>

lemma MustGenerateSelfSignedCert_cases:
  obtains (panic) err where "MustGenerateSelfSignedCert lib now = Inl (ExplicitPanic err)"
      "snd (GenerateSelfSignedCert lib now) = Some err"
  | (cert) cert where "MustGenerateSelfSignedCert lib now = Inr [cert]" "self_signed lib now cert"
proof -
  obtain c e where ce: "GenerateSelfSignedCert lib now = (c, e)" by fastforce
  show thesis
  proof (cases e)
    case None
    with ce obtain priv where priv: "createCertificate lib now priv = (c, None)"
      by (auto simp: GenerateSelfSignedCert_def split: sum.splits)
    with createCertificate_nil [of lib now priv] obtain cert where "c = Some cert" by (cases c) auto
    then show thesis using ce None priv createCertificate_self_signed
      by (intro cert [of cert]) (auto simp: MustGenerateSelfSignedCert_def)
  next
    case (Some err)
    then show thesis using ce by (intro panic [of err]) (simp_all add: MustGenerateSelfSignedCert_def split: option.split)
  qed
qed

end
