(* ===== verification/Config.thy ===== *)
theory Config
  imports Certificate
begin

text \<open>
  The configuration of the process: the PILA settings of \<^verbatim>\<open>pkg/qpenv/scion-pila.go\<close>, the error texts of
  \<^verbatim>\<open>pkg/qperrors/errors.go\<close>, the TLS configurations of \<^verbatim>\<open>pkg/qpcrypto/quic.go\<close> and the host context of
  \<^verbatim>\<open>pkg/qpscion/host.go\<close>.  What is not in the repository (the PILA client, the
  cryptography, the SCION daemon, the file system) is an argument.
\<close>

section \<open>Settings from the environment\<close>

record SCIONPilaSettings =
  TrcFolder :: string
  ServerAddr :: string
  Enabled :: bool

definition PilaSettings :: SCIONPilaSettings where
  "PilaSettings = \<lparr>TrcFolder = ''/etc/scion/certs'', ServerAddr = ''http://localhost:8843'', Enabled = False\<rparr>"

text \<open>\<^verbatim>\<open>os.Getenv\<close> gives the empty string for a variable that is not set.\<close>

definition qpenv_init :: "(string \<Rightarrow> string) \<Rightarrow> SCIONPilaSettings \<Rightarrow> SCIONPilaSettings" where
  "qpenv_init Getenv p0 =
     (let trcFolder = Getenv ''SCION_PILA_TRC_FOLDER'';
          p1 = (if trcFolder \<noteq> '''' then p0\<lparr>TrcFolder := trcFolder\<rparr> else p0);
          serverAddr = Getenv ''SCION_PILA_SERVER_ADDR'';
          p2 = (if serverAddr \<noteq> '''' then p1\<lparr>ServerAddr := serverAddr\<rparr> else p1);
          enabled = Getenv ''SCION_PILA_ENABLED''
      in if enabled \<noteq> '''' \<and> enabled = ''true'' then p2\<lparr>Enabled := True\<rparr> else p2)"

definition PARTS_ERROR_UNKNOWN_PACKET_TYPE :: int where "PARTS_ERROR_UNKNOWN_PACKET_TYPE = 1000"
definition PARTS_ERROR_HANDSHAKE_INVALID :: int where "PARTS_ERROR_HANDSHAKE_INVALID = 1001"
definition PARTS_ERROR_HANDSHAKE_TIMEOUT :: int where "PARTS_ERROR_HANDSHAKE_TIMEOUT = 1002"

definition PartsError :: "int \<rightharpoonup> string" where
  "PartsError = [PARTS_ERROR_UNKNOWN_PACKET_TYPE \<mapsto> ''Unknown packet type'',
     PARTS_ERROR_HANDSHAKE_INVALID \<mapsto> ''Handshake invalid'',
     PARTS_ERROR_HANDSHAKE_TIMEOUT \<mapsto> ''Handshake timeout'']"

section \<open>TLS\<close>

text \<open>The fields of \<^verbatim>\<open>tls.Config\<close> that are set.\<close>

record ('cert, 'verify) tls_Config =
  InsecureSkipVerify :: bool
  Certificates :: "'cert list"
  VerifyPeerCertificate :: "'verify option"
  NextProtos :: "string list"

text \<open>The package \<^verbatim>\<open>scionpila\<close>.\<close>

record ('key, 'csr, 'pem, 'cert, 'verify) pila =
  NewPrivateKey :: 'key
  NewCertificateSigningRequest :: "'key \<Rightarrow> string + 'csr"
  FetchCertificate :: "string \<Rightarrow> string \<Rightarrow> 'csr \<Rightarrow> string + 'pem"
  CreateTLSCertificate :: "'pem \<Rightarrow> 'key \<Rightarrow> string + 'cert list"
  VerifyQUICCertificateChainsHandler :: "string \<Rightarrow> string \<Rightarrow> 'verify"

definition NewQPartsListenTLSConfig ::
  "('key, 'csr, 'pem, 'cert, 'verify) pila \<Rightarrow> ('priv, 'pub, 'cert) crypto \<Rightarrow> int \<Rightarrow> SCIONPilaSettings \<Rightarrow> string
     \<Rightarrow> (string + ('cert, 'verify) tls_Config) go" where
  "NewQPartsListenTLSConfig scionpila lib now settings local =
     (if \<not> Enabled settings then
        go_bind (MustGenerateSelfSignedCert lib now) (\<lambda>certs.
          Inr (Inr \<lparr>InsecureSkipVerify = True, Certificates = certs, VerifyPeerCertificate = None,
                    NextProtos = [''qparts'']\<rparr>))
      else
        let key = NewPrivateKey scionpila in
        Inr (case NewCertificateSigningRequest scionpila key of
          Inl err \<Rightarrow> Inl err
        | Inr csr \<Rightarrow>
            (case FetchCertificate scionpila (ServerAddr settings) local csr of
               Inl err \<Rightarrow> Inl err
             | Inr certificate \<Rightarrow>
                 (case CreateTLSCertificate scionpila certificate key of
                    Inl err \<Rightarrow> Inl err
                  | Inr tlsCerts \<Rightarrow>
                      Inr \<lparr>InsecureSkipVerify = True, Certificates = tlsCerts, VerifyPeerCertificate = None,
                           NextProtos = [''qparts'']\<rparr>))))"

definition NewQPartsDialTLSConfig ::
  "('key, 'csr, 'pem, 'cert, 'verify) pila \<Rightarrow> SCIONPilaSettings \<Rightarrow> string \<Rightarrow> ('cert, 'verify) tls_Config" where
  "NewQPartsDialTLSConfig scionpila settings remote =
     (if \<not> Enabled settings then
        \<lparr>InsecureSkipVerify = True, Certificates = [], VerifyPeerCertificate = None, NextProtos = [''qparts'']\<rparr>
      else
        let remoteVerifyFunc = VerifyQUICCertificateChainsHandler scionpila (TrcFolder settings) remote
        in \<lparr>InsecureSkipVerify = True, Certificates = [], VerifyPeerCertificate = Some remoteVerifyFunc,
            NextProtos = [''qparts'']\<rparr>)"

text \<open>\<^verbatim>\<open>qparts_controlplane.go\<close> has a certificate function of its own.\<close>

definition getCertificateFunc ::
  "('priv, 'pub, 'cert) crypto \<Rightarrow> int \<Rightarrow> 'a \<Rightarrow> ('cert list \<times> string option) go" where
  "getCertificateFunc lib now local = go_bind (MustGenerateSelfSignedCert lib now) (\<lambda>certs. Inr (certs, None))"

section \<open>The host context\<close>

record ('ia, 'conn, 'ip) hostContext =
  hc_ia :: 'ia
  hc_sciond :: "'conn option"
  hc_hostInLocalAS :: "'ip option"

text \<open>What is outside: the environment variable with the daemon's address, the daemon, the topology.\<close>

record ('ia, 'conn, 'ip, 'path) scion_host =
  sh_LookupEnv :: "string \<Rightarrow> string option"
  sh_DefaultAPIAddress :: string
  sh_Connect :: "string \<Rightarrow> string + 'conn"
  sh_LocalIA :: "'conn \<Rightarrow> string + 'ia"
  sh_UnderlayAnycast :: "'conn \<Rightarrow> string + 'ip"
  sh_Paths :: "'conn \<Rightarrow> 'ia \<Rightarrow> string + 'path list"

definition findSciond :: "('ia, 'conn, 'ip, 'path) scion_host \<Rightarrow> string + 'conn" where
  "findSciond sh =
     (let address = (case sh_LookupEnv sh ''SCION_DAEMON_ADDRESS'' of Some a \<Rightarrow> a | None \<Rightarrow> sh_DefaultAPIAddress sh)
      in case sh_Connect sh address of
           Inl err \<Rightarrow> Inl (''unable to connect to SCIOND at '' @ address
             @ '' (override with SCION_DAEMON_ADDRESS): '' @ err)
         | Inr sciondConn \<Rightarrow> Inr sciondConn)"

definition findAnyHostInLocalAS :: "('ia, 'conn, 'ip, 'path) scion_host \<Rightarrow> 'conn \<Rightarrow> string + 'ip" where
  "findAnyHostInLocalAS sh conn = (case sh_UnderlayAnycast sh conn of Inl err \<Rightarrow> Inl err | Inr addr \<Rightarrow> Inr addr)"

definition initHostContext :: "('ia, 'conn, 'ip, 'path) scion_host \<Rightarrow> string + ('ia, 'conn, 'ip) hostContext" where
  "initHostContext sh =
     (case findSciond sh of Inl err \<Rightarrow> Inl err | Inr conn \<Rightarrow>
     (case sh_LocalIA sh conn of Inl err \<Rightarrow> Inl err | Inr localIA \<Rightarrow>
     (case findAnyHostInLocalAS sh conn of Inl err \<Rightarrow> Inl err | Inr ip \<Rightarrow>
        Inr \<lparr>hc_ia = localIA, hc_sciond = Some conn, hc_hostInLocalAS = Some ip\<rparr>)))"

text \<open>\<^verbatim>\<open>initOnce\<close> and \<^verbatim>\<open>singletonHostContext\<close>: nothing before the first call.  An error of the
  initialisation is printed and ends the process.\<close>

datatype 'a process = Exited string | Running 'a

definition host ::
  "('ia, 'conn, 'ip, 'path) scion_host \<Rightarrow> ('ia, 'conn, 'ip) hostContext option
     \<Rightarrow> (('ia, 'conn, 'ip) hostContext \<times> ('ia, 'conn, 'ip) hostContext option) process" where
  "host sh singleton =
     (case singleton of
        Some hc \<Rightarrow> Running (hc, Some hc)
      | None \<Rightarrow>
          (case initHostContext sh of
             Inl err \<Rightarrow> Exited (''Error initializing SCION host context: '' @ err)
           | Inr hc \<Rightarrow> Running (hc, Some hc)))"

definition queryPaths ::
  "('ia, 'conn, 'ip, 'path) scion_host \<Rightarrow> ('ia, 'conn, 'ip) hostContext \<Rightarrow> 'ia \<Rightarrow> (string + 'path list) go" where
  "queryPaths sh h dst =
     (case hc_sciond h of
        None \<Rightarrow> Inl NilDereference
      | Some conn \<Rightarrow> Inr (case sh_Paths sh conn dst of Inl err \<Rightarrow> Inl err | Inr snetPaths \<Rightarrow> Inr snetPaths))"

definition QueryRawPaths ::
  "('ia, 'conn, 'ip, 'path) scion_host \<Rightarrow> ('ia, 'conn, 'ip) hostContext option \<Rightarrow> 'ia
     \<Rightarrow> (string + 'path list) go process" where
  "QueryRawPaths sh singleton remote =
     (case host sh singleton of
        Exited msg \<Rightarrow> Exited msg
      | Running (hc, _) \<Rightarrow> Running (queryPaths sh hc remote))"

text \<open>\<^verbatim>\<open>os.FileMode\<close>: its bit for sockets, and its \<^verbatim>\<open>String\<close>, a letter for each of the upper bits that is set
  and then the nine permissions.\<close>

definition os_ModeSocket :: u32 where "os_ModeSocket = push_bit 24 1"

definition FileMode_String :: "u32 \<Rightarrow> string" where
  "FileMode_String m =
     (let buf = concat (map (\<lambda>i. if m AND push_bit (32 - 1 - i) 1 \<noteq> 0 then [''dalTLDpSugct?'' ! i] else []) [0..<13]);
          buf = (if buf = '''' then ''-'' else buf)
      in buf @ map (\<lambda>i. if m AND push_bit (9 - 1 - i) 1 \<noteq> 0 then ''rwxrwxrwx'' ! i else CHR ''-'') [0..<9])"

definition isSocket :: "u32 \<Rightarrow> bool" where
  "isSocket mode \<longleftrightarrow> mode AND os_ModeSocket \<noteq> 0"

text \<open>\<open>Stat\<close> gives the mode of a file, or an error.\<close>

definition statSocket :: "(string \<Rightarrow> string + u32) \<Rightarrow> string \<Rightarrow> string option" where
  "statSocket Stat path =
     (case Stat path of
        Inl err \<Rightarrow> Some err
      | Inr mode \<Rightarrow>
          if \<not> isSocket mode then Some (path @ '' is not a socket (mode: '' @ FileMode_String mode @ '')'') else None)"

text \<open>\<^verbatim>\<open>addrutil.ResolveLocal\<close> and the conversion of its answer, which fails on a malformed address.\<close>

definition defaultLocalIP ::
  "('ip option \<Rightarrow> 'stdip \<times> string option) \<Rightarrow> ('stdip \<Rightarrow> 'netip option) \<Rightarrow> ('ia, 'conn, 'ip) hostContext
     \<Rightarrow> string option + 'netip" where
  "defaultLocalIP ResolveLocal FromStdIP h =
     (let (stdIP, err) = ResolveLocal (hc_hostInLocalAS h)
      in case (FromStdIP stdIP, err) of (Some ip, None) \<Rightarrow> Inr ip | _ \<Rightarrow> Inl err)"

definition defaultLocalAddr ::
  "('netip \<Rightarrow> bool) \<Rightarrow> string option + 'netip \<Rightarrow> 'netip \<times> u16 \<Rightarrow> string option + 'netip \<times> u16" where
  "defaultLocalAddr unspecified localIP local =
     (if unspecified (fst local)
      then (case localIP of Inl err \<Rightarrow> Inl err | Inr ip \<Rightarrow> Inr (ip, snd local))
      else Inr local)"

section \<open>What is verified\<close>


text \<open>The SCION daemon is asked once: when \<^verbatim>\<open>host\<close> has returned, every later call returns the same
  context, whatever the daemon answers then, and path queries through it do not panic; the first call
  ends the process exactly if the daemon cannot be reached or does not answer one of the two
  questions.\<close>

theorem host_once:
  "case host sh None of
     Exited msg \<Rightarrow> \<exists>err. initHostContext sh = Inl err
   | Running (hc, singleton) \<Rightarrow> initHostContext sh = Inr hc \<and> host sh' singleton = Running (hc, singleton)
       \<and> (\<exists>r. queryPaths sh' hc dst = Inr r)"
  by (auto simp: host_def initHostContext_def queryPaths_def split: sum.split)

end
