(* ===== verification/Quictest.thy ===== *)
theory Quictest
  imports Programs Config
begin

text \<open>
  \<^verbatim>\<open>examples/quictest\<close>: a throughput test over one QUIC stream, which does not use the library: its packets, the
  loops of its sender and of its listener, and how they open the stream.  Its copies of the host context, of
  the certificate functions and of \<^verbatim>\<open>connectedPacketConn\<close> are those of \<open>Config\<close>, \<open>Certificate\<close> and \<open>QuicConn\<close>.
\<close>

section \<open>Packets and turns\<close>

record PartsDataPacket =
  pd_Flags :: u32
  pd_StreamId :: u64
  pd_PartId :: u64
  pd_PartSize :: u32
  pd_PathId :: u32
  pd_SequenceNumber :: u64
  pd_Data :: "byte list"

definition GetDataHeaderLen :: nat where "GetDataHeaderLen = 36"

definition PackData :: "byte list \<Rightarrow> PartsDataPacket \<Rightarrow> byte list go" where
  "PackData buf packet =
     go_bind (go_store 0 (PutUint32 (pd_Flags packet)) buf) (\<lambda>buf.
     go_bind (go_store 4 (PutUint64 (pd_StreamId packet)) buf) (\<lambda>buf.
     go_bind (go_store 12 (PutUint64 (pd_SequenceNumber packet)) buf) (\<lambda>buf.
     go_bind (go_store 20 (PutUint32 (pd_PathId packet)) buf) (\<lambda>buf.
     go_bind (go_store 24 (PutUint64 (pd_PartId packet)) buf) (\<lambda>buf.
     go_store 32 (PutUint32 (pd_PartSize packet)) buf)))))"

definition UnpackData :: "byte list \<Rightarrow> PartsDataPacket go" where
  "UnpackData buf =
     go_bind (get32 buf 0) (\<lambda>flags.
     go_bind (get64 buf 4) (\<lambda>streamId.
     go_bind (get64 buf 12) (\<lambda>sequenceNumber.
     go_bind (get32 buf 20) (\<lambda>pathId.
     go_bind (get64 buf 24) (\<lambda>partId.
     go_bind (get32 buf 32) (\<lambda>partSize.
       Inr \<lparr>pd_Flags = flags, pd_StreamId = streamId, pd_PartId = partId, pd_PartSize = partSize,
            pd_PathId = pathId, pd_SequenceNumber = sequenceNumber, pd_Data = []\<rparr>))))))"

text \<open>\<open>Intn n\<close> is below \<open>n\<close>.\<close>

definition randomInt :: "(int \<Rightarrow> int) \<Rightarrow> int \<Rightarrow> int \<Rightarrow> int go" where
  "randomInt Intn lo hi =
     (if lo > hi then Inl (ExplicitPanic ''min should be less than or equal to max'') else Inr (Intn (hi - lo + 1) + lo))"

definition generateRandomBytes :: "(nat \<Rightarrow> io_err + byte list) \<Rightarrow> nat \<Rightarrow> io_err + byte list" where
  "generateRandomBytes rand_Read n =
     (case rand_Read n of Inl err \<Rightarrow> Inl err | Inr bytes \<Rightarrow> Inr (go_copy (replicate n 0) bytes))"

text \<open>One turn of the loop of \<^verbatim>\<open>dial\<close> with its buffer, and of the inner loop of \<^verbatim>\<open>listen\<close> with its two
  buffers; an error is a panic with the error.  \<^verbatim>\<open>io.CopyN\<close> is the loop of \<^verbatim>\<open>WriteAll\<close>.\<close>

fun error_text :: "io_err \<Rightarrow> string" where
  "error_text EOF = ''EOF''"
| "error_text UnexpectedEOF = ''unexpected EOF''"
| "error_text ShortWrite = ''short write''"
| "error_text InvalidWrite = ''invalid write result''"
| "error_text (IOError msg) = msg"

definition or_panic :: "'a run \<Rightarrow> 'a run" where
  "or_panic m = (case m of Fatal_exit e \<Rightarrow> Crash (ExplicitPanic (error_text e)) | _ \<Rightarrow> m)"

definition test_packet :: "byte list \<Rightarrow> PartsDataPacket" where
  "test_packet data = \<lparr>pd_Flags = 1, pd_StreamId = 1, pd_PartId = 1, pd_PartSize = of_nat (length data), pd_PathId = 1,
     pd_SequenceNumber = 1, pd_Data = []\<rparr>"

definition quictest_send :: "'s qwrite \<Rightarrow> byte list \<Rightarrow> byte list \<Rightarrow> 's \<Rightarrow> (byte list \<times> 's) run" where
  "quictest_send wr data buf s =
     run_bind (of_go (PackData buf (test_packet data))) (\<lambda>buf.
     run_bind (or_panic (io_result (wr s buf))) (\<lambda>(n, s1).
     run_bind (or_panic (io_result (WriteAll wr s1 data))) (\<lambda>(n, s2). Done (buf, s2))))"

definition quictest_dial ::
  "'s qwrite \<Rightarrow> (int \<Rightarrow> int) \<Rightarrow> (nat \<Rightarrow> io_err + byte list) \<Rightarrow> byte list \<Rightarrow> 's \<Rightarrow> (byte list \<times> byte list \<times> 's) run" where
  "quictest_dial wr Intn rand_Read buf s =
     run_bind (of_go (randomInt Intn 100000 7000000)) (\<lambda>size.
     run_bind (or_panic (or_fatal (generateRandomBytes rand_Read (nat size)))) (\<lambda>data.
     run_bind (quictest_send wr data buf s) (\<lambda>(buf, s1). Done (data, buf, s1))))"

definition quictest_listen ::
  "'s qread \<Rightarrow> byte list \<Rightarrow> byte list \<Rightarrow> 's \<Rightarrow> (byte list \<times> byte list \<times> byte list \<times> 's) run" where
  "quictest_listen rd buf data s =
     run_bind (or_panic (io_result (rd s (length buf)))) (\<lambda>(bs, s1).
     let buf = go_copy buf bs in
     run_bind (of_go (UnpackData buf)) (\<lambda>partsPacket.
     run_bind (of_go (go_slice data 0 (unat (pd_PartSize partsPacket)))) (\<lambda>dst.
     run_bind (or_panic (io_result (ReadAll rd s1 (length dst)))) (\<lambda>(got, s2).
       let data = go_copy data got in Done (take (length got) data, buf, data, s2)))))"

section \<open>Opening\<close>

text \<open>The packages \<^verbatim>\<open>snet\<close>, \<^verbatim>\<open>net\<close>, \<^verbatim>\<open>optimizedconn\<close> and \<^verbatim>\<open>quic-go\<close>; a call gives \<open>None\<close> while it waits.
  \<open>ql_Host\<close> is the address of \<^verbatim>\<open>net.UDPAddrFromAddrPort\<close>.\<close>

record ('ua, 'udp, 'ia, 'path, 'conn, 'sess, 'lis, 's, 'cert) quic_lib =
  ql_ParseUDPAddr :: "string \<Rightarrow> string + 'ua"
  ql_IA :: "'ua \<Rightarrow> 'ia"
  ql_Host :: "'ua \<Rightarrow> 'udp"
  ql_optimized_Dial :: "'udp \<Rightarrow> 'ua \<Rightarrow> 'path \<Rightarrow> (string + 'conn) option"
  ql_optimized_Listen :: "'udp \<Rightarrow> (string + 'conn) option"
  ql_Dial :: "'conn \<Rightarrow> 'udp \<Rightarrow> ('cert, unit) tls_Config \<Rightarrow> (string + 'sess) option"
  ql_Listen :: "'conn \<Rightarrow> ('cert, unit) tls_Config \<Rightarrow> (string + 'lis) option"
  ql_OpenStreamSync :: "'sess \<Rightarrow> (string + 's) option"
  ql_Accept :: "'lis \<Rightarrow> (string + 'sess) option"
  ql_AcceptStream :: "'sess \<Rightarrow> (string + 's) option"

definition must :: "(string + 'a) option \<Rightarrow> 'a run" where
  "must r = (case r of None \<Rightarrow> Waiting | Some (Inl err) \<Rightarrow> Crash (ExplicitPanic err) | Some (Inr x) \<Rightarrow> Done x)"

lemma must_simps [simp]:
  "must None = Waiting" "must (Some (Inl err)) = Crash (ExplicitPanic err)" "must (Some (Inr x)) = Done x"
  by (simp_all add: must_def)

definition of_process :: "'a process \<Rightarrow> 'a run" where
  "of_process r = (case r of Exited msg \<Rightarrow> Fatal_exit (IOError msg) | Running x \<Rightarrow> Done x)"

lemma of_process_simps [simp]: "of_process (Exited msg) = Fatal_exit (IOError msg)" "of_process (Running x) = Done x"
  by (simp_all add: of_process_def)

text \<open>The error of \<^verbatim>\<open>queryPaths\<close>, which comes with no paths, is not checked.\<close>

definition quictest_first_path ::
  "('ia, 'conn, 'ip, 'path) scion_host \<Rightarrow> ('ia, 'conn, 'ip) hostContext option \<Rightarrow> 'ia \<Rightarrow> 'path run" where
  "quictest_first_path sh singleton ia =
     run_bind (of_process (host sh singleton)) (\<lambda>(h, singleton).
     run_bind (of_go (queryPaths sh h ia)) (\<lambda>r.
       of_go (go_index (case r of Inl err \<Rightarrow> [] | Inr paths \<Rightarrow> paths) 0)))"

definition quictest_dial_open ::
  "('ua, 'udp, 'ia, 'path, 'conn, 'sess, 'lis, 's, 'cert) quic_lib \<Rightarrow> ('ia, 'sciond, 'ip, 'path) scion_host
     \<Rightarrow> ('ia, 'sciond, 'ip) hostContext option \<Rightarrow> ('s \<times> byte list) run" where
  "quictest_dial_open lib sh singleton =
     run_bind (must (Some (ql_ParseUDPAddr lib ''1-150,127.0.0.1:4443''))) (\<lambda>raddr.
     run_bind (must (Some (ql_ParseUDPAddr lib ''1-150,127.0.0.1:11443''))) (\<lambda>laddr.
     run_bind (quictest_first_path sh singleton (ql_IA lib raddr)) (\<lambda>path.
     run_bind (must (ql_optimized_Dial lib (ql_Host lib laddr) raddr path)) (\<lambda>conn.
     run_bind (must (ql_Dial lib conn (ql_Host lib raddr)
         \<lparr>InsecureSkipVerify = True, Certificates = [], VerifyPeerCertificate = None, NextProtos = [''qparts'']\<rparr>)) (\<lambda>session.
     run_bind (must (ql_OpenStreamSync lib session)) (\<lambda>stream. Done (stream, replicate 36 0)))))))"

definition quictest_listen_open ::
  "('ua, 'udp, 'ia, 'path, 'conn, 'sess, 'lis, 's, 'cert) quic_lib \<Rightarrow> ('key, 'pub, 'cert) crypto \<Rightarrow> int \<Rightarrow> 'lis run" where
  "quictest_listen_open lib cr now =
     run_bind (must (Some (ql_ParseUDPAddr lib ''1-150,127.0.0.1:4443''))) (\<lambda>addr.
     run_bind (must (ql_optimized_Listen lib (ql_Host lib addr))) (\<lambda>conn.
     run_bind (of_go (MustGenerateSelfSignedCert cr now)) (\<lambda>certs.
       must (ql_Listen lib conn
         \<lparr>InsecureSkipVerify = True, Certificates = certs, VerifyPeerCertificate = None, NextProtos = [''qparts'']\<rparr>))))"

text \<open>One session and one stream of it, with the two buffers of its reader.\<close>

definition quictest_store :: "byte list" where "quictest_store = replicate 10000024 0"

definition quictest_accept ::
  "('ua, 'udp, 'ia, 'path, 'conn, 'sess, 'lis, 's, 'cert) quic_lib \<Rightarrow> 'lis \<Rightarrow> ('s \<times> byte list \<times> byte list) run" where
  "quictest_accept lib listener =
     run_bind (must (ql_Accept lib listener)) (\<lambda>sess.
     run_bind (must (ql_AcceptStream lib sess)) (\<lambda>stream. Done (stream, replicate 36 0, quictest_store)))"

section \<open>Many turns\<close>

text \<open>As many turns of the sender as there are draws of random numbers, and a number of turns of the listener,
  with the data of all.\<close>

fun quictest_dial_turns ::
  "'s qwrite \<Rightarrow> ((int \<Rightarrow> int) \<times> (nat \<Rightarrow> io_err + byte list)) list \<Rightarrow> byte list \<Rightarrow> 's \<Rightarrow> (byte list list \<times> 's) run" where
  "quictest_dial_turns wr [] buf s = Done ([], s)"
| "quictest_dial_turns wr ((Intn, rand_Read) # draws) buf s =
     run_bind (quictest_dial wr Intn rand_Read buf s) (\<lambda>(data, buf, s).
     run_bind (quictest_dial_turns wr draws buf s) (\<lambda>(ds, s). Done (data # ds, s)))"

fun quictest_listen_turns :: "'s qread \<Rightarrow> nat \<Rightarrow> byte list \<Rightarrow> byte list \<Rightarrow> 's \<Rightarrow> (byte list list \<times> 's) run" where
  "quictest_listen_turns rd 0 buf store s = Done ([], s)"
| "quictest_listen_turns rd (Suc n) buf store s =
     run_bind (quictest_listen rd buf store s) (\<lambda>(data, buf, store, s).
     run_bind (quictest_listen_turns rd n buf store s) (\<lambda>(ds, s). Done (data # ds, s)))"

section \<open>Lemmas\<close>

lemma or_panic_Done [simp]: "or_panic (Done x) = Done x"
  by (simp add: or_panic_def)

definition test_wire :: "PartsDataPacket \<Rightarrow> byte list" where
  "test_wire p = PutUint32 (pd_Flags p) @ PutUint64 (pd_StreamId p) @ PutUint64 (pd_SequenceNumber p)
     @ PutUint32 (pd_PathId p) @ PutUint64 (pd_PartId p) @ PutUint32 (pd_PartSize p)"

lemma length_test_wire [simp]: "length (test_wire p) = 36"
  by (simp add: test_wire_def)

lemma PackData_wire: "length buf = 36 \<Longrightarrow> PackData buf p = Inr (test_wire p)"
  by (simp add: PackData_def test_wire_def go_store_def)

lemma UnpackData_wire: "UnpackData (test_wire p @ rest) = Inr (p\<lparr>pd_Data := []\<rparr>)"
  by (simp add: UnpackData_def test_wire_def get_defs)

lemma quictest_send_ok:
  assumes "stream_accepts wr sent" "length buf = 36"
  obtains s1 where "quictest_send wr data buf s = Done (test_wire (test_packet data), s1)"
    "sent s1 = sent s @ test_wire (test_packet data) @ data"
proof -
  let ?h = "test_wire (test_packet data)"
  obtain s0 where s0: "wr s ?h = Some (36, None, s0)" "sent s0 = sent s @ ?h"
    using assms(1) unfolding stream_accepts_def by (metis length_test_wire)
  obtain s1 where s1: "WriteAll wr s0 data = Some (length data, None, s1)" "sent s1 = sent s0 @ data"
    using WriteAll_accepts [OF assms(1)] by blast
  have "quictest_send wr data buf s = Done (?h, s1)"
    using s0(1) s1(1) assms(2) by (simp add: quictest_send_def PackData_wire)
  then show thesis by (rule that) (simp add: s0(2) s1(2))
qed

lemma test_packet_wire: "UnpackData (test_wire (test_packet data)) = Inr (test_packet data)"
  using UnpackData_wire [of "test_packet data" "[]"] by (simp add: test_packet_def)

lemma quictest_listen_cases:
  assumes "read_available rd pend" "length buf = 36" "length data < 2 ^ 32"
    and "pend r = test_wire (test_packet data) @ data @ rest"
  shows "if length data \<le> length store
     then \<exists>r1. quictest_listen rd buf store r
        = Done (data, test_wire (test_packet data), data @ drop (length data) store, r1) \<and> pend r1 = rest
     else quictest_listen rd buf store r = Crash SliceBounds"
proof -
  have "pend r \<noteq> []" using assms(4) by (metis append_is_Nil_conv length_0_conv length_test_wire zero_neq_numeral)
  with assms(1) obtain r0 where r0: "rd r 36 = Some (test_wire (test_packet data), None, r0)" "pend r0 = data @ rest"
    by (rule read_availableE [where n = 36]) (simp add: assms(4))
  obtain r1 where r1: "ReadAll rd r0 (length data) = Some (data, None, r1)" "pend r1 = rest"
    using ReadAll_delivers [OF read_available_delivers [OF assms(1)], of "length data" r0] r0(2) by auto
  have "unat (pd_PartSize (test_packet data)) = length data"
    using assms(3) by (simp add: test_packet_def unat_of_nat)
  then show ?thesis using r0(1) r1 test_packet_wire assms(2)
    by (simp add: quictest_listen_def go_copy_full go_slice_def min_def)
qed

text \<open>The documented behaviour of \<^verbatim>\<open>Intn\<close> and of \<^verbatim>\<open>rand.Read\<close> without an error.\<close>

definition drawn :: "(int \<Rightarrow> int) \<times> (nat \<Rightarrow> io_err + byte list) \<Rightarrow> bool" where
  "drawn d \<longleftrightarrow> (\<forall>n > 0. 0 \<le> fst d n \<and> fst d n < n) \<and> (\<forall>n. \<exists>bs. snd d n = Inr bs \<and> length bs = n)"

lemma randomInt_size:
  assumes "\<forall>n > 0. 0 \<le> Intn n \<and> Intn n < n"
  obtains size where "randomInt Intn 100000 7000000 = Inr size" "100000 \<le> size" "size \<le> 7000000"
  using assms [rule_format, of 6900001] by (intro that [of "Intn 6900001 + 100000"]) (auto simp: randomInt_def)

lemma quictest_dial_ok:
  assumes "stream_accepts wr sent" "length buf = 36" "drawn (Intn, rand_Read)"
  obtains data s1 where "quictest_dial wr Intn rand_Read buf s = Done (data, test_wire (test_packet data), s1)"
    "sent s1 = sent s @ test_wire (test_packet data) @ data" "100000 \<le> length data" "length data \<le> 7000000"
proof -
  obtain size where size: "randomInt Intn 100000 7000000 = Inr size" "100000 \<le> size" "size \<le> 7000000"
    by (rule randomInt_size [of Intn]) (use assms(3) in \<open>simp add: drawn_def\<close>)
  obtain data where data: "rand_Read (nat size) = Inr data" "length data = nat size"
    using assms(3) by (auto simp: drawn_def)
  then have r: "generateRandomBytes rand_Read (nat size) = Inr data"
    by (simp add: generateRandomBytes_def go_copy_full)
  obtain s1 where s1: "quictest_send wr data buf s = Done (test_wire (test_packet data), s1)"
    "sent s1 = sent s @ test_wire (test_packet data) @ data" by (rule quictest_send_ok [OF assms(1,2)])
  have "quictest_dial wr Intn rand_Read buf s = Done (data, test_wire (test_packet data), s1)"
    using size(1) r s1(1) by (simp add: quictest_dial_def)
  then show thesis by (rule that) (use s1(2) size(2,3) data(2) in auto)
qed

lemma quictest_turns:
  assumes "stream_accepts wr sent" "length buf = 36" "\<forall>d \<in> set draws. drawn d"
  shows "\<exists>ds s1. quictest_dial_turns wr draws buf s = Done (ds, s1) \<and> length ds = length draws
     \<and> (\<forall>data \<in> set ds. 100000 \<le> length data \<and> length data \<le> 7000000)
     \<and> sent s1 = sent s @ concat (map (\<lambda>data. test_wire (test_packet data) @ data) ds)"
  using assms(2,3)
proof (induction draws arbitrary: buf s)
  case (Cons d draws)
  obtain Intn rand_Read where d: "d = (Intn, rand_Read)" by (rule prod.exhaust)
  with Cons.prems have "drawn (Intn, rand_Read)" by simp
  then obtain data s1 where s1: "quictest_dial wr Intn rand_Read buf s = Done (data, test_wire (test_packet data), s1)"
    "sent s1 = sent s @ test_wire (test_packet data) @ data" "100000 \<le> length data" "length data \<le> 7000000"
    by (rule quictest_dial_ok [OF assms(1) Cons.prems(1)])
  have rest: "\<forall>d \<in> set draws. drawn d" using Cons.prems(2) by simp
  from Cons.IH [OF length_test_wire rest, of "test_packet data" s1] obtain ds s2 where
    "quictest_dial_turns wr draws (test_wire (test_packet data)) s1 = Done (ds, s2)" "length ds = length draws"
    "\<forall>data \<in> set ds. 100000 \<le> length data \<and> length data \<le> 7000000"
    "sent s2 = sent s1 @ concat (map (\<lambda>data. test_wire (test_packet data) @ data) ds)" by blast
  with s1 show ?case by (intro exI [of _ "data # ds"] exI [of _ s2]) (simp add: d)
qed simp

lemma quictest_listens:
  assumes "read_available rd pend" "length buf = 36" "\<forall>data \<in> set ds. length data \<le> length store \<and> length data < 2 ^ 32"
    and "pend r = concat (map (\<lambda>data. test_wire (test_packet data) @ data) ds) @ rest"
  shows "\<exists>r1. quictest_listen_turns rd (length ds) buf store r = Done (ds, r1) \<and> pend r1 = rest"
  using assms(2-4)
proof (induction ds arbitrary: buf store r)
  case (Cons data ds)
  have p: "length data < 2 ^ 32" "length data \<le> length store"
    "pend r = test_wire (test_packet data) @ data @ concat (map (\<lambda>data. test_wire (test_packet data) @ data) ds) @ rest"
    using Cons.prems(2,3) by simp_all
  let ?store = "data @ drop (length data) store"
  obtain r1 where r1: "quictest_listen rd buf store r = Done (data, test_wire (test_packet data), ?store, r1)"
    "pend r1 = concat (map (\<lambda>data. test_wire (test_packet data) @ data) ds) @ rest"
    using quictest_listen_cases [OF assms(1) Cons.prems(1) p(1,3), of store] p(2) by auto
  have "\<forall>data \<in> set ds. length data \<le> length ?store \<and> length data < 2 ^ 32" using Cons.prems(2) p(2) by simp
  from Cons.IH [OF length_test_wire this r1(2), of "test_packet data"] r1(1) show ?case by auto
qed simp

section \<open>What \<^verbatim>\<open>quictest\<close> does\<close>

text \<open>A turn of its sender writes a header and the data, and a
  listener that finds them on its stream, whatever is left in its two buffers from earlier packets,
  reads back the header of that packet and exactly its data, leaving what follows; data that
  does not fit its buffer is a panic.  Every size that the sender draws fits.\<close>

theorem quictest_receives:
  assumes "stream_accepts wr sent" "read_available rd pend" "length buf = 36" "length buf' = 36" "length data < 2 ^ 32"
  shows "\<exists>s1. quictest_send wr data buf s = Done (test_wire (test_packet data), s1)
     \<and> UnpackData (test_wire (test_packet data)) = Inr (test_packet data)
     \<and> (\<forall>r store rest. pend r = drop (length (sent s)) (sent s1) @ rest \<longrightarrow>
          (if length data \<le> length store
           then \<exists>r1. quictest_listen rd buf' store r
                  = Done (data, test_wire (test_packet data), data @ drop (length data) store, r1) \<and> pend r1 = rest
           else quictest_listen rd buf' store r = Crash SliceBounds))
     \<and> ((\<forall>n > 0. 0 \<le> Intn n \<and> Intn n < n) \<longrightarrow>
          (\<exists>size. randomInt Intn 100000 7000000 = Inr size \<and> 0 < size \<and> size \<le> 10000024))"
proof -
  obtain s1 where "quictest_send wr data buf s = Done (test_wire (test_packet data), s1)"
    "sent s1 = sent s @ test_wire (test_packet data) @ data" by (rule quictest_send_ok [OF assms(1,3)])
  moreover have "\<exists>size. randomInt Intn 100000 7000000 = Inr size \<and> 0 < size \<and> size \<le> 10000024"
    if "\<forall>n > 0. 0 \<le> Intn n \<and> Intn n < n"
    using randomInt_size [OF that] by fastforce
  ultimately show ?thesis using quictest_listen_cases [OF assms(2,4,5)] test_packet_wire [of data]
    by (intro exI [of _ s1]) simp
qed

lemma length_two: "length [7, 8 :: byte] < 2 ^ 32"
  by simp

theorem quictest_receives_witness:
  "\<exists>s1 r1. quictest_send memory_write [7, 8] (replicate 36 0) [] = Done (test_wire (test_packet [7, 8]), s1)
     \<and> quictest_listen memory_read (replicate 36 1) [0, 0, 9] (s1 @ [3])
         = Done ([7, 8], test_wire (test_packet [7, 8]), [7, 8, 9], r1) \<and> r1 = [3]"
proof -
  have av: "read_available memory_read id" by (simp add: read_available_def memory_read_def)
  obtain s1 where s1: "quictest_send memory_write [7, 8] (replicate 36 0) [] = Done (test_wire (test_packet [7, 8]), s1)"
    and l: "\<forall>r store rest. id r = drop (length (id ([] :: byte list))) (id s1) @ rest \<longrightarrow>
      (if length [7, 8 :: byte] \<le> length store
       then \<exists>r1. quictest_listen memory_read (replicate 36 1) store r
           = Done ([7, 8], test_wire (test_packet [7, 8]), [7, 8] @ drop (length [7, 8 :: byte]) store, r1) \<and> id r1 = rest
       else quictest_listen memory_read (replicate 36 1) store r = Crash SliceBounds)"
    using quictest_receives [where s = "[]" and buf = "replicate 36 0" and buf' = "replicate 36 1", OF memory_write av
      length_replicate length_replicate length_two] by blast
  have "\<exists>r1. quictest_listen memory_read (replicate 36 1) [0, 0, 9] (s1 @ [3])
      = Done ([7, 8], test_wire (test_packet [7, 8]), [7, 8, 9], r1) \<and> r1 = [3]"
    using l [rule_format, of "s1 @ [3]" "[3]" "[0, 0, 9]"] by simp
  with s1 show ?thesis by blast
qed


text \<open>Two turns over a stream in memory.\<close>

definition memory_lib :: "(nat, nat, nat, nat, nat, nat, nat, byte list, nat) quic_lib" where
  "memory_lib = \<lparr>ql_ParseUDPAddr = (\<lambda>addr. Inr (length addr)), ql_IA = id, ql_Host = id,
     ql_optimized_Dial = (\<lambda>l r path. Some (Inr path)), ql_optimized_Listen = (\<lambda>l. Some (Inr l)),
     ql_Dial = (\<lambda>c r tls. Some (Inr c)), ql_Listen = (\<lambda>c tls. Some (Inr c)), ql_OpenStreamSync = (\<lambda>c. Some (Inr [])),
     ql_Accept = (\<lambda>l. Some (Inr l)), ql_AcceptStream = (\<lambda>c. Some (Inr []))\<rparr>"

definition one_path_host :: "(nat, nat, nat, nat) scion_host" where
  "one_path_host = \<lparr>sh_LookupEnv = (\<lambda>_. None), sh_DefaultAPIAddress = ''d'', sh_Connect = (\<lambda>_. Inr 0), sh_LocalIA = (\<lambda>_. Inr 1),
     sh_UnderlayAnycast = (\<lambda>_. Inr 2), sh_Paths = (\<lambda>_ _. Inr [7])\<rparr>"

definition smallest :: "(int \<Rightarrow> int) \<times> (nat \<Rightarrow> io_err + byte list)" where
  "smallest = (\<lambda>_. 0, \<lambda>n. Inr (replicate n 5))"


text \<open>Without a path to the peer, or if the daemon fails, \<^verbatim>\<open>dial\<close> panics at the first path.\<close>

theorem quictest_no_paths:
  assumes "ql_ParseUDPAddr lib ''1-150,127.0.0.1:4443'' = Inr raddr" "ql_ParseUDPAddr lib ''1-150,127.0.0.1:11443'' = Inr laddr"
    and "host sh singleton = Running (h, singleton')" "hc_sciond h = Some c"
    and "sh_Paths sh c (ql_IA lib raddr) = Inr [] \<or> sh_Paths sh c (ql_IA lib raddr) = Inl err"
  shows "quictest_dial_open lib sh singleton = Crash IndexOutOfRange"
  using assms by (auto simp: quictest_dial_open_def quictest_first_path_def queryPaths_def go_index_def)

end
