(* ===== verification/Spec2Isabelle.thy ===== *)
theory Spec2Isabelle
  imports Streams Session Startup Application Invariant Congestion Logging Quictest
begin

text \<open>
  \<^bold>\<open>Q-PARTS\<close> is a transport protocol that spreads the bytes of a stream over several QUIC streams,
  each over its own SCION path.  This development models the Go implementation and proves what makes
  its components correct, and where they are not.

  \<^bold>\<open>The program.\<close>  An application opens a connection (\<^verbatim>\<open>Dial\<close>, \<^verbatim>\<open>Listen\<close>, \<^verbatim>\<open>Accept\<close> in \<^verbatim>\<open>qparts.go\<close>,
  \<^verbatim>\<open>qparts_listener.go\<close>, \<^verbatim>\<open>qparts_conn.go\<close>).  The control plane (\<^verbatim>\<open>qparts_controlplane.go\<close>) exchanges
  handshakes over one QUIC stream, opens one more QUIC stream per selected path (the races) and then
  handles the packets that open streams and change their preference.  A \<^verbatim>\<open>Write\<close> on a stream
  (\<^verbatim>\<open>qparts_stream.go\<close>) asks the scheduler (\<^verbatim>\<open>scheduler.go\<close>, \<^verbatim>\<open>scheduler_ecmp.go\<close>) to cut the data into
  parts and to assign each to a QUIC stream; the data plane (\<^verbatim>\<open>qparts_dataplane.go\<close>) queues the parts,
  one write loop per QUIC stream sends them behind a header, and the sender waits on a completion
  object (\<^verbatim>\<open>qparts_dataplane_completion.go\<close>) until all are sent.  One read loop per QUIC stream on the
  other side collects the parts of a sequence in a completion object of its own and appends the
  complete sequence to the read buffer of the stream.  The QUIC connections report packets and losses
  to the metrics (\<^verbatim>\<open>pkg/qpmetrics\<close>), from which path selection and the congestion detection read.

  \<^bold>\<open>The theories\<close>, each below the ones it imports:
  \<^item> \<open>Prelude\<close>: Go integers as words, panics as the sum \<open>'a go\<close>, slices, big-endian accessors.
  \<^item> \<open>PacketCodec\<close> (\<^verbatim>\<open>pkg/qpproto\<close>): the three packets; round trips, bijection, panics on short buffers,
    through the locale \<open>wire_codec\<close>.
  \<^item> \<open>Buffers\<close> (\<^verbatim>\<open>pkg/qpnet/queue.go\<close>, \<^verbatim>\<open>packet_buf.go\<close>): the blocking queue with its waiters as a
    transition system, and the read buffer, through \<open>blocking_fifo\<close> and \<open>byte_buffer\<close>.
  \<^item> \<open>QuicConn\<close> (\<^verbatim>\<open>single_stream_quic_conn.go\<close>, \<^verbatim>\<open>silence.go\<close>): \<^verbatim>\<open>io.ReadFull\<close> and \<^verbatim>\<open>io.CopyN\<close> on a QUIC
    stream, opening connections, the log silencer.
  \<^item> \<open>Scheduler\<close> (\<^verbatim>\<open>scheduler_ecmp.go\<close>, \<^verbatim>\<open>ext_queue.go\<close>): \<^verbatim>\<open>splitBytes\<close>, \<^verbatim>\<open>ScheduleWrite\<close>, the queue of sequences.
  \<^item> \<open>Completion\<close>: the completion objects on an explicit heap and their store, through \<open>keyed_store\<close>.
  \<^item> \<open>Dataplane\<close>: streams, \<^verbatim>\<open>WriteForStream\<close>, the bodies of the loops.  \<open>Invariant\<close>: the data plane as a
    transition system with its type invariant.  \<open>Delivery\<close>: what any interleaving of write loops sends
    and of read loops delivers, for one sequence.  \<open>Streams\<close>: \<^verbatim>\<open>Read\<close>, \<^verbatim>\<open>Write\<close>, deadlines.
  \<^item> \<open>Channel\<close>, \<open>Writers\<close>, \<open>Connection\<close>: any number of sequences at once.  \<open>Channel\<close>: the read loops refine an
    abstract channel that delivers whole sequences in some order.  \<open>Writers\<close>: concurrent calls of
    \<^verbatim>\<open>WriteForStream\<close>, cut at their calls of \<^verbatim>\<open>Queue.Add\<close> and interleaved with each other and with the write
    loops.  \<open>Connection\<close>: both, and the transport of the bytes in pieces of any size, interleaved in any way,
    refine the channel and in the end deliver everything.
  \<^item> \<open>SortSlice\<close>: \<^verbatim>\<open>sort.Slice\<close>, through \<open>slice_order\<close>.  \<open>Paths\<close> (\<^verbatim>\<open>pkg/qpscion/paths.go\<close>, \<^verbatim>\<open>path_cache.go\<close>),
    whose \<open>sorter_key\<close> is an instance of \<open>linorder\<close>, \<open>Metrics\<close> (\<^verbatim>\<open>metrics.go\<close>, \<^verbatim>\<open>quic_conn_tracer.go\<close>),
    \<open>PathSelection\<close> (the rest of the scheduler).
  \<^item> \<open>Float64\<close> and \<open>Congestion\<close>: IEEE rounding, and the detection of shared bottlenecks.
  \<^item> \<open>ControlPlane\<close> and \<open>Handshake\<close>: opening, accepting and changing streams; connecting, listening, the
    races; the entry points.
  \<^item> \<open>Logging\<close>, \<open>Certificate\<close> and \<open>Config\<close>: the logger; the self-signed certificate
    (\<^verbatim>\<open>certs_insecure.go\<close>); settings, TLS configurations and the host context.
  \<^item> \<open>Programs\<close> (\<^verbatim>\<open>examples\<close>): the programs that use the library, from the open stream on: a file
    transferred over the data plane, and what happens when its two writes overtake each other.
  \<^item> \<open>Startup\<close>: the same programs from their arguments to the open stream, cut at the waits for the other
    side, and whole sessions of a client and a server, which transfer nothing.  \<open>Quictest\<close>: the program that
    uses QUIC directly.
  \<^item> \<open>Application\<close>: concurrent calls of \<^verbatim>\<open>PartsStream.Write\<close> with the scheduler, over \<open>Connection\<close>.
  \<^item> \<open>Session\<close>: from the races on; the streams that they open make a fresh connection of \<open>Connection\<close>.
  \<^item> This theory: the data path from \<^verbatim>\<open>Write\<close> to the peer's \<^verbatim>\<open>Read\<close>, and from \<^verbatim>\<open>Dial\<close> to \<^verbatim>\<open>Write\<close>.

  \<^bold>\<open>Conventions.\<close>  A definition has the name of the Go function, with a prefix where two types have
  methods of the same name.  A method takes the state of its object and returns the new one; a run-time
  panic is \<open>Inl\<close> of a \<open>go_fault\<close>, a Go \<^verbatim>\<open>error\<close> an \<open>io_err option\<close>, a call that may wait a
  \<open>loop_result\<close> or an \<open>option\<close> with \<open>None\<close> for waiting.  Pointers that several goroutines share are
  indices into an explicit heap (the completion objects) or keys of the map that owns the object (the
  data plane streams).  Goroutines are interleaved at the points where they wait: one pass of a write
  loop is one step, a pass of a read loop two, a call of the control plane is cut at its wait for a
  reply; schedules are lists of turns and the theorems hold for all of them.  The iteration order of a
  Go map and every random number is an argument.  QUIC streams are a state with a read and a write
  function, which the theorems constrain by the contracts of \<^verbatim>\<open>io.Reader\<close> and \<^verbatim>\<open>io.Writer\<close> for an
  ordered reliable stream (\<open>stream_delivers\<close>, \<open>stream_accepts\<close>, \<open>writer_contract\<close>, \<open>duplex\<close>); the
  witnesses instantiate them with streams in memory.

  \<^bold>\<open>Bounds and fuel.\<close>  The loops of \<^verbatim>\<open>io.ReadFull\<close> and \<^verbatim>\<open>io.CopyN\<close> are partial functions with \<open>None\<close> for
  not returning, and the theorems that they return are proved.  Schedules in liveness theorems give each
  loop as many turns as it has parts, which \<open>5 * n\<close> bounds for \<open>n\<close> streams because \<^verbatim>\<open>ScheduleWrite\<close>
  cuts the share of a stream into five parts.  Allocation is bounded by \<open>2^48\<close> bytes, as in the Go
  run-time on linux/amd64; the counter of the log silencer is a 32-bit word, hence the bounds \<open>2^31\<close>.

  \<^bold>\<open>Not modelled.\<close>  \<^verbatim>\<open>scheduler_sbd.go\<close> and the second half of \<^verbatim>\<open>packet_buf.go\<close> are commented out;
  \<^verbatim>\<open>examples/quictest/host.go\<close> and parts of \<^verbatim>\<open>examples/quictest/main.go\<close> are copies of code that is modelled
  elsewhere; its \<^verbatim>\<open>main\<close>, which starts \<^verbatim>\<open>listen\<close> and \<^verbatim>\<open>dial\<close> three seconds apart, is left out.  The
  cryptography, the SCION daemon, QUIC, the file system and the time are arguments.  Log messages and
  prints are left out, except in \<open>Logging\<close> and \<open>Congestion\<close>, which are about them.  Data races inside
  one step, which Go leaves undefined, are not modelled.
\<close>

section \<open>The data path from end to end\<close>

definition two_streams :: "(nat, nat, byte list) QPartsDataplane" where
  "two_streams = AddDialStream 2 [] (Some 0) (AddDialStream 1 [] (Some 0) (NewQPartsDataplane Map.empty))"

lemma two_streams [simp]:
  "dom (dpl_Streams two_streams) = {1, 2}" "idle two_streams"
  "Completions (dpl_completionStore two_streams) = Map.empty"
  "dpl_Streams two_streams k = Some st \<Longrightarrow> ds_ssqc st = []"
  by (auto simp: two_streams_def AddDialStream_def NewQPartsDataplane_def idle_def ran_def NewQueue_def
      NewCompletionStore_def split: if_splits)

definition with_stream :: "u64 \<Rightarrow> ('a, 'p, 's) QPartsDataplane \<Rightarrow> ('a, 'p, 's) QPartsDataplane" where
  "with_stream i dp = dp\<lparr>dpl_QPartsStreams := [i \<mapsto> NewPartsStream i], dpl_completionStore := NewCompletionStore\<rparr>"

text \<open>C4: A \<^verbatim>\<open>Write\<close> on a \<^verbatim>\<open>PartsStream\<close> reaches the peer's \<^verbatim>\<open>Read\<close>.  The data is split over the
  streams of the data plane, queued, sent by the write loops in any schedule that gives each loop
  enough turns, and \<^verbatim>\<open>Write\<close> then returns the number of bytes; whatever the order in which the
  peer's read loops take their turns after that, the sequence is put together and appended to the
  read buffer of the stream with the same id, once and unchanged, so that \<^verbatim>\<open>io.ReadFull\<close> on that
  stream returns exactly these bytes after the ones that were already there.\<close>

theorem write_reaches_read:
  fixes dp :: "('addr, 'path, 's) QPartsDataplane"
  assumes "stream_accepts wr sent" "stream_delivers rd pend" "stream_blocks rd pend"
    and "finite (dom (dpl_Streams dp))" "idle dp" "write_open now s"
    and "splittable b (dom (dpl_Streams dp))" "visits order1 (dom (dpl_Streams dp))"
      "visits order2 (dom (dpl_Streams dp))"
    and "Completions (dpl_completionStore dp) rnd = None"
    and "turns (5 * card (dom (dpl_Streams dp))) (dom (dpl_Streams dp)) ws"
  shows "\<exists>A dp1 dp2. Stream_Write now b order1 order2 rnd remote s dp = Inr (Inr (A, length b, dp1))
     \<and> run_writers wr ws dp1 = Inr dp2 \<and> WriteForStream_returns A dp2
     \<and> (\<forall>(rdp :: ('addr, 'path, 't) QPartsDataplane) s0 peer rs now'.
          receiver_ready sent pend peer dp dp2 (ps_Id s) rnd s0 rdp \<and> read_open now' s0
            \<and> turns (10 * card (dom (dpl_Streams dp))) (peer ` dom (dpl_Streams dp)) rs
          \<longrightarrow> (\<exists>rdp' held s1 s2. run_readers rd rs (rdp, Map.empty) = Inr (rdp', held)
            \<and> dpl_QPartsStreams rdp' (ps_Id s) = Some s1
            \<and> pb_buffer (ps_ReadBuffer s1) = pb_buffer (ps_ReadBuffer s0) @ b
            \<and> ReadAll (stream_rd now') s1 (length (pb_buffer (ps_ReadBuffer s0) @ b))
                = Some (pb_buffer (ps_ReadBuffer s0) @ b, None, s2)))"
proof -
  let ?K = "dom (dpl_Streams dp)"
  obtain das A dp1 dp2 where w: "Stream_Write now b order1 order2 rnd remote s dp = Inr (Inr (A, length b, dp1))"
    "run_writers wr ws dp1 = Inr dp2" "WriteForStream_returns A dp2"
    and das: "sendable (map da_Data das)" "placed das ?K" "concat (map da_Data das) = b"
      "length das \<le> 5 * card ?K" "has_sent sent (ps_Id s) rnd das dp dp2"
    using Stream_Write_sends [OF assms(1,4-11)] by blast
  have "\<exists>rdp' held s1 s2. run_readers rd rs (rdp, Map.empty) = Inr (rdp', held)
      \<and> dpl_QPartsStreams rdp' (ps_Id s) = Some s1
      \<and> pb_buffer (ps_ReadBuffer s1) = pb_buffer (ps_ReadBuffer s0) @ b
      \<and> ReadAll (stream_rd now') s1 (length (pb_buffer (ps_ReadBuffer s0) @ b))
          = Some (pb_buffer (ps_ReadBuffer s0) @ b, None, s2)"
    if "receiver_ready sent pend peer dp dp2 (ps_Id s) rnd s0 rdp" "read_open now' s0"
      "turns (10 * card ?K) (peer ` ?K) rs"
    for rdp :: "('addr, 'path, 't) QPartsDataplane" and s0 peer rs now'
  proof -
    from that have c: "peer_connected sent pend peer dp dp2 rdp" "dpl_QPartsStreams rdp (ps_Id s) = Some s0"
      "Completions (dpl_completionStore rdp) rnd = None" "turns (2 * (5 * card ?K)) (peer ` ?K) rs"
      by (simp_all add: receiver_ready_def)
    let ?s1 = "delivered s0 b" and ?buf = "pb_buffer (ps_ReadBuffer s0) @ b"
    obtain rdp' held where r: "run_readers rd rs (rdp, Map.empty) = Inr (rdp', held)"
      "dpl_QPartsStreams rdp' = (dpl_QPartsStreams rdp)(ps_Id s \<mapsto> ?s1)"
      using connected_delivers [OF das(5) c(1) assms(2,3) das(1,2) c(2,3) das(4) c(4)] das(3) by auto
    have s1: "readable now' ?s1 = ?buf" "pb_buffer (ps_ReadBuffer ?s1) = ?buf"
      using that(2) by (simp_all add: readable_def delivered_def read_open_def pb_Append_def)
    obtain s2 where "ReadAll (stream_rd now') ?s1 (length ?buf) = Some (?buf, None, s2)"
      using ReadAll_delivers [OF stream_rd_delivers, of "length ?buf" now' ?s1] s1(1) by auto
    moreover have "dpl_QPartsStreams rdp' (ps_Id s) = Some ?s1" using r(2) by simp
    ultimately show ?thesis using r(1) s1(2) by blast
  qed
  with w show ?thesis by blast
qed

text \<open>1200 bytes over two streams, every loop taking turns in a round-robin.\<close>

theorem write_reaches_read_witness:
  "\<exists>A dp1 dp2 rdp' held s1. Stream_Write 5 (replicate 1200 7) [1, 2] [2, 1] 77 None (NewPartsStream 9) two_streams
       = Inr (Inr (A, 1200, dp1))
     \<and> run_writers memory_write (concat (replicate 10 [1, 2])) dp1 = Inr dp2 \<and> WriteForStream_returns A dp2
     \<and> run_readers memory_read (concat (replicate 20 [1, 2])) (with_stream 9 dp2, Map.empty) = Inr (rdp', held)
     \<and> dpl_QPartsStreams rdp' 9 = Some s1 \<and> pb_buffer (ps_ReadBuffer s1) = replicate 1200 7"
proof -
  let ?s = "NewPartsStream 9" and ?K = "dom (dpl_Streams two_streams)" and ?b = "replicate 1200 (7 :: byte)"
  have s: "ps_Id ?s = 9" "pb_buffer (ps_ReadBuffer ?s) = []" "read_open 5 ?s" "write_open 5 ?s"
    by (simp_all add: NewPartsStream_def NewPacketBuffer_def read_open_def write_open_def)
  have t: "turns (5 * card ?K) ?K (concat (replicate 10 [1, 2]))"
    "turns (10 * card ?K) (id ` ?K) (concat (replicate 20 [1, 2]))"
    by (simp_all add: turns_def numeral_eq_Suc)
  have c: "splittable ?b ?K" "visits [1, 2] ?K" "visits [2, 1] ?K" "finite ?K" "idle two_streams"
    "Completions (dpl_completionStore two_streams) 77 = None"
    by (auto simp: splittable_def visits_def maxAlloc_def)
  have ready: "receiver_ready id id id two_streams dp2 9 77 ?s (with_stream 9 dp2)" for dp2
    by (auto simp: receiver_ready_def peer_connected_def with_stream_def NewCompletionStore_def)
  from write_reaches_read [OF memory_write memory_read c(4,5) s(4) c(1-3,6) t(1), of None] show ?thesis
    unfolding s(1) using ready s(3) t(2) s(2) by (metis (no_types, lifting) append_Nil length_replicate)
qed

section \<open>From the connection to the data path\<close>

text \<open>A connection whose data plane streams have been dialled can be written to: after a race that
  opens \<open>n > 0\<close> streams without an error, a \<^verbatim>\<open>Write\<close> of enough bytes on a new stream of the connection
  is split over just these streams, and when each of their write loops has had enough turns, it has
  returned the number of its bytes, and the data plane is idle again.\<close>

theorem dialled_connection_writes:
  fixes c :: "('h, 'm, 's) QPartsConn"
  assumes "duplex (env_read env) (env_write env) pend sent" "race_ready c" "distinct (env_finish env)"
    and "{..<n} \<subseteq> set (env_finish env)" "inj_on (env_ids env) {..<n}" "k + n < 2 ^ 31"
    and "\<And>i. i < n \<Longrightarrow> \<exists>s. env_opens env i = open_ok s \<and> 13 \<le> length (pend s)"
    and "n = length (cp_initialPathSelection (conn_ControlPlane c))" "0 < n"
    and "dpl_Streams (conn_Dataplane c) = Map.empty" "Completions (dpl_completionStore (conn_Dataplane c)) rnd = None"
    and "splittable b (env_ids env ` {..<n})" "visits order1 (env_ids env ` {..<n})" "visits order2 (env_ids env ` {..<n})"
    and "turns (5 * n) (env_ids env ` {..<n}) ws"
  shows "\<exists>k' c'. RaceDialDataplaneStreams env (silenced w k) c = Goes (None, silenced w k', c')
     \<and> (\<exists>A dp1 dp2. Stream_Write now b order1 order2 rnd (conn_remote c') (new_stream i pref) (conn_Dataplane c')
           = Inr (Inr (A, length b, dp1))
         \<and> run_writers (env_write env) ws dp1 = Inr dp2 \<and> WriteForStream_returns A dp2 \<and> idle dp2)"
proof -
  from dial_race_ok [OF assms(1-8), of w] obtain X k' where
    r: "RaceDialDataplaneStreams env (silenced w k) c = Goes (None, silenced w k', set_streams X c)"
    and X: "\<forall>i s. i < n \<and> env_opens env i = open_ok s \<longrightarrow> (\<exists>s'. X (env_ids env i)
         = Some (fresh_stream (Some (cp_initialPathSelection (conn_ControlPlane c) ! i)) s') \<and> sent s' = sent s @ hello \<and> pend s' = drop 13 (pend s))"
      "\<forall>j. j \<notin> env_ids env ` {..<n} \<longrightarrow> X j = dpl_Streams (conn_Dataplane c) j" by blast
  note dp = raced_streams [OF X assms(7,10)]
  let ?dp = "conn_Dataplane (set_streams X c)"
  have dom: "dom (dpl_Streams ?dp) = env_ids env ` {..<n}" "card (env_ids env ` {..<n}) = n"
    using dp(1) card_image [OF assms(5)] by simp_all
  have "write_open now (new_stream i pref)" by (simp add: write_open_def new_stream_def NewPartsStream_def)
  then show ?thesis
    using r Stream_Write_sends [OF duplexD(3) [OF assms(1)], of ?dp now "new_stream i pref" b order1 order2 rnd ws
        "conn_remote (set_streams X c)"] assms(11-15) dp(2,3) unfolding dom by auto
qed

theorem dialled_connection_writes_witness:
  "\<exists>k' c'. RaceDialDataplaneStreams example_env (silenced (Some (Writer 1)) 0) shaken_host
       = Goes (None, silenced (Some (Writer 1)) k', c')
     \<and> (\<exists>A dp1 dp2. Stream_Write 0 [1, 2, 3] [0] [0] 77 (conn_remote c') (new_stream 5 0) (conn_Dataplane c') = Inr (Inr (A, 3, dp1))
         \<and> run_writers pair_write [0, 0, 0, 0, 0] dp1 = Inr dp2 \<and> WriteForStream_returns A dp2)"
proof -
  have e: "distinct (env_finish example_env)" "{..<1} \<subseteq> set (env_finish example_env)" "inj_on (env_ids example_env) {..<1}"
    "(0 :: nat) + 1 < 2 ^ 31" "env_ids example_env ` {..<1} = {0}" "env_write example_env = pair_write"
    by (auto simp: example_env_def inj_on_def)
  have opens: "\<exists>s. env_opens example_env i = open_ok s \<and> 13 \<le> length (fst s)" for i
    by (rule exI [of _ "(hello, [])"]) (simp add: example_env_def)
  have c: "Completions (dpl_completionStore (conn_Dataplane shaken_host)) 77 = None"
    by (simp add: shaken_host_def NewQPartsConn_def NewQPartsDataplane_def NewCompletionStore_def)
  have b: "splittable [1, 2, 3] (env_ids example_env ` {..<1})" "visits [0] (env_ids example_env ` {..<1})"
    "turns (5 * 1) (env_ids example_env ` {..<1}) [0, 0, 0, 0, 0]"
    unfolding e(5) by (simp_all add: splittable_def maxAlloc_def visits_def turns_def)
  have "length [1, 2, 3 :: byte] = 3" by simp
  with dialled_connection_writes [OF example_env shaken_host(1) e(1-4) opens shaken_host(2) [symmetric] zero_less_one
      shaken_host(3) c b(1,2,2,3), of "Some (Writer 1)" 0 5 0]
  show ?thesis unfolding e(6) by metis
qed

text \<open>What the network does between two hosts whose data plane streams are numbered \<open>ids\<close> and \<open>ids'\<close>: the
  bytes that \<open>dp'\<close> has sent since \<open>dp\<close> wait to be read on the other host, which is \<open>ddp\<close> otherwise.\<close>

definition carried ::
  "('s \<Rightarrow> byte list) \<Rightarrow> ('t \<Rightarrow> byte list) \<Rightarrow> nat \<Rightarrow> (nat \<Rightarrow> u64) \<Rightarrow> (nat \<Rightarrow> u64) \<Rightarrow> ('addr, 'path, 's) QPartsDataplane
     \<Rightarrow> ('addr, 'path, 's) QPartsDataplane \<Rightarrow> ('addr, 'path, 't) QPartsDataplane \<Rightarrow> ('addr, 'path, 't) QPartsDataplane \<Rightarrow> bool" where
  "carried sent pend n ids ids' dp dp' ddp rdp \<longleftrightarrow> dpl_QPartsStreams rdp = dpl_QPartsStreams ddp
     \<and> dpl_completionStore rdp = dpl_completionStore ddp
     \<and> (\<forall>i < n. \<forall>st st' dst. dpl_Streams dp (ids i) = Some st \<longrightarrow> dpl_Streams dp' (ids i) = Some st'
          \<longrightarrow> dpl_Streams ddp (ids' i) = Some dst \<longrightarrow>
            (\<exists>x. dpl_Streams rdp (ids' i) = Some (dst\<lparr>ds_ssqc := x\<rparr>)
               \<and> pend x = drop (length (sent (ds_ssqc st))) (sent (ds_ssqc st'))))"

lemma carried_connected:
  assumes "carried sent pend n ids ids' dp dp' ddp rdp" "has_sent sent sid rnd das dp dp'"
    and "inj_on ids {..<n}" "inj_on ids' {..<n}" "dom (dpl_Streams dp) = ids ` {..<n}"
    and "\<forall>i < n. dpl_Streams ddp (ids' i) \<noteq> None"
  shows "peer_connected sent pend (\<lambda>k. ids' (inv_into {..<n} ids k)) dp dp' rdp"
    and "(\<lambda>k. ids' (inv_into {..<n} ids k)) ` dom (dpl_Streams dp) = ids' ` {..<n}"
proof -
  have inv: "inv_into {..<n} ids (ids i) = i" if "i < n" for i using that assms(3) by simp
  have inj: "inj_on (\<lambda>k. ids' (inv_into {..<n} ids k)) (ids ` {..<n})"
    using assms(4) inv by (auto simp: inj_on_def)
  have "\<exists>rst. dpl_Streams rdp (ids' (inv_into {..<n} ids k)) = Some rst
      \<and> sent (ds_ssqc st') = sent (ds_ssqc st) @ pend (ds_ssqc rst)"
    if st: "dpl_Streams dp k = Some st" "dpl_Streams dp' k = Some st'" for k st st'
  proof -
    from st(1) assms(5) obtain i where i: "i < n" "k = ids i" by auto
    from assms(6) i(1) obtain dst where dst: "dpl_Streams ddp (ids' i) = Some dst" by blast
    from assms(1) i(1) st dst obtain x where x: "dpl_Streams rdp (ids' i) = Some (dst\<lparr>ds_ssqc := x\<rparr>)"
      "pend x = drop (length (sent (ds_ssqc st))) (sent (ds_ssqc st'))" unfolding carried_def i(2) by blast
    from assms(2) st obtain bs where "sent (ds_ssqc st') = sent (ds_ssqc st) @ bs" unfolding has_sent_def by blast
    with x show ?thesis by (simp add: i(2) inv [OF i(1)])
  qed
  with inj show "peer_connected sent pend (\<lambda>k. ids' (inv_into {..<n} ids k)) dp dp' rdp"
    unfolding peer_connected_def assms(5) by blast
  show "(\<lambda>k. ids' (inv_into {..<n} ids k)) ` dom (dpl_Streams dp) = ids' ` {..<n}"
    unfolding assms(5) image_image by (intro image_cong) (simp_all add: inv)
qed

text \<open>C12: From the races to the data: when both hosts have raced \<open>n > 0\<close> streams without an error, data
  flows between them.  A \<^verbatim>\<open>Write\<close> of the dialling host on a stream that the listening host has accepted
  returns, in every schedule with enough turns, and once the network has carried what was sent, the
  read loops of the listening host append just these bytes to the read buffer of that stream, in
  every schedule with enough turns.\<close>

theorem raced_hosts_transfer:
  fixes c :: "('h, 'm, 's) QPartsConn" and d :: "('h, 'm, 't) QPartsConn"
  assumes "duplex (env_read env) (env_write env) pend sent" "race_ready c" "distinct (env_finish env)"
    and "{..<n} \<subseteq> set (env_finish env)" "inj_on (env_ids env) {..<n}" "k + n < 2 ^ 31"
    and "\<And>i. i < n \<Longrightarrow> \<exists>s. env_opens env i = open_ok s \<and> 13 \<le> length (pend s)"
    and "n = length (cp_initialPathSelection (conn_ControlPlane c))" "0 < n"
    and "dpl_Streams (conn_Dataplane c) = Map.empty" "Completions (dpl_completionStore (conn_Dataplane c)) rnd = None"
    and "duplex (env_read env') (env_write env') pend' sent'" "race_ready d" "distinct (env_finish env')"
    and "{..<n} \<subseteq> set (env_finish env')" "inj_on (env_ids env') {..<n}" "k' + n < 2 ^ 31"
    and "\<And>i. i < n \<Longrightarrow> \<exists>s. env_opens env' i = open_ok s \<and> 13 \<le> length (pend' s)"
    and "conn_Streams d sid = Some s0" "Completions (dpl_completionStore (conn_Dataplane d)) rnd = None"
    and "splittable b (env_ids env ` {..<n})" "visits order1 (env_ids env ` {..<n})" "visits order2 (env_ids env ` {..<n})"
    and "turns (5 * n) (env_ids env ` {..<n}) ws" "turns (10 * n) (env_ids env' ` {..<n}) rs"
  shows "\<exists>c1 d1 l l'. RaceDialDataplaneStreams env (silenced w k) c = Goes (None, silenced w l, c1)
     \<and> RaceListenDataplaneStreams env' n (silenced w' k') d = Goes (None, silenced w' l', d1)
     \<and> (\<exists>A dp1 dp2. Stream_Write now b order1 order2 rnd (conn_remote c1) (new_stream sid pref) (conn_Dataplane c1)
           = Inr (Inr (A, length b, dp1))
         \<and> run_writers (env_write env) ws dp1 = Inr dp2 \<and> WriteForStream_returns A dp2
         \<and> (\<forall>rdp. carried sent pend' n (env_ids env) (env_ids env') (conn_Dataplane c1) dp2 (conn_Dataplane d1) rdp \<longrightarrow>
              (\<exists>rdp' held. run_readers (env_read env') rs (rdp, Map.empty) = Inr (rdp', held)
                \<and> dpl_QPartsStreams rdp' = (conn_Streams d)(sid \<mapsto> delivered s0 b))))"
proof -
  from dial_race_ok [OF assms(1-8), of w] obtain X l where
    r: "RaceDialDataplaneStreams env (silenced w k) c = Goes (None, silenced w l, set_streams X c)"
    and X: "\<forall>i s. i < n \<and> env_opens env i = open_ok s \<longrightarrow> (\<exists>s'. X (env_ids env i)
         = Some (fresh_stream (Some (cp_initialPathSelection (conn_ControlPlane c) ! i)) s') \<and> sent s' = sent s @ hello \<and> pend s' = drop 13 (pend s))"
      "\<forall>j. j \<notin> env_ids env ` {..<n} \<longrightarrow> X j = dpl_Streams (conn_Dataplane c) j" by blast
  from listen_race_ok [OF assms(12-18), of w'] obtain Y l' where
    r': "RaceListenDataplaneStreams env' n (silenced w' k') d = Goes (None, silenced w' l', set_streams Y d)"
    and Y: "\<forall>i s. i < n \<and> env_opens env' i = open_ok s \<longrightarrow> (\<exists>s'. Y (env_ids env' i)
            = Some (fresh_stream None s') \<and> sent' s' = sent' s @ take 13 (pend' s) \<and> pend' s' = drop 13 (pend' s))" by blast
  note dp = raced_streams [OF X assms(7,10)]
  let ?c1 = "set_streams X c" and ?d1 = "set_streams Y d"
  have dom: "dom (dpl_Streams (conn_Dataplane ?c1)) = env_ids env ` {..<n}" "card (env_ids env ` {..<n}) = n"
    using dp(1) card_image [OF assms(5)] by simp_all
  have "write_open now (new_stream sid pref)" and id: "ps_Id (new_stream sid pref) = sid"
    by (simp_all add: write_open_def new_stream_def NewPartsStream_def)
  then obtain das A dp1 dp2 where w: "Stream_Write now b order1 order2 rnd (conn_remote ?c1) (new_stream sid pref) (conn_Dataplane ?c1)
      = Inr (Inr (A, length b, dp1))" "run_writers (env_write env) ws dp1 = Inr dp2" "WriteForStream_returns A dp2"
    and das: "sendable (map da_Data das)" "placed das (env_ids env ` {..<n})" "concat (map da_Data das) = b"
      "length das \<le> 5 * n" "has_sent sent sid rnd das (conn_Dataplane ?c1) dp2"
    using Stream_Write_sends [OF duplexD(3) [OF assms(1)], of "conn_Dataplane ?c1" now "new_stream sid pref" b order1 order2 rnd ws
        "conn_remote ?c1"] assms(11,21-24) dp(2,3) unfolding dom by auto
  have "Y (env_ids env' i) \<noteq> None" if "i < n" for i using assms(18) [OF that] Y that by fastforce
  then have listening: "\<forall>i < n. dpl_Streams (conn_Dataplane ?d1) (env_ids env' i) \<noteq> None" by simp
  have old: "dpl_QPartsStreams (conn_Dataplane ?d1) = conn_Streams d"
    "dpl_completionStore (conn_Dataplane ?d1) = dpl_completionStore (conn_Dataplane d)"
    by (simp_all add: set_streams_def conn_Streams_def)
  have "\<exists>rdp' held. run_readers (env_read env') rs (rdp, Map.empty) = Inr (rdp', held)
      \<and> dpl_QPartsStreams rdp' = (conn_Streams d)(sid \<mapsto> delivered s0 b)"
    if net: "carried sent pend' n (env_ids env) (env_ids env') (conn_Dataplane ?c1) dp2 (conn_Dataplane ?d1) rdp" for rdp
  proof -
    note con = carried_connected [OF net das(5) assms(5,16) dom(1) listening]
    have rdp: "dpl_QPartsStreams rdp = conn_Streams d" "Completions (dpl_completionStore rdp) rnd = None"
      using net old assms(20) by (simp_all add: carried_def)
    have "turns (2 * (5 * n)) ((\<lambda>k. env_ids env' (inv_into {..<n} (env_ids env) k)) ` dom (dpl_Streams (conn_Dataplane ?c1))) rs"
      using assms(25) unfolding con(2) by simp
    from connected_delivers [OF das(5) con(1) duplexD(1,2) [OF assms(12)] das(1) _ _ rdp(2) das(4) this, of s0]
    show ?thesis using das(2,3) rdp(1) assms(19) unfolding dom(1) by auto
  qed
  with r r' w show ?thesis by blast
qed

text \<open>Three bytes between two hosts with one path; in memory a stream is what it can still read and what was
  written to it.\<close>

definition carry ::
  "('addr, 'path, byte list \<times> byte list) QPartsDataplane \<Rightarrow> ('addr, 'path, byte list \<times> byte list) QPartsDataplane
     \<Rightarrow> ('addr, 'path, byte list \<times> byte list) QPartsDataplane \<Rightarrow> ('addr, 'path, byte list \<times> byte list) QPartsDataplane" where
  "carry dp dp' ddp = ddp\<lparr>dpl_Streams := (\<lambda>j. map_option (\<lambda>dst. dst\<lparr>ds_ssqc :=
     (drop (length (snd (ds_ssqc (the (dpl_Streams dp j))))) (snd (ds_ssqc (the (dpl_Streams dp' j)))), [])\<rparr>) (dpl_Streams ddp j))\<rparr>"

lemma carry_carried: "carried snd fst n ids ids dp dp' ddp (carry dp dp' ddp)"
  unfolding carried_def
proof (intro conjI allI impI)
  fix i st st' dst
  assume "dpl_Streams dp (ids i) = Some st" "dpl_Streams dp' (ids i) = Some st'" "dpl_Streams ddp (ids i) = Some dst"
  then show "\<exists>x. dpl_Streams (carry dp dp' ddp) (ids i) = Some (dst\<lparr>ds_ssqc := x\<rparr>)
      \<and> fst x = drop (length (snd (ds_ssqc st))) (snd (ds_ssqc st'))"
    by (intro exI [of _ "(drop (length (snd (ds_ssqc st))) (snd (ds_ssqc st')), [])"]) (simp add: carry_def)
qed (simp_all add: carry_def)

theorem raced_hosts_transfer_witness:
  "\<exists>c1 d1 l l' A dp1 dp2 rdp' held s1.
     RaceDialDataplaneStreams example_env (silenced (Some (Writer 1)) 0) shaken_host = Goes (None, silenced (Some (Writer 1)) l, c1)
     \<and> RaceListenDataplaneStreams example_env 1 (silenced (Some (Writer 1)) 0) (put_stream (new_stream 9 0) shaken_host)
        = Goes (None, silenced (Some (Writer 1)) l', d1)
     \<and> Stream_Write 0 [1, 2, 3] [0] [0] 77 (conn_remote c1) (new_stream 9 0) (conn_Dataplane c1) = Inr (Inr (A, 3, dp1))
     \<and> run_writers pair_write [0, 0, 0, 0, 0] dp1 = Inr dp2 \<and> WriteForStream_returns A dp2
     \<and> run_readers pair_read ([0, 0, 0, 0, 0, 0, 0, 0, 0, 0]) (carry (conn_Dataplane c1) dp2 (conn_Dataplane d1), Map.empty) = Inr (rdp', held)
     \<and> dpl_QPartsStreams rdp' 9 = Some s1 \<and> pb_buffer (ps_ReadBuffer s1) = [1, 2, 3]"
proof -
  let ?d = "put_stream (new_stream 9 0) shaken_host"
  have e: "distinct (env_finish example_env)" "{..<1} \<subseteq> set (env_finish example_env)" "inj_on (env_ids example_env) {..<1}"
    "(0 :: nat) + 1 < 2 ^ 31" "env_ids example_env ` {..<1} = {0}" "env_write example_env = pair_write" "env_read example_env = pair_read"
    by (auto simp: example_env_def inj_on_def)
  have opens: "\<exists>s. env_opens example_env i = open_ok s \<and> 13 \<le> length (fst s)" for i
    by (rule exI [of _ "(hello, [])"]) (simp add: example_env_def)
  have c: "Completions (dpl_completionStore (conn_Dataplane shaken_host)) 77 = None"
    by (simp add: shaken_host_def NewQPartsConn_def NewQPartsDataplane_def NewCompletionStore_def)
  have id: "ps_Id (new_stream 9 0) = 9" "pb_buffer (ps_ReadBuffer (new_stream 9 0)) = []"
    by (simp_all add: new_stream_def NewPartsStream_def NewPacketBuffer_def)
  have d: "race_ready ?d" using shaken_host(1) unfolding race_ready_def put_stream_simps .
  have d9: "conn_Streams ?d 9 = Some (new_stream 9 0)" using id(1) by (metis put_stream_simps(1) fun_upd_same)
  have dc: "Completions (dpl_completionStore (conn_Dataplane ?d)) 77 = None" using c by (simp add: put_stream_def)
  have b: "splittable [1, 2, 3] (env_ids example_env ` {..<1})" "visits [0] (env_ids example_env ` {..<1})"
    "turns (5 * 1) (env_ids example_env ` {..<1}) [0, 0, 0, 0, 0]" "turns (10 * 1) (env_ids example_env ` {..<1}) ([0, 0, 0, 0, 0, 0, 0, 0, 0, 0])"
    unfolding e(5) by (simp_all add: splittable_def maxAlloc_def visits_def turns_def)
  from raced_hosts_transfer [OF example_env shaken_host(1) e(1-4) opens shaken_host(2) [symmetric] zero_less_one
      shaken_host(3) c example_env d e(1-4) opens d9 dc b(1,2,2,3,4), of "Some (Writer 1)" "Some (Writer 1)" 0 0]
  obtain c1 d1 l l' A dp1 dp2 where
    "RaceDialDataplaneStreams example_env (silenced (Some (Writer 1)) 0) shaken_host = Goes (None, silenced (Some (Writer 1)) l, c1)"
    "RaceListenDataplaneStreams example_env 1 (silenced (Some (Writer 1)) 0) ?d = Goes (None, silenced (Some (Writer 1)) l', d1)"
    and w: "Stream_Write 0 [1, 2, 3] [0] [0] 77 (conn_remote c1) (new_stream 9 0) (conn_Dataplane c1) = Inr (Inr (A, length [1, 2, 3 :: byte], dp1))"
    "run_writers pair_write [0, 0, 0, 0, 0] dp1 = Inr dp2" "WriteForStream_returns A dp2"
    and net: "\<And>rdp. carried snd fst 1 (env_ids example_env) (env_ids example_env) (conn_Dataplane c1) dp2 (conn_Dataplane d1) rdp \<Longrightarrow>
        \<exists>rdp' held. run_readers pair_read ([0, 0, 0, 0, 0, 0, 0, 0, 0, 0]) (rdp, Map.empty) = Inr (rdp', held)
          \<and> dpl_QPartsStreams rdp' = (conn_Streams ?d)(9 \<mapsto> delivered (new_stream 9 0) [1, 2, 3])"
    unfolding e(6,7) by blast
  moreover have "length [1, 2, 3 :: byte] = 3" by simp
  moreover from net [OF carry_carried] obtain rdp' held where
    "run_readers pair_read ([0, 0, 0, 0, 0, 0, 0, 0, 0, 0]) (carry (conn_Dataplane c1) dp2 (conn_Dataplane d1), Map.empty) = Inr (rdp', held)"
    "dpl_QPartsStreams rdp' 9 = Some (delivered (new_stream 9 0) [1, 2, 3])" by auto
  moreover have "pb_buffer (ps_ReadBuffer (delivered (new_stream 9 0) [1, 2, 3])) = [1, 2, 3]"
    by (simp add: delivered_def pb_Append_def id)
  ultimately show ?thesis by metis
qed

text \<open>End to end, a fresh program cannot transfer data: nothing marks a path as active, so after a
  \<^verbatim>\<open>Dial\<close> that succeeds on both sides the connection has no data plane stream, and then a \<^verbatim>\<open>Write\<close> of up
  to 1000 bytes on any stream of it panics, and a longer one never returns.\<close>

theorem dial_then_write_fails:
  fixes env :: "('h, 'm, 's) environment"
  assumes "duplex (env_read env) (env_write env) pend sent" "opts \<noteq> Some QPARTS_PATH_SEL_RESPONSIBILITY_SERVER"
    and "connectable env remote [] s0 w (NewQPartsConn local)"
  shows "\<exists>w1 c1. DialWithOpts env (Inr local) (Inr remote) opts w = Goes (Inr (None, w1, c1))
     \<and> (\<forall>c2 reply. receives pend (hs_wire reply) c1 c2 \<longrightarrow>
          (\<exists>w3 c3. Connect_reply env (w1, c2) = Goes (None, None, w3, c3)
            \<and> (length b \<le> 1000 \<longrightarrow> Stream_Write now b [] [] rnd (conn_remote c3) (new_stream i pref) (conn_Dataplane c3)
                = Inl NilDereference)
            \<and> (1000 < length b \<longrightarrow>
                (\<exists>A dp1. Stream_Write now b [] [] rnd (conn_remote c3) (new_stream i pref) (conn_Dataplane c3) = Inr (Inr (A, 0, dp1))
                  \<and> (\<forall>ks dp2. run_writers (env_write env) ks dp1 = Inr dp2 \<longrightarrow> \<not> WriteForStream_returns A dp2)))))"
proof -
  let ?c = "upd_cp (\<lambda>cp. cp\<lparr>cp_dialOpts := opts\<rparr>) (NewQPartsConn local) :: ('h, 'm, 's) QPartsConn"
  have c: "connectable env remote [] s0 w ?c" "cp_dialOpts (conn_ControlPlane ?c) \<noteq> Some QPARTS_PATH_SEL_RESPONSIBILITY_SERVER"
    "dpl_Streams (conn_Dataplane ?c) = Map.empty"
    using assms(2,3) by (simp_all add: connectable_def) (simp add: NewQPartsConn_def NewQPartsDataplane_def)
  from connect_opens_nothing [OF assms(1) c(1,2)] obtain w1 c1 where
    req: "Connect_request env remote (w, ?c) = Goes (None, w1, c1)"
    and reply: "\<And>c2 reply. receives pend (hs_wire reply) c1 c2 \<Longrightarrow> \<exists>w3 c3. Connect_reply env (w1, c2) = Goes (None, None, w3, c3)
       \<and> dpl_Streams (conn_Dataplane c3) = Map.empty" unfolding c(3) by blast
  have open_now: "write_open now (new_stream i pref)" by (simp add: write_open_def new_stream_def NewPartsStream_def)
  have fails: "(length b \<le> 1000 \<longrightarrow> Stream_Write now b [] [] rnd (conn_remote c3) (new_stream i pref) (conn_Dataplane c3)
          = Inl NilDereference)
      \<and> (1000 < length b \<longrightarrow> (\<exists>A dp1. Stream_Write now b [] [] rnd (conn_remote c3) (new_stream i pref) (conn_Dataplane c3)
          = Inr (Inr (A, 0, dp1)) \<and> (\<forall>ks dp2. run_writers (env_write env) ks dp1 = Inr dp2 \<longrightarrow> \<not> WriteForStream_returns A dp2)))"
    if "dpl_Streams (conn_Dataplane c3) = Map.empty" for c3 :: "('h, 'm, 's) QPartsConn"
    by (rule no_streams_write [OF open_now]) (simp add: idle_iff that)
  have "DialWithOpts env (Inr local) (Inr remote) opts w = Goes (Inr (None, w1, c1))"
    using req by (simp add: DialWithOpts_def conn_DialAndOpen_def)
  then show ?thesis using reply fails by meson
qed

theorem dial_then_write_fails_witness:
  "\<exists>w1 c1. DialWithOpts (example_env\<lparr>env_range := []\<rparr>) (Inr example_addr) (Inr example_addr) None
       (example_world\<lparr>w_State := init_State\<rparr>) = Goes (Inr (None, w1, c1))
     \<and> (\<exists>w3 c3. Connect_reply (example_env\<lparr>env_range := []\<rparr>)
           (w1, set_control_stream (hs_wire (handshake 8 31600 31610 0), []) c1) = Goes (None, None, w3, c3)
         \<and> Stream_Write 0 [1] [] [] 7 (conn_remote c3) (new_stream 5 0) (conn_Dataplane c3) = Inl NilDereference)"
proof -
  let ?env = "example_env\<lparr>env_range := []\<rparr>" and ?w = "example_world\<lparr>w_State := init_State\<rparr>"
  have d: "duplex (env_read ?env) (env_write ?env) fst snd" using example_env by simp
  have "connectable ?env example_addr [] ([], []) ?w (NewQPartsConn example_addr)"
    using example_connectable unfolding connectable_def by (simp add: ActivePaths_def example_env_def)
  from dial_then_write_fails [OF d _ this, of None "[1]" 0 7 5 0] obtain w1 c1 where
    r: "DialWithOpts ?env (Inr example_addr) (Inr example_addr) None ?w = Goes (Inr (None, w1, c1))"
    and f: "\<forall>c2 reply. receives fst (hs_wire reply) c1 c2 \<longrightarrow> (\<exists>w3 c3. Connect_reply ?env (w1, c2) = Goes (None, None, w3, c3)
       \<and> (length [1 :: byte] \<le> 1000 \<longrightarrow> Stream_Write 0 [1] [] [] 7 (conn_remote c3) (new_stream 5 0) (conn_Dataplane c3)
           = Inl NilDereference))"
    by blast
  have "length [1 :: byte] \<le> 1000" by simp
  with f [THEN spec, THEN spec, THEN mp, OF receives_host] r show ?thesis by blast
qed

text \<open>C15: The order of \<^verbatim>\<open>AcceptStream\<close> and the first data matters.  The reply that lets the peer write is
  sent before the new stream is in the map of streams: if a sequence of one part for it is complete
  while the stream still waits to be accepted, the read loop of the data plane panics; if
  \<^verbatim>\<open>AcceptStream\<close> comes first, the same bytes are delivered to the accepted stream.\<close>

theorem data_before_accept:
  assumes "stream_delivers rd pend" "sendable [d]" "dpl_Streams (conn_Dataplane c) k = Some st"
    and "pend (ds_ssqc st) = frames (ps_Id s) seq [d] [(0, d)] @ rest"
    and "Completions (dpl_completionStore (conn_Dataplane c)) seq = None"
    and "cp_NewStreamChan (conn_ControlPlane c) = Some s" "conn_Streams c (ps_Id s) = None"
  shows "run_readers rd [k, k] (conn_Dataplane c, Map.empty) = Inl NilDereference
     \<and> (\<exists>c' dp. conn_AcceptStream c = Goes (s, c')
         \<and> run_readers rd [k, k] (conn_Dataplane c', Map.empty) = Inr (dp, Map.empty)
         \<and> dpl_QPartsStreams dp = (conn_Streams c)(ps_Id s \<mapsto> delivered s d))"
proof
  show "run_readers rd [k, k] (conn_Dataplane c, Map.empty) = Inl NilDereference"
    using one_part_arrives [OF assms(1-5)] assms(7) by (simp add: conn_Streams_def)
  let ?c = "put_stream s (put_stream s (upd_cp (\<lambda>cp. cp\<lparr>cp_NewStreamChan := None\<rparr>) c))"
  have a: "conn_AcceptStream c = Goes (s, ?c)" using assms(6) by (simp add: conn_AcceptStream_def AcceptStream_def)
  have dp: "conn_Dataplane ?c = (conn_Dataplane c)\<lparr>dpl_QPartsStreams := (conn_Streams c)(ps_Id s \<mapsto> s)\<rparr>"
    by (simp add: put_stream_def upd_cp_def conn_Streams_def)
  have "\<exists>dp. run_readers rd [k, k] (conn_Dataplane ?c, Map.empty) = Inr (dp, Map.empty)
      \<and> dpl_QPartsStreams dp = (conn_Streams c)(ps_Id s \<mapsto> delivered s d)"
    using one_part_arrives [OF assms(1,2), of "conn_Dataplane ?c" k st "ps_Id s" seq rest] assms(3-5) unfolding dp by auto
  with a show "\<exists>c' dp. conn_AcceptStream c = Goes (s, c')
         \<and> run_readers rd [k, k] (conn_Dataplane c', Map.empty) = Inr (dp, Map.empty)
         \<and> dpl_QPartsStreams dp = (conn_Streams c)(ps_Id s \<mapsto> delivered s d)" by blast
qed

definition early_data :: "(string, nat, byte list) QPartsConn" where
  "early_data = (upd_cp (\<lambda>cp. cp\<lparr>cp_NewStreamChan := Some (new_stream 9 0)\<rparr>) (NewQPartsConn example_addr))
     \<lparr>conn_Dataplane := AddListenStream 1 (frames 9 77 [[7, 8]] [(0, [7, 8])]) (NewQPartsDataplane Map.empty)\<rparr>"

theorem data_before_accept_witness:
  "run_readers memory_read [1, 1] (conn_Dataplane early_data, Map.empty) = Inl NilDereference
   \<and> (\<exists>c' dp s. conn_AcceptStream early_data = Goes (new_stream 9 0, c')
       \<and> run_readers memory_read [1, 1] (conn_Dataplane c', Map.empty) = Inr (dp, Map.empty)
       \<and> dpl_QPartsStreams dp 9 = Some s \<and> pb_buffer (ps_ReadBuffer s) = [7, 8])"
proof -
  have id: "ps_Id (new_stream 9 0) = 9" "pb_buffer (ps_ReadBuffer (new_stream 9 0)) = []"
    by (simp_all add: new_stream_def NewPartsStream_def NewPacketBuffer_def)
  have "\<exists>st. dpl_Streams (conn_Dataplane early_data) 1 = Some st \<and> id (ds_ssqc st) = frames (ps_Id (new_stream 9 0)) 77 [[7, 8]] [(0, [7, 8])] @ []"
    unfolding id by (simp add: early_data_def AddListenStream_def)
  then obtain st where st: "dpl_Streams (conn_Dataplane early_data) 1 = Some st"
    "id (ds_ssqc st) = frames (ps_Id (new_stream 9 0)) 77 [[7, 8]] [(0, [7, 8])] @ []" by blast
  have c: "Completions (dpl_completionStore (conn_Dataplane early_data)) 77 = None"
    "cp_NewStreamChan (conn_ControlPlane early_data) = Some (new_stream 9 0)"
    "conn_Streams early_data (ps_Id (new_stream 9 0)) = None"
    by (simp_all add: early_data_def AddListenStream_def NewQPartsDataplane_def NewCompletionStore_def upd_cp_def conn_Streams_def)
  from data_before_accept [OF memory_read(1) one_frame(4) st c] show ?thesis
    unfolding id by (auto simp: delivered_def pb_Append_def id)
qed

end
